(* ===== verification/Siot_Prelude.thy ===== *)
theory Siot_Prelude
  imports Main "HOL-Library.Monad_Syntax" "HOL-Library.Word" "HOL-Library.Signed_Division"
begin

text \<open>
  Shared ground of the development: how C memory, C integers and undefined behaviour are
  represented, and the generic lemmas the component theories use.

  A C function is an Isabelle function into \<open>'a option\<close>, composed with the option monad.
  \<open>None\<close> is never an error code: it stands for undefined behaviour (a read or a write outside
  an object, a signed overflow, a float to int conversion out of range, a null or wild
  dereference). Error codes are ordinary \<open>int\<close> results. A theorem that a call equals
  \<open>Some r\<close> therefore says that the call is memory safe, that it returns, and what it returns.

  A character buffer is the list of the bytes of the C object it lives in; \<open>rd\<close> and \<open>wr\<close> are
  the checked element accesses. A C string inside a buffer is \<open>cstr buf\<close>, the bytes before
  the first NUL.
\<close>

subsection \<open>Collections of facts\<close>

named_theorems buf_simps \<open>rewriting of buffer reads and writes\<close>
named_theorems cstr_simps \<open>C strings inside buffers\<close>

subsection \<open>Types and constants\<close>

type_synonym bytes = "char list"

abbreviation NUL :: char where "NUL \<equiv> CHR 0x00"

definition lit :: "string \<Rightarrow> bytes" where
  \<comment> \<open>the object a C string literal denotes\<close>
  "lit s = s @ [NUL]"

definition INT_MIN :: int where "INT_MIN = -2147483648"
definition INT_MAX :: int where "INT_MAX = 2147483647"

definition c_int :: "int \<Rightarrow> int option" where
  \<comment> \<open>the result of a signed 32 bit operation: overflow is undefined\<close>
  "c_int x = (if INT_MIN \<le> x \<and> x \<le> INT_MAX then Some x else None)"

definition ENOMEM :: int where "ENOMEM = 12"

subsection \<open>Checked buffer accesses\<close>

definition rd :: "'a list \<Rightarrow> nat \<Rightarrow> 'a option" where
  "rd b i = (if i < length b then Some (b ! i) else None)"

definition wr :: "'a list \<Rightarrow> nat \<Rightarrow> 'a \<Rightarrow> 'a list option" where
  "wr b i c = (if i < length b then Some (b[i := c]) else None)"

definition wr_block :: "bytes \<Rightarrow> nat \<Rightarrow> bytes \<Rightarrow> bytes option" where
  \<comment> \<open>store a run of bytes at an offset, as memcpy and snprintf do\<close>
  "wr_block b off xs =
     (if off + length xs \<le> length b
      then Some (take off b @ xs @ drop (off + length xs) b) else None)"

lemma c_int_Some [simp]: "INT_MIN \<le> x \<Longrightarrow> x \<le> INT_MAX \<Longrightarrow> c_int x = Some x"
  by (simp add: c_int_def)

lemma c_int_eq_Some: "c_int x = Some y \<longleftrightarrow> y = x \<and> INT_MIN \<le> x \<and> x \<le> INT_MAX"
  by (auto simp: c_int_def)

lemma rd_Some [simp]: "i < length b \<Longrightarrow> rd b i = Some (b ! i)"
  by (simp add: rd_def)

lemma wr_Some [simp]: "i < length b \<Longrightarrow> wr b i c = Some (b[i := c])"
  by (simp add: wr_def)

lemma rd_eq_Some: "rd b i = Some c \<longleftrightarrow> i < length b \<and> c = b ! i"
  by (auto simp: rd_def)

lemma wr_eq_Some: "wr b i c = Some b' \<longleftrightarrow> i < length b \<and> b' = b[i := c]"
  by (auto simp: wr_def)

lemma wr_length: "wr b i c = Some b' \<Longrightarrow> length b' = length b"
  by (auto simp: wr_eq_Some)

text \<open>
  A loop that fills a buffer from the front keeps it in the shape \<open>done @ rest\<close>; these two
  rules step such a loop.
\<close>

lemma wr_append [buf_simps]: "wr (pre @ x # rest) (length pre) c = Some (pre @ c # rest)"
  by (simp add: list_update_append)

lemma wr_append' [buf_simps]:
  "n = length pre \<Longrightarrow> wr (pre @ x # rest) n c = Some (pre @ c # rest)"
  by (simp add: list_update_append)

lemma rd_append [buf_simps]: "rd (pre @ x # rest) (length pre) = Some x"
  by (simp add: rd_def)

lemma rd_append' [buf_simps]: "n = length pre \<Longrightarrow> rd (pre @ x # rest) n = Some x"
  by (simp add: rd_def)

lemma split_at:
  assumes "i < length b"
  obtains pre x rest where "b = pre @ x # rest" "length pre = i"
  using assms id_take_nth_drop[of i b] by (metis length_take min.absorb4)

lemma split_prefix:
  assumes "n \<le> length b"
  obtains pre rest where "b = pre @ rest" "length pre = n"
  using assms by (metis append_take_drop_id length_take min.absorb2)

lemma wr_block_Some:
  "off + length xs \<le> length b \<Longrightarrow>
   wr_block b off xs = Some (take off b @ xs @ drop (off + length xs) b)"
  by (simp add: wr_block_def)

lemma wr_block_length: "wr_block b off xs = Some b' \<Longrightarrow> length b' = length b"
  by (auto simp: wr_block_def split: if_splits)

subsection \<open>Words\<close>

lemma unat64_less: "unat (w :: 64 word) < 18446744073709551616"
proof -
  have "unat w < 2 ^ LENGTH(64)" by (rule unsigned_less)
  then show ?thesis by simp
qed

lemma unat32_less: "unat (w :: 32 word) < 4294967296"
proof -
  have "unat w < 2 ^ LENGTH(32)" by (rule unsigned_less)
  then show ?thesis by simp
qed

subsection \<open>Digits\<close>

definition digit_char :: "nat \<Rightarrow> char" where
  "digit_char d = char_of (48 + d)"

definition is_digit :: "char \<Rightarrow> bool" where
  \<comment> \<open>\<open>c >= '0' && c <= '9'\<close>\<close>
  "is_digit c = (48 \<le> (of_char c :: nat) \<and> (of_char c :: nat) \<le> 57)"

definition digit_val :: "char \<Rightarrow> nat" where
  \<comment> \<open>\<open>c - '0'\<close>, used on digits only\<close>
  "digit_val c = of_char c - 48"

lemma of_char_less_256: "(of_char c :: nat) < 256"
  by (metis of_char_mod_256 mod_less_divisor zero_less_numeral)

lemma of_char_char_of_nat [simp]: "n < 256 \<Longrightarrow> of_char (char_of (n :: nat)) = n"
  by simp

lemma is_digit_digit_char [simp]: "d < 10 \<Longrightarrow> is_digit (digit_char d)"
  by (simp add: is_digit_def digit_char_def)

lemma digit_val_digit_char [simp]: "d < 10 \<Longrightarrow> digit_val (digit_char d) = d"
  by (simp add: digit_val_def digit_char_def)

lemma digit_val_less [simp]: "is_digit c \<Longrightarrow> digit_val c < 10"
  unfolding is_digit_def digit_val_def by linarith

lemma not_digit_NUL [simp]: "\<not> is_digit NUL"
  by (simp add: is_digit_def)

lemma digit_char_digit_val: "is_digit c \<Longrightarrow> digit_char (digit_val c) = c"
  by (simp add: is_digit_def digit_val_def digit_char_def)

lemma is_digit_neq:
  "is_digit c \<Longrightarrow> c \<noteq> NUL" "is_digit c \<Longrightarrow> c \<noteq> CHR ''-''"
  "is_digit c \<Longrightarrow> c \<noteq> CHR ''.''" "is_digit c \<Longrightarrow> c \<noteq> CHR ''Z''"
  by (auto simp: is_digit_def)

lemma digit_char_neq [simp]:
  "d < 10 \<Longrightarrow> digit_char d \<noteq> NUL" "d < 10 \<Longrightarrow> digit_char d \<noteq> CHR ''-''"
  "d < 10 \<Longrightarrow> digit_char d \<noteq> CHR ''.''" "d < 10 \<Longrightarrow> digit_char d \<noteq> CHR ''Z''"
  using is_digit_neq is_digit_digit_char by blast+

lemma digit_char_0: "digit_char 0 = CHR ''0''"
  by code_simp

text \<open>The decimal digits of a number, most significant first: the reference rendering.\<close>

fun dec_nat :: "nat \<Rightarrow> string" where
  "dec_nat n = (if n < 10 then [digit_char n] else dec_nat (n div 10) @ [digit_char (n mod 10)])"

declare dec_nat.simps [simp del]

definition dec_int :: "int \<Rightarrow> string" where
  "dec_int n = (if n < 0 then CHR ''-'' # dec_nat (nat (- n)) else dec_nat (nat n))"

text \<open>The value a digit string denotes, reading from the left.\<close>

definition dec_value :: "nat \<Rightarrow> string \<Rightarrow> nat" where
  "dec_value acc s = foldl (\<lambda>v c. v * 10 + digit_val c) acc s"

lemma dec_value_simps [simp]:
  "dec_value acc [] = acc"
  "dec_value acc (c # s) = dec_value (acc * 10 + digit_val c) s"
  "dec_value acc (s @ t) = dec_value (dec_value acc s) t"
  by (simp_all add: dec_value_def)

lemma dec_nat_digits: "c \<in> set (dec_nat n) \<Longrightarrow> is_digit c"
proof (induction n rule: dec_nat.induct)
  case (1 n)
  then show ?case by (subst (asm) (2) dec_nat.simps) (auto split: if_splits)
qed

lemma dec_nat_not_Nil [simp]: "dec_nat n \<noteq> []"
  by (subst dec_nat.simps) simp

lemma dec_value_dec_nat [simp]: "dec_value 0 (dec_nat n) = n"
proof (induction n rule: dec_nat.induct)
  case (1 n)
  show ?case
  proof (cases "n < 10")
    case True
    then show ?thesis by (subst dec_nat.simps) simp
  next
    case False
    with 1 show ?thesis by (subst dec_nat.simps) simp
  qed
qed

lemma dec_value_mono: "acc \<le> dec_value acc s"
proof (induction s arbitrary: acc)
  case Nil
  then show ?case by simp
next
  case (Cons c s)
  have "acc \<le> acc * 10 + digit_val c" by simp
  also have "\<dots> \<le> dec_value (acc * 10 + digit_val c) s" by (rule Cons)
  finally show ?case by simp
qed

lemma length_dec_nat: "n < 10 ^ Suc k \<Longrightarrow> length (dec_nat n) \<le> Suc k"
proof (induction k arbitrary: n)
  case 0
  then show ?case by (subst dec_nat.simps) simp
next
  case (Suc k)
  have "n div 10 < 10 ^ Suc k"
    using Suc.prems by (simp add: div_less_iff_less_mult mult.commute)
  then have "length (dec_nat (n div 10)) \<le> Suc k" by (rule Suc.IH)
  then show ?case by (subst dec_nat.simps) simp
qed

lemma dec_int_chars: "c \<in> set (dec_int n) \<Longrightarrow> is_digit c \<or> c = CHR ''-''"
  by (auto simp: dec_int_def dest: dec_nat_digits split: if_splits)

lemma NUL_notin_dec [simp]: "NUL \<notin> set (dec_nat n)" "NUL \<notin> set (dec_int i)"
  by (auto dest: dec_nat_digits dec_int_chars)

lemma length_dec_int:
  assumes "INT_MIN \<le> n" "n \<le> INT_MAX"
  shows "length (dec_int n) \<le> 11"
proof -
  have "nat (- n) < 10 ^ Suc 9" "nat n < 10 ^ Suc 9"
    using assms by (simp_all add: INT_MIN_def INT_MAX_def nat_less_iff)
  then have "length (dec_nat (nat (- n))) \<le> 10" "length (dec_nat (nat n)) \<le> 10"
    using length_dec_nat[of _ 9] by simp_all
  then show ?thesis by (simp add: dec_int_def)
qed

subsection \<open>Lists related element by element\<close>

lemma list_all2_source: "list_all2 P xs ys \<Longrightarrow> y \<in> set ys \<Longrightarrow> \<exists>x\<in>set xs. P x y"
  by (induction rule: list_all2_induct) auto

lemma list_all2_target: "list_all2 P xs ys \<Longrightarrow> x \<in> set xs \<Longrightarrow> \<exists>y\<in>set ys. P x y"
  by (induction rule: list_all2_induct) auto

end
