(* ===== verification/C_Strings.thy ===== *)
theory C_Strings
  imports Siot_Prelude
begin

text \<open>
  The string functions of the C library that the program calls, on byte buffers, with every
  access checked: a call that would read or write outside its object is \<open>None\<close>.
\<close>

subsection \<open>Strings inside buffers\<close>

definition cstr :: "bytes \<Rightarrow> string" where
  "cstr b = takeWhile (\<lambda>c. c \<noteq> NUL) b"

definition terminated :: "bytes \<Rightarrow> bool" where
  "terminated b = (NUL \<in> set b)"

lemma cstr_Nil [simp]: "cstr [] = []"
  by (simp add: cstr_def)

lemma cstr_Cons [simp]: "cstr (c # b) = (if c = NUL then [] else c # cstr b)"
  by (simp add: cstr_def)

lemma NUL_notin_cstr [simp]: "NUL \<notin> set (cstr b)"
  by (induction b) auto

lemma cstr_append_NUL [simp]: "NUL \<notin> set s \<Longrightarrow> cstr (s @ NUL # r) = s"
  by (induction s) auto

lemma cstr_no_NUL [simp]: "NUL \<notin> set s \<Longrightarrow> cstr s = s"
  by (induction s) auto

lemma cstr_append_terminated: "terminated b \<Longrightarrow> cstr (b @ r) = cstr b"
  by (induction b) (auto simp: terminated_def)

lemma cstr_lit [simp]: "NUL \<notin> set s \<Longrightarrow> cstr (lit s) = s"
  by (simp add: lit_def)

lemma terminated_lit [simp]: "terminated (lit s)"
  by (simp add: lit_def terminated_def)

lemma terminated_split:
  assumes "terminated b"
  obtains r where "b = cstr b @ NUL # r"
proof -
  from assms have "\<exists>r. b = cstr b @ NUL # r"
  proof (induction b)
    case Nil
    then show ?case by (simp add: terminated_def)
  next
    case (Cons c b)
    then show ?case by (auto simp: terminated_def)
  qed
  with that show ?thesis by blast
qed

lemma length_cstr_less: "terminated b \<Longrightarrow> length (cstr b) < length b"
  by (metis add_Suc_right le_imp_less_Suc le_add1 length_Cons length_append terminated_split)

lemma length_cstr_le: "length (cstr b) \<le> length b"
  by (simp add: cstr_def length_takeWhile_le)

lemma nth_length_cstr: "terminated b \<Longrightarrow> b ! length (cstr b) = NUL"
  by (metis nth_append_length terminated_split)

lemma cstr_cut: "cstr (a @ NUL # b) = cstr a"
  by (induction a) auto

lemma cstr_take:
  assumes "terminated b" "length (cstr b) \<le> n"
  shows "cstr (take n b) = cstr b"
proof -
  from assms(1) obtain r where b: "b = cstr b @ NUL # r" by (rule terminated_split)
  obtain k where n: "n = length (cstr b) + k" using assms(2) le_Suc_ex by blast
  have "take n b = cstr b @ take k (NUL # r)" by (subst b) (simp add: n)
  then show ?thesis by (cases k) simp_all
qed

lemma take_cstr_NUL: "terminated b \<Longrightarrow> take (Suc (length (cstr b))) b = cstr b @ [NUL]"
proof -
  assume "terminated b"
  then obtain r where b: "b = cstr b @ NUL # r" by (rule terminated_split)
  show ?thesis by (subst (2) b) simp
qed

lemma cstr_eq_Nil: "b \<noteq> [] \<Longrightarrow> cstr b = [] \<longleftrightarrow> b ! 0 = NUL"
  by (cases b) auto

lemma terminated_drop:
  assumes "terminated b" "NUL \<notin> set (take i b)"
  shows "i < length b" "terminated (drop i b)"
    "drop i b = b ! i # drop (Suc i) b"
    "cstr (drop i b) = (if b ! i = NUL then [] else b ! i # cstr (drop (Suc i) b))"
    "b ! i \<noteq> NUL \<Longrightarrow> NUL \<notin> set (take (Suc i) b)"
proof -
  show i: "i < length b" using assms by (cases "i < length b") (auto simp: terminated_def)
  show "terminated (drop i b)"
    using assms by (metis Un_iff append_take_drop_id set_append terminated_def)
  show d: "drop i b = b ! i # drop (Suc i) b" using i by (simp add: Cons_nth_drop_Suc)
  show "cstr (drop i b) = (if b ! i = NUL then [] else b ! i # cstr (drop (Suc i) b))" by (simp add: d)
  show "b ! i \<noteq> NUL \<Longrightarrow> NUL \<notin> set (take (Suc i) b)" using assms(2) i by (simp add: take_Suc_conv_app_nth)
qed

subsection \<open>Length\<close>

fun c_strlen :: "bytes \<Rightarrow> nat option" where
  "c_strlen [] = None"
| "c_strlen (c # b) = (if c = NUL then Some 0 else map_option Suc (c_strlen b))"

lemma c_strlen_eq: "c_strlen b = (if terminated b then Some (length (cstr b)) else None)"
  by (induction b) (auto simp: terminated_def)

definition c_strnlen :: "bytes \<Rightarrow> nat \<Rightarrow> nat option" where
  "c_strnlen b n =
     (if NUL \<in> set (take n b) \<or> n \<le> length b then Some (length (cstr (take n b))) else None)"

subsection \<open>Comparison (equality only, which is all the program uses)\<close>

fun c_streq :: "bytes \<Rightarrow> bytes \<Rightarrow> bool option" where
  \<comment> \<open>\<open>strcmp(a, b) == 0\<close>\<close>
  "c_streq (a # as) (b # bs) =
     (if a \<noteq> b then Some False else if a = NUL then Some True else c_streq as bs)"
| "c_streq _ _ = None"

fun c_strneq :: "nat \<Rightarrow> bytes \<Rightarrow> bytes \<Rightarrow> bool option" where
  \<comment> \<open>\<open>strncmp(a, b, n) == 0\<close>\<close>
  "c_strneq 0 _ _ = Some True"
| "c_strneq (Suc n) (a # as) (b # bs) =
     (if a \<noteq> b then Some False else if a = NUL then Some True else c_strneq n as bs)"
| "c_strneq (Suc n) _ _ = None"

lemma c_streq_eq: "terminated a \<Longrightarrow> terminated b \<Longrightarrow> c_streq a b = Some (cstr a = cstr b)"
proof (induction a b rule: c_streq.induct)
  case (1 a as b bs)
  then show ?case by (auto simp: terminated_def)
qed (auto simp: terminated_def)

lemma c_strneq_eq:
  "terminated a \<Longrightarrow> terminated b \<Longrightarrow> length a \<le> n \<Longrightarrow> c_strneq n a b = Some (cstr a = cstr b)"
proof (induction n a b rule: c_strneq.induct)
  case (2 n a as b bs)
  then show ?case by (auto simp: terminated_def)
qed (auto simp: terminated_def)

subsection \<open>Copying\<close>

definition c_strncpy :: "bytes \<Rightarrow> nat \<Rightarrow> bytes \<Rightarrow> nat \<Rightarrow> bytes option" where
  \<comment> \<open>\<open>strncpy(dest + off, src, n)\<close>: at most \<open>n\<close> characters, padded with NUL to \<open>n\<close>\<close>
  "c_strncpy dest off src n =
     (if terminated (take n src) \<or> n \<le> length src
      then wr_block dest off (take n (cstr src @ replicate n NUL)) else None)"

definition c_strcpy :: "bytes \<Rightarrow> bytes \<Rightarrow> bytes option" where
  "c_strcpy dest src =
     (if terminated src then wr_block dest 0 (cstr src @ [NUL]) else None)"

definition c_memcpy :: "bytes \<Rightarrow> nat \<Rightarrow> bytes \<Rightarrow> nat \<Rightarrow> bytes option" where
  "c_memcpy dest off src n = (if n \<le> length src then wr_block dest off (take n src) else None)"

lemma c_strncpy_0:
  assumes "terminated src \<or> n \<le> length src" "n \<le> length dest"
  shows "c_strncpy dest 0 src n =
    Some (take n (cstr src @ replicate n NUL) @ drop n dest)"
proof -
  have "terminated (take n src) \<or> n \<le> length src"
    using assms(1) by (cases "n \<le> length src") auto
  moreover have "length (take n (cstr src @ replicate n NUL)) = n" by simp
  ultimately show ?thesis
    using assms(2) by (simp add: c_strncpy_def wr_block_def)
qed

subsection \<open>Formatted output into a buffer\<close>

definition size_t_of_int :: "int \<Rightarrow> nat" where
  \<comment> \<open>conversion of an int to a 32 bit size_t: a negative value becomes huge\<close>
  "size_t_of_int n = nat (n mod 2 ^ 32)"

definition c_snprintf :: "bytes \<Rightarrow> nat \<Rightarrow> nat \<Rightarrow> string \<Rightarrow> (int \<times> bytes) option" where
  \<comment> \<open>\<open>snprintf(buf + off, n, ...)\<close> whose expansion is \<open>text\<close>: writes at most \<open>n - 1\<close> of its
    characters and a NUL, returns the length of the whole expansion\<close>
  "c_snprintf buf off n text =
     (if n = 0 then Some (int (length text), buf)
      else do {
        buf' \<leftarrow> wr_block buf off (take (n - 1) text @ [NUL]);
        Some (int (length text), buf')
      })"

lemma cstr_lit_prefix: "NUL \<notin> set s \<Longrightarrow> cstr (lit s @ r) = s"
  by (simp add: lit_def)

lemma c_snprintf_length: "c_snprintf b off n t = Some (r, b') \<Longrightarrow> length b' = length b"
  by (auto simp: c_snprintf_def dest: wr_block_length split: if_splits Option.bind_splits)

subsection \<open>The contract of a print and parse pair\<close>

text \<open>
  The numbers and timestamps of a point travel as text: one routine prints a value into a
  caller supplied buffer, another reads it back from a C string. The provider promises the
  text, the buffer size that is enough, and that parsing the printed text gives the value
  back whatever bytes follow the terminator; what a client needs is derived once here.
\<close>

locale text_codec =
  fixes print :: "'a \<Rightarrow> bytes \<Rightarrow> bytes option"
    and parse :: "bytes \<Rightarrow> 'a option"
    and shown :: "'a \<Rightarrow> string"
    and valid :: "'a \<Rightarrow> bool"
    and room :: nat
  assumes shown_room: "valid x \<Longrightarrow> length (shown x) < room"
    and shown_plain: "valid x \<Longrightarrow> NUL \<notin> set (shown x)"
    and print_shown: "valid x \<Longrightarrow> room \<le> length buf \<Longrightarrow>
      print x buf = Some (shown x @ NUL # drop (Suc (length (shown x))) buf)"
    and parse_shown: "valid x \<Longrightarrow> parse (shown x @ NUL # rest) = Some x"
begin

lemma roundtrip:
  assumes "valid x" "room \<le> length buf"
  shows "\<exists>buf'. print x buf = Some buf' \<and> length buf' = length buf \<and> cstr buf' = shown x \<and>
    terminated buf' \<and> parse buf' = Some x"
proof -
  have "length (shown x) < length buf" using shown_room assms by fastforce
  then show ?thesis
    using assms by (simp add: print_shown parse_shown shown_plain terminated_def)
qed

lemma shown_inj: "valid x \<Longrightarrow> valid y \<Longrightarrow> shown x = shown y \<Longrightarrow> x = y"
  by (metis option.inject parse_shown)

lemma print_determines:
  assumes "valid x" "valid y" "room \<le> length a" "room \<le> length b"
    and "print x a = Some a'" "print y b = Some b'" "cstr a' = cstr b'"
  shows "x = y"
  using assms roundtrip shown_inj by (metis option.inject)

end

end
