(* ===== verification/Float32.thy ===== *)
theory Float32
  imports Siot_Prelude Complex_Main
begin

text \<open>
  C's \<open>float\<close>: IEEE 754 binary32, as the 32 bits of its representation, with the arithmetic
  the program uses. Each operation computes the exact rational result and rounds it once, to
  nearest with ties to even (no fused multiply-add, no excess precision). All of it is
  executable.
\<close>

type_synonym f32 = "32 word"

subsection \<open>Reading the representation\<close>

definition f32_neg :: "f32 \<Rightarrow> bool" where
  "f32_neg w = (2 ^ 31 \<le> uint w)"

definition f32_bits :: "f32 \<Rightarrow> int" where
  \<comment> \<open>the magnitude: exponent and fraction\<close>
  "f32_bits w = uint w mod 2 ^ 31"

definition f32_is_nan :: "f32 \<Rightarrow> bool" where
  "f32_is_nan w = (255 * 2 ^ 23 < f32_bits w)"

definition f32_is_inf :: "f32 \<Rightarrow> bool" where
  "f32_is_inf w = (f32_bits w = 255 * 2 ^ 23)"

definition mag_val :: "int \<Rightarrow> rat" where
  \<comment> \<open>the value of a magnitude, in units of \<open>2 ^ -149\<close> scaled back\<close>
  "mag_val b = (let x = b div 2 ^ 23; f = b mod 2 ^ 23
                in if x = 0 then of_int f / 2 ^ 149
                   else of_int ((2 ^ 23 + f) * 2 ^ nat (x - 1)) / 2 ^ 149)"

definition f32_val :: "f32 \<Rightarrow> rat" where
  "f32_val w = (if f32_neg w then - mag_val (f32_bits w) else mag_val (f32_bits w))"

subsection \<open>Rounding\<close>

function bit_len :: "int \<Rightarrow> nat" where
  "bit_len n = (if n \<le> 0 then 0 else Suc (bit_len (n div 2)))"
  by pat_completeness auto
termination
  by (relation "measure nat") auto

declare bit_len.simps [simp del]

definition rne :: "rat \<Rightarrow> int" where
  \<comment> \<open>nearest integer, ties to even\<close>
  "rne x = (let f = \<lfloor>x\<rfloor>; d = x - of_int f
            in if d < 1 / 2 then f else if 1 / 2 < d then f + 1
               else if even f then f else f + 1)"

definition quantum :: "rat \<Rightarrow> nat" where
  \<comment> \<open>how many binary digits of \<open>r * 2 ^ 149\<close> do not fit in a 24 bit significand\<close>
  "quantum r = bit_len \<lfloor>r * 2 ^ 149\<rfloor> - 24"

definition round_mag :: "rat \<Rightarrow> int" where
  "round_mag r = (let k = quantum r
                  in min (255 * 2 ^ 23) (int k * 2 ^ 23 + rne (r * 2 ^ 149 / 2 ^ k)))"

definition f32_make :: "bool \<Rightarrow> int \<Rightarrow> f32" where
  "f32_make s b = word_of_int ((if s then 2 ^ 31 else 0) + b)"

definition f32_round :: "bool \<Rightarrow> rat \<Rightarrow> f32" where
  "f32_round s r = f32_make s (round_mag r)"

subsection \<open>Operations\<close>

definition f32_nan :: f32 where "f32_nan = 0x7FC00000"
definition f32_zero :: f32 where "f32_zero = 0"

definition f32_uminus :: "f32 \<Rightarrow> f32" where
  "f32_uminus a = f32_make (\<not> f32_neg a) (f32_bits a)"

definition f32_add :: "f32 \<Rightarrow> f32 \<Rightarrow> f32" where
  "f32_add a b =
     (if f32_is_nan a \<or> f32_is_nan b then f32_nan
      else if f32_is_inf a then (if f32_is_inf b \<and> f32_neg a \<noteq> f32_neg b then f32_nan else a)
      else if f32_is_inf b then b
      else let r = f32_val a + f32_val b
           in if r = 0 then f32_make (f32_neg a \<and> f32_neg b) 0
              else f32_round (r < 0) \<bar>r\<bar>)"

definition f32_sub :: "f32 \<Rightarrow> f32 \<Rightarrow> f32" where
  "f32_sub a b = f32_add a (f32_uminus b)"

definition f32_mul :: "f32 \<Rightarrow> f32 \<Rightarrow> f32" where
  "f32_mul a b =
     (let s = (f32_neg a \<noteq> f32_neg b)
      in if f32_is_nan a \<or> f32_is_nan b then f32_nan
         else if f32_is_inf a \<or> f32_is_inf b then
           (if f32_bits a = 0 \<or> f32_bits b = 0 then f32_nan else f32_make s (255 * 2 ^ 23))
         else f32_round s \<bar>f32_val a * f32_val b\<bar>)"

definition f32_div :: "f32 \<Rightarrow> f32 \<Rightarrow> f32" where
  "f32_div a b =
     (let s = (f32_neg a \<noteq> f32_neg b)
      in if f32_is_nan a \<or> f32_is_nan b then f32_nan
         else if f32_is_inf a then
           (if f32_is_inf b then f32_nan else f32_make s (255 * 2 ^ 23))
         else if f32_is_inf b then f32_make s 0
         else if f32_bits b = 0 then
           (if f32_bits a = 0 then f32_nan else f32_make s (255 * 2 ^ 23))
         else f32_round s \<bar>f32_val a / f32_val b\<bar>)"

definition f32_lt :: "f32 \<Rightarrow> f32 \<Rightarrow> bool" where
  "f32_lt a b = (\<not> f32_is_nan a \<and> \<not> f32_is_nan b \<and> f32_val a < f32_val b)"

definition f32_of_int :: "int \<Rightarrow> f32" where
  "f32_of_int i = (if i = 0 then 0 else f32_round (i < 0) (of_int \<bar>i\<bar>))"

definition rat_trunc :: "rat \<Rightarrow> int" where
  "rat_trunc r = (if r < 0 then - \<lfloor>- r\<rfloor> else \<lfloor>r\<rfloor>)"

definition f32_to_int :: "f32 \<Rightarrow> int option" where
  \<comment> \<open>\<open>(int)f\<close>: truncation; undefined when the result is no int\<close>
  "f32_to_int a =
     (if f32_is_nan a \<or> f32_is_inf a then None else c_int (rat_trunc (f32_val a)))"

subsection \<open>Constants of the source\<close>

definition f32_half :: f32 where "f32_half = 0x3F000000"
definition f32_ten :: f32 where "f32_ten = 0x41200000"
definition f32_tenth :: f32 where "f32_tenth = 0x3DCCCCCD"

subsection \<open>Lemmas: representable values and exact results\<close>

definition mag_int :: "int \<Rightarrow> int" where
  \<comment> \<open>the value of a magnitude in units of \<open>2 ^ -149\<close>, the smallest positive float\<close>
  "mag_int b = (let x = b div 2 ^ 23; f = b mod 2 ^ 23
                in if x = 0 then f else (2 ^ 23 + f) * 2 ^ nat (x - 1))"

lemma mag_val_int: "mag_val b = of_int (mag_int b) / 2 ^ 149"
  by (simp add: mag_val_def mag_int_def Let_def)

lemma f32_bits_range: "0 \<le> f32_bits w" "f32_bits w < 2 ^ 31"
  by (simp_all add: f32_bits_def)

lemma f32_make_sel:
  assumes "0 \<le> b" "b < 2 ^ 31"
  shows "f32_bits (f32_make s b) = b" "f32_neg (f32_make s b) = s"
proof -
  have "uint (word_of_int x :: 32 word) = x" if "0 \<le> x" "x < 2 ^ 32" for x
    using that by (simp add: unsigned_of_int take_bit_int_eq_self)
  then have "uint (f32_make s b) = (if s then 2 ^ 31 else 0) + b"
    using assms unfolding f32_make_def by (cases s) (auto simp del: of_int_add)
  then show "f32_bits (f32_make s b) = b" "f32_neg (f32_make s b) = s"
    using assms by (auto simp: f32_bits_def f32_neg_def mod_pos_pos_trivial)
qed

lemma bit_len_le: "0 \<le> n \<Longrightarrow> bit_len n \<le> k \<longleftrightarrow> n < 2 ^ k"
proof (induction n arbitrary: k rule: bit_len.induct)
  case (1 n)
  show ?case
  proof (cases "n = 0")
    case True
    then show ?thesis by (simp add: bit_len.simps)
  next
    case False
    then have n: "0 < n" using 1 by simp
    show ?thesis
    proof (cases k)
      case 0
      then show ?thesis using n by (simp add: bit_len.simps[of n])
    next
      case (Suc j)
      have "bit_len n \<le> k \<longleftrightarrow> bit_len (n div 2) \<le> j"
        using n Suc by (simp add: bit_len.simps[of n])
      also have "\<dots> \<longleftrightarrow> n div 2 < 2 ^ j" using 1 n by simp
      also have "\<dots> \<longleftrightarrow> n < 2 ^ k" using Suc by (simp add: div_less_iff_less_mult mult.commute) linarith
      finally show ?thesis .
    qed
  qed
qed

lemma bit_len_bounds:
  assumes "0 < n"
  shows "n < 2 ^ bit_len n" "2 ^ (bit_len n - 1) \<le> n" "0 < bit_len n"
proof -
  show "n < 2 ^ bit_len n" using bit_len_le[of n "bit_len n"] assms by simp
  show p: "0 < bit_len n" using assms by (simp add: bit_len.simps)
  then have "\<not> bit_len n \<le> bit_len n - 1" by simp
  then show "2 ^ (bit_len n - 1) \<le> n" using bit_len_le[of n "bit_len n - 1"] assms by simp
qed

lemma rne_int [simp]: "rne (of_int n) = n"
  by (simp add: rne_def)

lemma rne_bounds: "of_int (rne x) \<le> x + 1 / 2" "x - 1 / 2 \<le> of_int (rne x)"
proof -
  have f: "of_int \<lfloor>x\<rfloor> \<le> x" "x < of_int \<lfloor>x\<rfloor> + 1" by linarith+
  show "of_int (rne x) \<le> x + 1 / 2" "x - 1 / 2 \<le> of_int (rne x)"
    using f unfolding rne_def Let_def by (auto split: if_splits; linarith)+
qed

lemma rne_mono_int: "of_int n \<le> x \<Longrightarrow> n \<le> rne x" "x \<le> of_int n \<Longrightarrow> rne x \<le> n"
proof -
  show "n \<le> rne x" if "of_int n \<le> x"
  proof -
    have "n \<le> \<lfloor>x\<rfloor>" using that by linarith
    then show ?thesis by (auto simp: rne_def Let_def)
  qed
  show "rne x \<le> n" if "x \<le> of_int n"
  proof (cases "x = of_int n")
    case False
    then have "\<lfloor>x\<rfloor> + 1 \<le> n" using that by linarith
    then show ?thesis by (auto simp: rne_def Let_def)
  qed simp
qed


text \<open>Rounding of \<open>x\<close> units of \<open>2 ^ -149\<close>: the exponent field less one, and the significand.\<close>

definition round_scaled :: "rat \<Rightarrow> nat \<times> int" where
  "round_scaled x = (let q = bit_len \<lfloor>x\<rfloor> - 24 in (q, rne (x / 2 ^ q)))"

lemma round_mag_scaled:
  "round_mag (x / 2 ^ 149) =
    (case round_scaled x of (q, M) \<Rightarrow> min (255 * 2 ^ 23) (int q * 2 ^ 23 + M))"
  by (simp add: round_mag_def round_scaled_def quantum_def Let_def)

lemma mag_int_pieces:
  assumes "0 \<le> M" "M \<le> 2 ^ 24" "q = 0 \<or> 2 ^ 23 \<le> M"
  shows "mag_int (int q * 2 ^ 23 + M) = M * 2 ^ q"
proof -
  consider "M < 2 ^ 23" | "2 ^ 23 \<le> M" "M < 2 ^ 24" | "M = 2 ^ 24" using assms(2) by linarith
  then show ?thesis
  proof cases
    case 1
    then show ?thesis using assms by (simp add: mag_int_def div_pos_pos_trivial mod_pos_pos_trivial)
  next
    case 2
    define f where "f = M - 2 ^ 23"
    have b: "int q * 2 ^ 23 + M = f + (int q + 1) * 2 ^ 23" by (simp add: f_def algebra_simps)
    have f: "0 \<le> f" "f < 2 ^ 23" using 2 by (simp_all add: f_def)
    have d1: "(int q * 2 ^ 23 + M) div 2 ^ 23 = int q + 1"
      unfolding b using f by (subst div_mult_self1) auto
    have d2: "(int q * 2 ^ 23 + M) mod 2 ^ 23 = f"
      unfolding b using f by (subst mod_mult_self1) auto
    show ?thesis unfolding mag_int_def d1 d2 Let_def by (simp add: f_def)
  next
    case 3
    have d: "(int q * 2 ^ 23 + M) div 2 ^ 23 = int q + 2" "(int q * 2 ^ 23 + M) mod 2 ^ 23 = 0"
      unfolding 3 by simp_all
    show ?thesis unfolding mag_int_def d Let_def using 3
      by (simp add: nat_add_distrib)
  qed
qed

lemma round_scaled_range:
  assumes "0 \<le> x" "round_scaled x = (q, M)"
  shows "0 \<le> M" "M \<le> 2 ^ 24" "q = 0 \<or> 2 ^ 23 \<le> M"
proof -
  have q: "q = bit_len \<lfloor>x\<rfloor> - 24" and M: "M = rne (x / 2 ^ q)"
    using assms(2) by (auto simp: round_scaled_def Let_def)
  have n: "0 \<le> \<lfloor>x\<rfloor>" using assms(1) by simp
  show "0 \<le> M" unfolding M using assms(1) by (intro rne_mono_int) auto
  have "bit_len \<lfloor>x\<rfloor> \<le> 24 + q" unfolding q by simp
  then have "\<lfloor>x\<rfloor> < 2 ^ (24 + q)" using bit_len_le[OF n] by blast
  then have "x < of_int (2 ^ 24 * 2 ^ q)" unfolding floor_less_iff power_add .
  then have "x / 2 ^ q \<le> of_int (2 ^ 24)" by (simp add: field_simps)
  then show "M \<le> 2 ^ 24" unfolding M by (rule rne_mono_int)
  show "q = 0 \<or> 2 ^ 23 \<le> M"
  proof (cases "q = 0")
    case False
    then have l: "bit_len \<lfloor>x\<rfloor> - 1 = 23 + q" using q by simp
    have "0 < \<lfloor>x\<rfloor>"
    proof (rule ccontr)
      assume "\<not> 0 < \<lfloor>x\<rfloor>"
      then have "\<lfloor>x\<rfloor> = 0" using n by linarith
      then show False using False unfolding q by (simp add: bit_len.simps)
    qed
    then have "2 ^ 23 * 2 ^ q \<le> \<lfloor>x\<rfloor>"
      using bit_len_bounds(2) l by (metis power_add)
    then have "of_int (2 ^ 23 * 2 ^ q) \<le> x" unfolding le_floor_iff .
    then have "of_int (2 ^ 23) \<le> x / 2 ^ q" by (simp add: field_simps)
    then have "2 ^ 23 \<le> M" unfolding M by (rule rne_mono_int)
    then show ?thesis ..
  qed simp
qed


text \<open>A finite float that is not negative and has the value \<open>N\<close> units.\<close>

definition f32_rep :: "f32 \<Rightarrow> int \<Rightarrow> bool" where
  "f32_rep w N = (\<not> f32_neg w \<and> f32_bits w < 255 * 2 ^ 23 \<and> mag_int (f32_bits w) = N)"

definition fits24 :: "int \<Rightarrow> bool" where
  "fits24 N = (\<exists>k j. N = k * 2 ^ j \<and> 0 \<le> k \<and> k < 2 ^ 24)"

lemma fits24I: "0 \<le> k \<Longrightarrow> k < 2 ^ 24 \<Longrightarrow> fits24 (k * 2 ^ j)"
  by (auto simp: fits24_def)

lemma f32_repD:
  assumes "f32_rep w N"
  shows "f32_val w = of_int N / 2 ^ 149" "\<not> f32_is_nan w" "\<not> f32_is_inf w" "\<not> f32_neg w"
    "0 \<le> N" "fits24 N"
proof -
  show "f32_val w = of_int N / 2 ^ 149" "\<not> f32_is_nan w" "\<not> f32_is_inf w" "\<not> f32_neg w"
    using assms by (auto simp: f32_rep_def f32_val_def mag_val_int f32_is_nan_def f32_is_inf_def)
  define b where "b = f32_bits w"
  have N: "N = mag_int b" using assms by (simp add: f32_rep_def b_def)
  have m: "0 \<le> b mod 2 ^ 23" "b mod 2 ^ 23 < 2 ^ 23" by simp_all
  show "0 \<le> N" unfolding N mag_int_def using m by (auto simp: Let_def)
  show "fits24 N"
  proof (cases "b div 2 ^ 23 = 0")
    case True
    then have "N = b mod 2 ^ 23 * 2 ^ 0" by (simp add: N mag_int_def)
    then show ?thesis using m fits24I[of "b mod 2 ^ 23" 0] by simp
  next
    case False
    then have "N = (2 ^ 23 + b mod 2 ^ 23) * 2 ^ nat (b div 2 ^ 23 - 1)"
      by (simp add: N mag_int_def)
    then show ?thesis using m fits24I[of "2 ^ 23 + b mod 2 ^ 23"] by simp
  qed
qed

lemma f32_rep_zero: "f32_rep (f32_make False 0) 0" "f32_rep 0 0"
  by (simp_all add: f32_rep_def f32_make_def f32_bits_def f32_neg_def mag_int_def)

lemma scaled_below:
  assumes "0 \<le> x" "round_scaled x = (q, M)" "x \<le> of_int C" "fits24 C"
  shows "M * 2 ^ q \<le> C" "x = of_int C \<Longrightarrow> M * 2 ^ q = C"
proof -
  have q: "q = bit_len \<lfloor>x\<rfloor> - 24" and M: "M = rne (x / 2 ^ q)"
    using assms(2) by (auto simp: round_scaled_def Let_def)
  obtain k j where C: "C = k * 2 ^ j" "0 \<le> k" "k < 2 ^ 24" using assms(4) by (auto simp: fits24_def)
  have n: "0 \<le> \<lfloor>x\<rfloor>" using assms(1) by simp
  have "\<lfloor>x\<rfloor> \<le> C" using assms(3) by linarith
  also have "C < 2 ^ 24 * 2 ^ j" unfolding C(1) using C(3) by simp
  finally have "bit_len \<lfloor>x\<rfloor> \<le> 24 + j" using bit_len_le[OF n] by (simp add: power_add)
  then have qj: "q \<le> j" unfolding q by simp
  have Cq: "C = (k * 2 ^ (j - q)) * 2 ^ q"
    unfolding C(1) mult.assoc power_add[symmetric] using qj by simp
  have "x / 2 ^ q \<le> of_int (k * 2 ^ (j - q))"
    using assms(3) unfolding Cq by (simp add: field_simps)
  then have "M \<le> k * 2 ^ (j - q)" unfolding M by (rule rne_mono_int)
  then show "M * 2 ^ q \<le> C" unfolding Cq by simp
  assume "x = of_int C"
  then have "x / 2 ^ q = of_int (k * 2 ^ (j - q))" unfolding Cq by simp
  then show "M * 2 ^ q = C" unfolding M Cq by (simp only: rne_int)
qed

lemma round_rep:
  assumes "0 \<le> x" "round_scaled x = (q, M)" "M * 2 ^ q < 2 ^ 276"
  shows "f32_rep (f32_round False (x / 2 ^ 149)) (M * 2 ^ q)"
proof -
  note r = round_scaled_range[OF assms(1,2)]
  have "q \<le> 252"
  proof (cases "q = 0")
    case False
    then have "2 ^ 23 * 2 ^ q \<le> M * 2 ^ q" using r(3) by simp
    then have "(2::int) ^ (23 + q) < 2 ^ 276" using assms(3) by (simp only: power_add)
    then have "23 + q < 276" by (subst (asm) power_strict_increasing_iff) auto
    then show ?thesis by simp
  qed simp
  then have lt: "int q * 2 ^ 23 + M < 255 * 2 ^ 23" using r(2) by simp
  have "round_mag (x / 2 ^ 149) = int q * 2 ^ 23 + M"
    unfolding round_mag_scaled assms(2) using lt by simp
  then show ?thesis
    using lt r mag_int_pieces[OF r]
    by (simp add: f32_rep_def f32_round_def f32_make_sel)
qed

lemma round_le:
  assumes "0 \<le> x" "x \<le> of_int C" "fits24 C" "C < 2 ^ 276"
  shows "\<exists>N\<le>C. f32_rep (f32_round False (x / 2 ^ 149)) N"
proof -
  obtain q M where s: "round_scaled x = (q, M)" by fastforce
  from scaled_below(1)[OF assms(1) s assms(2,3)] round_rep[OF assms(1) s] assms(4)
  show ?thesis by force
qed

lemma round_exact:
  assumes "0 \<le> C" "fits24 C" "C < 2 ^ 276"
  shows "f32_rep (f32_round False (of_int C / 2 ^ 149)) C"
proof -
  obtain q M where s: "round_scaled (of_int C) = (q, M)" by fastforce
  from scaled_below(2)[OF _ s _ assms(2)] round_rep[OF _ s] assms
  show ?thesis by simp
qed

lemma f32_add_finite:
  assumes "\<not> f32_is_nan a" "\<not> f32_is_inf a" "\<not> f32_is_nan b" "\<not> f32_is_inf b"
    and "f32_val a + f32_val b = r"
  shows "f32_add a b = (if r = 0 then f32_make (f32_neg a \<and> f32_neg b) 0
    else f32_round (r < 0) \<bar>r\<bar>)"
  using assms by (auto simp: f32_add_def Let_def)

lemma f32_mul_finite:
  assumes "\<not> f32_is_nan a" "\<not> f32_is_inf a" "\<not> f32_is_nan b" "\<not> f32_is_inf b"
    and "f32_val a * f32_val b = r"
  shows "f32_mul a b = f32_round (f32_neg a \<noteq> f32_neg b) \<bar>r\<bar>"
  using assms by (auto simp: f32_mul_def Let_def)

lemma f32_div_finite:
  assumes "\<not> f32_is_nan a" "\<not> f32_is_inf a" "\<not> f32_is_nan b" "\<not> f32_is_inf b"
    and "f32_bits b \<noteq> 0" "f32_val a / f32_val b = r"
  shows "f32_div a b = f32_round (f32_neg a \<noteq> f32_neg b) \<bar>r\<bar>"
  using assms by (auto simp: f32_div_def Let_def)

lemma f32_add_le:
  assumes "\<not> f32_is_nan a" "\<not> f32_is_inf a" "f32_val a = of_int A / 2 ^ 149" "0 \<le> A"
    and "f32_rep b B" "A + B \<le> C" "fits24 C" "C < 2 ^ 276"
  shows "\<exists>N\<le>C. f32_rep (f32_add a b) N"
proof -
  have v: "f32_val a + f32_val b = of_int (A + B) / 2 ^ 149"
    using assms(3) f32_repD(1)[OF assms(5)] by (simp add: add_divide_distrib)
  note add = f32_add_finite[OF assms(1,2) f32_repD(2,3)[OF assms(5)] v]
  have nn: "0 \<le> A + B" using f32_repD(5)[OF assms(5)] assms(4) by simp
  show ?thesis
  proof (cases "A + B = 0")
    case True
    then have "f32_add a b = f32_make False 0"
      using add f32_repD(4)[OF assms(5)] by simp
    then show ?thesis using True assms(6) f32_rep_zero by auto
  next
    case False
    then have "f32_add a b = f32_round False (of_int (A + B) / 2 ^ 149)"
      using add nn by (simp del: of_int_add)
    then show ?thesis using round_le[of "of_int (A + B)" C] nn assms(6-) by (simp del: of_int_add)
  qed
qed

lemma f32_sub_exact:
  assumes "f32_rep a A" "f32_rep b B" "B \<le> A" "fits24 (A - B)" "A - B < 2 ^ 276"
  shows "f32_rep (f32_sub a b) (A - B)"
proof -
  have u: "f32_val (f32_uminus b) = - of_int B / 2 ^ 149" "\<not> f32_is_nan (f32_uminus b)"
    "\<not> f32_is_inf (f32_uminus b)"
    using f32_repD(1,2,3,4)[OF assms(2)] f32_bits_range[of b]
    by (simp_all add: f32_uminus_def f32_val_def f32_make_sel f32_is_nan_def f32_is_inf_def)
  have v: "f32_val a + f32_val (f32_uminus b) = of_int (A - B) / 2 ^ 149"
    using f32_repD(1)[OF assms(1)] u(1) by (simp add: diff_divide_distrib)
  note a = f32_repD(2,3,4)[OF assms(1)]
  show ?thesis
  proof (cases "A - B = 0")
    case True
    then show ?thesis using a u v f32_rep_zero by (simp add: f32_sub_def f32_add_def Let_def)
  next
    case False
    then have "f32_sub a b = f32_round False (of_int (A - B) / 2 ^ 149)"
      using f32_add_finite[OF a(1,2) u(2,3) v] assms(3) by (simp add: f32_sub_def del: of_int_diff)
    then show ?thesis using round_exact[of "A - B"] assms by simp
  qed
qed


lemma fits24_mult: "fits24 N \<Longrightarrow> fits24 (N * 2 ^ i)"
  unfolding fits24_def by (metis mult.assoc power_add)

lemma fits24_mod:
  assumes "fits24 N" shows "fits24 (N mod 2 ^ n)"
proof -
  obtain k j where N: "N = k * 2 ^ j" "0 \<le> k" "k < 2 ^ 24" using assms by (auto simp: fits24_def)
  show ?thesis
  proof (cases "n \<le> j")
    case True
    then have "N mod 2 ^ n = 0" by (simp add: N(1) mod_eq_0_iff_dvd le_imp_power_dvd)
    then show ?thesis using fits24I[of 0 0] by simp
  next
    case False
    then have "N mod 2 ^ n = (k mod 2 ^ (n - j)) * 2 ^ j"
      using mult_mod_left[of k "2 ^ (n - j)" "2 ^ j"]
      by (simp add: N(1) power_add[symmetric])
    moreover have "k mod 2 ^ (n - j) < 2 ^ 24" using N(2,3) by (meson zmod_le_nonneg_dividend order.strict_trans1)
    ultimately show ?thesis using fits24I by simp
  qed
qed

lemma fits24_div:
  assumes "fits24 N" shows "fits24 (N div 2 ^ n)"
proof -
  obtain k j where N: "N = k * 2 ^ j" "0 \<le> k" "k < 2 ^ 24" using assms by (auto simp: fits24_def)
  show ?thesis
  proof (cases "n \<le> j")
    case True
    then have "N = (k * 2 ^ (j - n)) * 2 ^ n"
      unfolding N(1) mult.assoc power_add[symmetric] by simp
    then show ?thesis using N(2,3) fits24I by (metis nonzero_mult_div_cancel_right power_eq_0_iff zero_neq_numeral)
  next
    case False
    then have "N div 2 ^ n = k div 2 ^ (n - j)"
      using div_mult_mult2[of "2 ^ j" k "2 ^ (n - j)"] by (simp add: N(1) power_add[symmetric])
    moreover have "k div 2 ^ (n - j) \<le> k div 1" using N(2) by (intro zdiv_mono2) auto
    ultimately show ?thesis using fits24I[of "k div 2 ^ (n - j)" 0] N
      by (simp add: pos_imp_zdiv_nonneg_iff)
  qed
qed

lemma f32_ten_rep: "f32_rep f32_ten (10 * 2 ^ 149)"
  by (simp add: f32_rep_def f32_ten_def f32_neg_def f32_bits_def mag_int_def)

lemma f32_half_rep: "f32_rep f32_half (2 ^ 148)"
  by (simp add: f32_rep_def f32_half_def f32_neg_def f32_bits_def mag_int_def)

lemma f32_div_ten:
  assumes "f32_rep a A" "A < 2 ^ 276"
  shows "\<exists>N\<le>A. f32_rep (f32_div a f32_ten) N"
proof -
  have b: "f32_bits f32_ten \<noteq> 0" "f32_val f32_ten = 10"
    using f32_repD(1)[OF f32_ten_rep] by (simp_all add: f32_ten_def f32_bits_def)
  have "f32_val a / f32_val f32_ten = (of_int A / 10) / 2 ^ 149" and A: "0 \<le> A"
    using f32_repD(1,5)[OF assms(1)] b(2) by simp_all
  note f32_div_finite[OF f32_repD(2,3)[OF assms(1)] f32_repD(2,3)[OF f32_ten_rep] b(1) this(1)]
  moreover have "\<bar>(of_int A / 10) / 2 ^ 149\<bar> = (of_int A / 10 :: rat) / 2 ^ 149" using A by simp
  ultimately have "f32_div a f32_ten = f32_round False ((of_int A / 10) / 2 ^ 149)"
    using f32_repD(4)[OF assms(1)] f32_repD(4)[OF f32_ten_rep] by simp
  then show ?thesis
    using round_le[of "of_int A / 10" A] f32_repD(5,6)[OF assms(1)] assms by simp
qed

lemma fits24_below_one:
  assumes "fits24 N" "N < 2 ^ 149"
  shows "N \<le> 2 ^ 149 - 2 ^ 125"
proof -
  obtain k j where N: "N = k * 2 ^ j" "0 \<le> k" "k < 2 ^ 24" using assms by (auto simp: fits24_def)
  show ?thesis
  proof (cases "125 \<le> j")
    case True
    then have e: "N = (k * 2 ^ (j - 125)) * 2 ^ 125"
      unfolding N(1) mult.assoc power_add[symmetric] by simp
    then have "k * 2 ^ (j - 125) < 2 ^ 24" using assms(2) by simp
    then show ?thesis unfolding e by simp
  next
    case False
    then have "(2::int) ^ j \<le> 2 ^ 124" by (intro power_increasing) auto
    then have "N \<le> k * 2 ^ 124" unfolding N(1) using N(2) by (rule mult_left_mono)
    also have "\<dots> \<le> (2 ^ 24 - 1) * 2 ^ 124" using N(3) by simp
    finally show ?thesis by simp
  qed
qed

lemma f32_mul_ten:
  assumes "f32_rep a A" "A < 2 ^ 149"
  shows "\<exists>N<10 * 2 ^ 149. f32_rep (f32_mul a f32_ten) N"
proof -
  have A: "0 \<le> A" "A \<le> 2 ^ 149 - 2 ^ 125"
    using f32_repD(5,6)[OF assms(1)] fits24_below_one assms(2) by auto
  have "f32_val a * f32_val f32_ten = of_int (10 * A) / 2 ^ 149"
    using f32_repD(1)[OF assms(1)] f32_repD(1)[OF f32_ten_rep] by simp
  note f32_mul_finite[OF f32_repD(2,3)[OF assms(1)] f32_repD(2,3)[OF f32_ten_rep] this]
  moreover have "\<bar>of_int (10 * A) / 2 ^ 149\<bar> = (of_int (10 * A) :: rat) / 2 ^ 149" using A by simp
  ultimately have m: "f32_mul a f32_ten = f32_round False (of_int (10 * A) / 2 ^ 149)"
    using f32_repD(4)[OF assms(1)] f32_repD(4)[OF f32_ten_rep] by simp
  obtain q M where s: "round_scaled (of_int (10 * A)) = (q, M)" by fastforce
  have q: "q = bit_len (10 * A) - 24" and M: "M = rne (of_int (10 * A) / 2 ^ q)"
    using s by (auto simp: round_scaled_def Let_def simp del: of_int_mult)
  have nn: "0 \<le> (of_int (10 * A) :: rat)" using A by simp
  note r = round_scaled_range[OF nn s]
  have "10 * A < 2 ^ 153" using A by simp
  then have "bit_len (10 * A) \<le> 153" using bit_len_le[of "10 * A" 153] A by simp
  then have "q \<le> 129" unfolding q by simp
  have "M * 2 ^ q < 10 * 2 ^ 149"
  proof (cases "q = 129")
    case True
    have "of_int (10 * A) / 2 ^ q \<le> (of_int (10 * 2 ^ 149 - 10 * 2 ^ 125) :: rat) / 2 ^ q"
      using A by (intro divide_right_mono) (simp_all only: of_int_le_iff, auto)
    also have "\<dots> = 10 * 2 ^ 20 - 10 / 16" unfolding True by simp
    finally have "of_int M \<le> (10 * 2 ^ 20 - 10 / 16 + 1 / 2 :: rat)"
      using rne_bounds(1)[of "of_int (10 * A) / 2 ^ q"] unfolding M by linarith
    then have "(of_int M :: rat) < of_int (10 * 2 ^ 20)" by simp
    then have "M < 10 * 2 ^ 20" by (simp only: of_int_less_iff)
    then show ?thesis unfolding True by simp
  next
    case False
    then have "q \<le> 128" using \<open>q \<le> 129\<close> by simp
    then have "M * 2 ^ q \<le> 2 ^ 24 * 2 ^ 128" using r by (intro mult_mono power_increasing) auto
    then show ?thesis by simp
  qed
  moreover from this have "M * 2 ^ q < 2 ^ 276" by (rule less_trans) simp
  ultimately show ?thesis unfolding m using round_rep[OF nn s] by blast
qed

text \<open>Truncation to an int and the exact remainder.\<close>

lemma f32_of_int_rep:
  assumes "0 \<le> w" "w < 2 ^ 31" "fits24 w"
  shows "f32_rep (f32_of_int w) (w * 2 ^ 149)"
proof (cases "w = 0")
  case False
  have lt: "w * 2 ^ 149 < 2 ^ 276" using assms(2) by simp
  have "(of_int \<bar>w\<bar> :: rat) = of_int (w * 2 ^ 149) / 2 ^ 149" using assms(1) by simp
  then have "f32_of_int w = f32_round False (of_int (w * 2 ^ 149) / 2 ^ 149)"
    unfolding f32_of_int_def using False assms(1) by simp
  then show ?thesis
    using round_exact[OF _ fits24_mult[OF assms(3)] lt] assms(1) by simp
qed (simp add: f32_of_int_def f32_rep_zero)

lemma f32_whole_part:
  assumes "f32_rep a A" "A < 2 ^ 31 * 2 ^ 149"
  shows "f32_to_int a = Some (A div 2 ^ 149)" "0 \<le> A div 2 ^ 149" "A div 2 ^ 149 < 2 ^ 31"
    "f32_rep (f32_sub a (f32_of_int (A div 2 ^ 149))) (A mod 2 ^ 149)"
proof -
  let ?w = "A div 2 ^ 149"
  note a = f32_repD[OF assms(1)]
  show w: "0 \<le> ?w" "?w < 2 ^ 31"
    using a(5) assms(2) by (simp_all add: div_less_iff_less_mult pos_imp_zdiv_nonneg_iff)
  have "rat_trunc (of_int A / of_int (2 ^ 149)) = ?w"
    unfolding rat_trunc_def floor_divide_of_int_eq using a(5) by simp
  then have "rat_trunc (f32_val a) = ?w" unfolding a(1) by simp
  then show "f32_to_int a = Some ?w"
    using a(2,3) w by (simp add: f32_to_int_def c_int_def INT_MIN_def INT_MAX_def)
  have e: "A - ?w * 2 ^ 149 = A mod 2 ^ 149" by (simp add: minus_div_mult_eq_mod)
  have "A mod 2 ^ 149 < 2 ^ 149" by simp
  then have lt: "A mod 2 ^ 149 < 2 ^ 276" by (rule less_trans) simp
  have le: "?w * 2 ^ 149 \<le> A" using e by (metis diff_ge_0_iff_ge pos_mod_sign zero_less_numeral zero_less_power)
  from f32_sub_exact[OF assms(1) f32_of_int_rep[OF w fits24_div[OF a(6)]] le]
  show "f32_rep (f32_sub a (f32_of_int ?w)) (A mod 2 ^ 149)"
    unfolding e using fits24_mod[OF a(6)] lt by blast
qed

end
