(* ===== verification/Siot_String.thy ===== *)
theory Siot_String
  imports C_Strings Float32
begin

text \<open>
  lib/siot-string.c: conversions between numbers and text, on caller supplied buffers whose
  size the functions are not told. A write outside the buffer is \<open>None\<close>.
\<close>

subsection \<open>reverse\<close>

function reverse_loop :: "bytes \<Rightarrow> nat \<Rightarrow> nat \<Rightarrow> bytes option" where
  "reverse_loop str start en =
     (if start < en then do {
        temp \<leftarrow> rd str start;
        e \<leftarrow> rd str en;
        str1 \<leftarrow> wr str start e;
        str2 \<leftarrow> wr str1 en temp;
        reverse_loop str2 (Suc start) (en - 1)
      } else Some str)"
  by pat_completeness auto
termination
  by (relation "measure (\<lambda>(str, start, en). en - start)") auto

declare reverse_loop.simps [simp del]

definition reverse :: "bytes \<Rightarrow> nat \<Rightarrow> bytes option" where
  \<comment> \<open>for length 0 the source's \<open>end\<close> is -1 and its loop does not run, as here\<close>
  "reverse str len = reverse_loop str 0 (len - 1)"

subsection \<open>itoa, utoa64\<close>

definition radix_char :: "int \<Rightarrow> char" where
  "radix_char rem = char_of (if 9 < rem then (rem - 10) + 97 else rem + 48)"

function itoa_loop :: "int \<Rightarrow> bytes \<Rightarrow> int \<Rightarrow> nat \<Rightarrow> (bytes \<times> nat) option" where
  "itoa_loop num str base i =
     (if num = 0 then Some (str, i)
      else if base = 0 then None
      else do {
        let rem = num smod base;
        str' \<leftarrow> wr str i (radix_char rem);
        num' \<leftarrow> c_int (num sdiv base);
        itoa_loop num' str' base (Suc i)
      })"
  by pat_completeness auto
termination
  by (relation "measure (\<lambda>(num, str, base, i). length str - i)") (auto simp: wr_eq_Some)

declare itoa_loop.simps [simp del]

definition itoa :: "int \<Rightarrow> bytes \<Rightarrow> int \<Rightarrow> bytes option" where
  "itoa num str base =
     (if num = 0 then do {
        str \<leftarrow> wr str 0 (CHR ''0'');
        wr str 1 NUL
      } else do {
        (isNegative, num) \<leftarrow>
          (if num < 0 \<and> base = 10 then do { m \<leftarrow> c_int (- num); Some (True, m) }
           else Some (False, num));
        (str, i) \<leftarrow> itoa_loop num str base 0;
        (str, i) \<leftarrow>
          (if isNegative then do { str \<leftarrow> wr str i (CHR ''-''); Some (str, Suc i) }
           else Some (str, i));
        str \<leftarrow> wr str i NUL;
        reverse str i
      })"

function utoa64_loop :: "64 word \<Rightarrow> bytes \<Rightarrow> int \<Rightarrow> nat \<Rightarrow> (bytes \<times> nat) option" where
  \<comment> \<open>\<open>base\<close> is converted to uint64_t by the usual arithmetic conversions\<close>
  "utoa64_loop num str base i =
     (if num = 0 then Some (str, i)
      else if (word_of_int base :: 64 word) = 0 then None
      else do {
        let rem = sint (ucast (num mod word_of_int base) :: 32 word);
        str' \<leftarrow> wr str i (radix_char rem);
        utoa64_loop (num div word_of_int base) str' base (Suc i)
      })"
  by pat_completeness auto
termination
  by (relation "measure (\<lambda>(num, str, base, i). length str - i)") (auto simp: wr_eq_Some)

declare utoa64_loop.simps [simp del]

definition utoa64 :: "64 word \<Rightarrow> bytes \<Rightarrow> int \<Rightarrow> bytes option" where
  "utoa64 num str base =
     (if num = 0 then do {
        str \<leftarrow> wr str 0 (CHR ''0'');
        wr str 1 NUL
      } else do {
        (str, i) \<leftarrow> utoa64_loop num str base 0;
        str \<leftarrow> wr str i NUL;
        reverse str i
      })"

subsection \<open>atoi, atou64\<close>

function atoi_loop :: "bytes \<Rightarrow> nat \<Rightarrow> int \<Rightarrow> int option" where
  "atoi_loop str i result =
     (if i < length str then
        (let c = str ! i
         in if c = NUL then Some result
            else if is_digit c then do {
              r10 \<leftarrow> c_int (result * 10);
              r \<leftarrow> c_int (r10 + int (digit_val c));
              atoi_loop str (Suc i) r
            } else Some result)
      else None)"
  by pat_completeness auto
termination
  by (relation "measure (\<lambda>(str, i, result). length str - i)") auto

declare atoi_loop.simps [simp del]

definition atoi :: "bytes \<Rightarrow> int option" where
  "atoi str = do {
     c0 \<leftarrow> rd str 0;
     let neg = (c0 = CHR ''-'');
     result \<leftarrow> atoi_loop str (if neg then 1 else 0) 0;
     c_int ((if neg then -1 else 1) * result)
   }"

function atou64_loop :: "bytes \<Rightarrow> nat \<Rightarrow> 64 word \<Rightarrow> 64 word option" where
  "atou64_loop str i result =
     (if i < length str then
        (let c = str ! i
         in if c = NUL then Some result
            else if is_digit c then atou64_loop str (Suc i) (result * 10 + of_nat (digit_val c))
            else Some result)
      else None)"
  by pat_completeness auto
termination
  by (relation "measure (\<lambda>(str, i, result). length str - i)") auto

declare atou64_loop.simps [simp del]

definition atou64 :: "bytes \<Rightarrow> 64 word option" where
  "atou64 str = do {
     c0 \<leftarrow> rd str 0;
     if c0 = CHR ''-'' then Some 0 else atou64_loop str 0 0
   }"

subsection \<open>ftoa\<close>

fun ftoa_rounding :: "nat \<Rightarrow> f32 \<Rightarrow> f32" where
  \<comment> \<open>\<open>for (j = 0; j < precision; j++) rounding_factor /= 10.0f\<close>\<close>
  "ftoa_rounding 0 f = f"
| "ftoa_rounding (Suc p) f = ftoa_rounding p (f32_div f f32_ten)"

function count_digits :: "int \<Rightarrow> nat \<Rightarrow> nat" where
  \<comment> \<open>\<open>while (temp > 0) { temp /= 10; i++; }\<close>\<close>
  "count_digits temp i = (if 0 < temp then count_digits (temp div 10) (Suc i) else i)"
  by pat_completeness auto
termination
  by (relation "measure (\<lambda>(temp, i). nat temp)") auto

declare count_digits.simps [simp del]

function put_digits :: "int \<Rightarrow> bytes \<Rightarrow> int \<Rightarrow> bytes option" where
  \<comment> \<open>\<open>while (temp > 0) { str[j--] = (temp % 10) + '0'; temp /= 10; }\<close>\<close>
  "put_digits temp str j =
     (if 0 < temp then
        (if j < 0 then None
         else do {
           str \<leftarrow> wr str (nat j) (char_of (temp mod 10 + 48));
           put_digits (temp div 10) str (j - 1)
         })
      else Some str)"
  by pat_completeness auto
termination
  by (relation "measure (\<lambda>(temp, str, j). nat temp)") auto

declare put_digits.simps [simp del]

fun ftoa_frac :: "nat \<Rightarrow> f32 \<Rightarrow> bytes \<Rightarrow> nat \<Rightarrow> nat \<Rightarrow> (bytes \<times> nat) option" where
  \<comment> \<open>the loop over the fractional digits; returns the buffer and \<open>last_non_zero\<close>\<close>
  "ftoa_frac 0 fraction str i last_non_zero = Some (str, last_non_zero)"
| "ftoa_frac (Suc p) fraction str i last_non_zero = do {
     let fraction = f32_mul fraction f32_ten;
     digit \<leftarrow> f32_to_int fraction;
     str \<leftarrow> wr str i (char_of (digit + 48));
     let last_non_zero = (if digit \<noteq> 0 then Suc i else last_non_zero);
     ftoa_frac p (f32_sub fraction (f32_of_int digit)) str (Suc i) last_non_zero
   }"

definition ftoa :: "f32 \<Rightarrow> bytes \<Rightarrow> int \<Rightarrow> bytes option" where
  "ftoa num str precision = do {
     (num, str, i) \<leftarrow>
       (if f32_lt num f32_zero
        then do { str \<leftarrow> wr str 0 (CHR ''-''); Some (f32_uminus num, str, 1) }
        else Some (num, str, 0));
     let rounding_factor = ftoa_rounding (nat precision) f32_half;
     let num = f32_add num rounding_factor;
     whole \<leftarrow> f32_to_int num;
     let fraction = f32_sub num (f32_of_int whole);
     (str, i) \<leftarrow>
       (if whole = 0 then do { str \<leftarrow> wr str i (CHR ''0''); Some (str, Suc i) }
        else do {
          let i = count_digits whole i;
          str \<leftarrow> put_digits whole str (int i - 1);
          Some (str, i)
        });
     (str, i) \<leftarrow>
       (if 0 < precision then do {
          str \<leftarrow> wr str i (CHR ''.'');
          ftoa_frac (nat precision) fraction str (Suc i) (Suc i)
        } else Some (str, i));
     c \<leftarrow> (if i = 0 then None else rd str (i - 1));
     let i = (if c = CHR ''.'' then i - 1 else i);
     wr str i NUL
   }"

subsection \<open>atof\<close>

function atof_loop :: "bytes \<Rightarrow> nat \<Rightarrow> f32 \<Rightarrow> f32 \<Rightarrow> bool \<Rightarrow> f32 option" where
  "atof_loop str i result fraction in_fraction =
     (if i < length str then
        (let c = str ! i
         in if c = NUL then Some result
            else if is_digit c then
              (if \<not> in_fraction then
                 atof_loop str (Suc i)
                   (f32_add (f32_mul result f32_ten) (f32_of_int (int (digit_val c))))
                   fraction in_fraction
               else
                 atof_loop str (Suc i)
                   (f32_add result (f32_mul (f32_of_int (int (digit_val c))) fraction))
                   (f32_mul fraction f32_tenth) in_fraction)
            else if c = CHR ''.'' then
              (if in_fraction then Some result
               else atof_loop str (Suc i) result fraction True)
            else Some result)
      else None)"
  by pat_completeness auto
termination
  by (relation "measure (\<lambda>(str, i, result, fraction, in_fraction). length str - i)") auto

declare atof_loop.simps [simp del]

definition atof :: "bytes \<Rightarrow> f32 option" where
  "atof str = do {
     c0 \<leftarrow> rd str 0;
     let neg = (c0 = CHR ''-'');
     result \<leftarrow> atof_loop str (if neg then 1 else 0) f32_zero f32_tenth False;
     Some (f32_mul (f32_of_int (if neg then -1 else 1)) result)
   }"

subsection \<open>Lemmas: reverse and the digit loops\<close>


lemma reverse_loop_spec:
  "length pre = start \<Longrightarrow> en + 1 = start + length mid \<Longrightarrow>
   reverse_loop (pre @ mid @ post) start en = Some (pre @ rev mid @ post)"
proof (induction "length mid" arbitrary: pre mid post start en rule: less_induct)
  case less
  show ?case
  proof (cases mid rule: rev_cases)
    case Nil
    then show ?thesis using less.prems by (subst reverse_loop.simps) simp
  next
    case (snoc m y)
    show ?thesis
    proof (cases m)
      case Nil
      then show ?thesis using less.prems snoc by (subst reverse_loop.simps) simp
    next
      case (Cons x m')
      have mid: "mid = x # m' @ [y]" using snoc Cons by simp
      have IH: "reverse_loop ((pre @ [y]) @ m' @ (x # post)) (Suc start) (en - 1) =
          Some ((pre @ [y]) @ rev m' @ (x # post))"
        by (rule less.hyps) (use less.prems mid in auto)
      have en: "en = length (pre @ x # m')" using less.prems mid by simp
      have r1: "rd (pre @ mid @ post) start = Some x"
        using rd_append[of pre x "m' @ y # post"] less.prems mid by simp
      have r2: "rd (pre @ mid @ post) en = Some y"
        using rd_append[of "pre @ x # m'" y post] en mid by simp
      have w1: "wr (pre @ mid @ post) start y = Some (pre @ y # m' @ y # post)"
        using wr_append[of pre x "m' @ y # post" y] less.prems mid by simp
      have w2: "wr (pre @ y # m' @ y # post) en x = Some (pre @ y # m' @ x # post)"
        using wr_append[of "pre @ y # m'" y post x] en by simp
      have lt: "start < en" using less.prems mid by simp
      show ?thesis
        using lt r1 r2 w1 w2 IH mid by (subst reverse_loop.simps) simp
    qed
  qed
qed

lemma reverse_spec:
  assumes "i = length s" "s \<noteq> []"
  shows "reverse (s @ r) i = Some (rev s @ r)"
  using reverse_loop_spec[of "[]" 0 "i - 1" s r] assms by (simp add: reverse_def Suc_le_eq)

lemma radix_char_digit: "0 \<le> d \<Longrightarrow> d < 10 \<Longrightarrow> radix_char d = digit_char (nat d)"
proof -
  assume d: "0 \<le> d" "d < 10"
  then obtain n where n: "d = int n" "n < 10" by (intro that[of "nat d"]) auto
  have "char_of (int n + 48) = char_of (int (48 + n))" by (simp add: add.commute)
  also have "\<dots> = (char_of (48 + n) :: char)" by (rule char_of_nat)
  finally show ?thesis using n by (simp add: radix_char_def digit_char_def)
qed

lemma sdiv_10 [simp]: "0 \<le> (n::int) \<Longrightarrow> n sdiv 10 = n div 10"
  by (cases "n = 0") (simp_all add: signed_divide_int_def)

lemma smod_10 [simp]: "0 \<le> (n::int) \<Longrightarrow> n smod 10 = n mod 10"
  by (cases "n = 0") (simp_all add: signed_modulo_int_def minus_div_mult_eq_mod)

lemma itoa_loop_spec:
  assumes "0 < n" "int n \<le> INT_MAX" "length (dec_nat n) \<le> length rest"
  shows "itoa_loop (int n) (pre @ rest) 10 (length pre) =
    Some (pre @ rev (dec_nat n) @ drop (length (dec_nat n)) rest, length pre + length (dec_nat n))"
  using assms
proof (induction n arbitrary: pre rest rule: dec_nat.induct)
  case (1 n)
  then obtain x r where rest: "rest = x # r" by (cases rest) auto
  have m: "int n smod 10 = int (n mod 10)" "int n sdiv 10 = int (n div 10)" by (simp_all add: zmod_int zdiv_int)
  have c: "radix_char (int (n mod 10)) = digit_char (n mod 10)" by (simp add: radix_char_digit)
  have ov: "c_int (int (n div 10)) = Some (int (n div 10))"
    using "1.prems" by (simp add: INT_MIN_def INT_MAX_def)
  have step: "itoa_loop (int n) (pre @ rest) 10 (length pre) =
     itoa_loop (int (n div 10)) ((pre @ [digit_char (n mod 10)]) @ r) 10
        (length (pre @ [digit_char (n mod 10)]))"
    using "1.prems"(1) by (subst itoa_loop.simps) (simp add: m c ov rest buf_simps del: of_nat_div)
  show ?case
  proof (cases "n < 10")
    case True
    then show ?thesis
      using "1.prems" step by (simp add: itoa_loop.simps[of 0] dec_nat.simps[of n] rest)
  next
    case False
    have l: "length (dec_nat (n div 10)) \<le> length r"
      using False "1.prems"(3) by (subst (asm) dec_nat.simps) (simp add: rest)
    have "itoa_loop (int (n div 10)) ((pre @ [digit_char (n mod 10)]) @ r) 10
        (length (pre @ [digit_char (n mod 10)])) =
      Some ((pre @ [digit_char (n mod 10)]) @ rev (dec_nat (n div 10)) @
         drop (length (dec_nat (n div 10))) r,
         length (pre @ [digit_char (n mod 10)]) + length (dec_nat (n div 10)))"
      by (rule "1.IH"[OF False]) (use False "1.prems" l in \<open>auto simp: INT_MAX_def\<close>)
    then show ?thesis
      using False unfolding step by (simp add: dec_nat.simps[of n] rest)
  qed
qed

lemma length_dec_pos:
  assumes "INT_MIN \<le> n" "n \<le> INT_MAX"
  shows "length (dec_nat (nat \<bar>n\<bar>)) \<le> 10"
  using assms by (intro order.trans[OF length_dec_nat[of _ 9]])
    (simp_all add: INT_MIN_def INT_MAX_def)

lemma rev_dec_nat_tail: "length (dec_nat n) < length b \<Longrightarrow>
  b = take (length (dec_nat n)) b @ b ! length (dec_nat n) # drop (Suc (length (dec_nat n))) b"
  by (simp add: id_take_nth_drop)

lemma itoa_spec:
  assumes "INT_MIN < n" "n \<le> INT_MAX" "12 \<le> length buf"
  shows "itoa n buf 10 = Some (dec_int n @ NUL # drop (Suc (length (dec_int n))) buf)"
proof -
  define m where "m = nat \<bar>n\<bar>"
  have m: "\<bar>n\<bar> = int m" "length (dec_nat m) \<le> 10" "int m \<le> INT_MAX"
    using assms length_dec_pos[of n] by (simp_all add: m_def INT_MIN_def INT_MAX_def)
  consider "n = 0" | "0 < n" | "n < 0" by linarith
  then show ?thesis
  proof cases
    case 1
    obtain a buf' where a: "buf = a # buf'" using assms(3) by (cases buf) auto
    obtain b r where "buf' = b # r" using assms(3) a by (cases buf') auto
    with 1 a show ?thesis by (simp add: itoa_def dec_int_def dec_nat.simps wr_def digit_char_0)
  next
    case 2
    let ?l = "length (dec_nat m)"
    have loop: "itoa_loop n buf 10 0 = Some (rev (dec_nat m) @ drop ?l buf, ?l)"
      using itoa_loop_spec[of m buf "[]"] 2 m assms by simp
    obtain y t where yt: "drop ?l buf = y # t" "t = drop (Suc ?l) buf"
      using m assms(3) by (intro that[OF Cons_nth_drop_Suc[symmetric] refl]) linarith
    have "reverse (rev (dec_nat m) @ NUL # t) ?l = Some (dec_nat m @ NUL # t)"
      using reverse_spec[of ?l "rev (dec_nat m)"] by simp
    then show ?thesis
      using 2 m loop yt by (simp add: itoa_def list_update_append dec_int_def)
  next
    case 3
    let ?l = "length (dec_nat m)"
    have neg: "c_int (- n) = Some (int m)"
      using 3 m by (simp add: INT_MIN_def)
    have loop: "itoa_loop (int m) buf 10 0 = Some (rev (dec_nat m) @ drop ?l buf, ?l)"
      using itoa_loop_spec[of m buf "[]"] 3 m assms by simp
    have "Suc ?l < length buf" using m assms(3) by linarith
    then obtain y z t where yt: "drop ?l buf = y # z # t" "t = drop (Suc (Suc ?l)) buf"
      by (metis Cons_nth_drop_Suc Suc_lessD)
    have "reverse ((rev (dec_nat m) @ [CHR ''-'']) @ NUL # t) (Suc ?l) = Some (dec_int n @ NUL # t)"
      using reverse_spec[of "Suc ?l" "rev (dec_nat m) @ [CHR ''-'']"] 3 by (simp add: dec_int_def m_def)
    moreover have "wr (rev (dec_nat m) @ CHR ''-'' # z # t) (Suc ?l) NUL =
       Some (rev (dec_nat m) @ CHR ''-'' # NUL # t)"
      using wr_append[of "rev (dec_nat m) @ [CHR ''-'']" z t NUL] by simp
    ultimately show ?thesis
      using 3 m neg loop yt by (simp add: itoa_def list_update_append dec_int_def)
  qed
qed

lemma itoa_INT_MIN: "itoa INT_MIN buf 10 = None"
  by (simp add: itoa_def c_int_def INT_MIN_def INT_MAX_def)

lemma atoi_loop_digits:
  assumes "\<forall>c \<in> set s. is_digit c" "\<not> is_digit t" "int (dec_value acc s) \<le> INT_MAX"
  shows "atoi_loop (pre @ s @ t # post) (length pre) (int acc) = Some (int (dec_value acc s))"
  using assms
proof (induction s arbitrary: pre acc)
  case Nil
  then show ?case by (subst atoi_loop.simps) simp
next
  case (Cons c s)
  let ?a = "acc * 10 + digit_val c"
  have le: "int ?a \<le> INT_MAX"
    using Cons.prems(3) dec_value_mono[of ?a s] by simp
  then have "c_int (int acc * 10) = Some (int acc * 10)"
    "c_int (int acc * 10 + int (digit_val c)) = Some (int ?a)"
    by (simp_all add: INT_MIN_def)
  moreover have "atoi_loop ((pre @ [c]) @ s @ t # post) (length (pre @ [c])) (int ?a) =
      Some (int (dec_value ?a s))"
    using Cons.prems by (intro Cons.IH) auto
  ultimately show ?case
    using Cons.prems(1) is_digit_neq(1) by (subst atoi_loop.simps) (auto simp: Let_def)
qed

lemma atoi_loop_overflow:
  assumes "\<forall>c \<in> set s. is_digit c" "INT_MAX < int (dec_value acc s)" "int acc \<le> INT_MAX"
  shows "atoi_loop (pre @ s @ post) (length pre) (int acc) = None"
  using assms
proof (induction s arbitrary: pre acc)
  case Nil
  then show ?case by simp
next
  case (Cons c s)
  let ?a = "acc * 10 + digit_val c"
  show ?case
  proof (cases "int ?a \<le> INT_MAX")
    case True
    then have "c_int (int acc * 10) = Some (int acc * 10)"
      "c_int (int acc * 10 + int (digit_val c)) = Some (int ?a)"
      by (simp_all add: INT_MIN_def)
    moreover have "atoi_loop ((pre @ [c]) @ s @ post) (length (pre @ [c])) (int ?a) = None"
      using Cons.prems True by (intro Cons.IH) auto
    ultimately show ?thesis
      using Cons.prems(1) is_digit_neq(1) by (subst atoi_loop.simps) (auto simp: Let_def)
  next
    case False
    then have "c_int (int acc * 10) = None \<or>
        c_int (int acc * 10 + int (digit_val c)) = None"
      by (auto simp: c_int_def)
    then show ?thesis
      using Cons.prems(1) is_digit_neq(1)
      by (subst atoi_loop.simps) (auto simp: Let_def c_int_def split: if_splits)
  qed
qed


text \<open>Every text of an optional minus sign and digits, followed by anything else.\<close>

lemma atoi_digits:
  assumes "\<forall>c \<in> set s. is_digit c" "\<not> is_digit t" "s = [] \<Longrightarrow> t \<noteq> CHR ''-''"
    and "int (dec_value 0 s) \<le> INT_MAX"
  shows "atoi (s @ t # post) = Some (int (dec_value 0 s))"
    and "atoi (CHR ''-'' # s @ t # post) = Some (- int (dec_value 0 s))"
proof -
  have "rd (s @ t # post) 0 = Some ((s @ t # post) ! 0)" "(s @ t # post) ! 0 \<noteq> CHR ''-''"
    using assms(1,3) is_digit_neq(2) by (cases s; auto)+
  then show "atoi (s @ t # post) = Some (int (dec_value 0 s))"
    using atoi_loop_digits[of s t 0 "[]"] assms by (simp add: atoi_def INT_MIN_def)
  show "atoi (CHR ''-'' # s @ t # post) = Some (- int (dec_value 0 s))"
    using atoi_loop_digits[of s t 0 "[CHR ''-'']"] assms
    by (simp add: atoi_def INT_MIN_def INT_MAX_def)
qed

lemma atoi_overflow:
  assumes "\<forall>c \<in> set s. is_digit c" "INT_MAX < int (dec_value 0 s)"
  shows "atoi (s @ post) = None" "atoi (CHR ''-'' # s @ post) = None"
proof -
  have z: "(0::int) \<le> INT_MAX" by (simp add: INT_MAX_def)
  have "s \<noteq> []" using assms(2) z by auto
  then have "rd (s @ post) 0 = Some (s ! 0)" "s ! 0 \<noteq> CHR ''-''"
    using assms(1) is_digit_neq(2) by (cases s; auto)+
  then show "atoi (s @ post) = None"
    using atoi_loop_overflow[of s 0 "[]"] assms z by (simp add: atoi_def)
  show "atoi (CHR ''-'' # s @ post) = None"
    using atoi_loop_overflow[of s 0 "[CHR ''-'']"] assms z by (simp add: atoi_def)
qed

lemma atoi_dec_int:
  assumes "INT_MIN < n" "n \<le> INT_MAX"
  shows "atoi (dec_int n @ NUL # rest) = Some n"
proof (cases "n < 0")
  case True
  then show ?thesis
    using atoi_digits(2)[of "dec_nat (nat (- n))" NUL rest] assms dec_nat_digits
    by (simp add: dec_int_def INT_MIN_def INT_MAX_def)
next
  case False
  then show ?thesis
    using atoi_digits(1)[of "dec_nat (nat n)" NUL rest] assms dec_nat_digits
    by (simp add: dec_int_def)
qed

interpretation dec32: text_codec "\<lambda>n buf. itoa n buf 10" atoi dec_int
  "\<lambda>n. INT_MIN < n \<and> n \<le> INT_MAX" 12
proof unfold_locales
  fix x assume "INT_MIN < x \<and> x \<le> INT_MAX"
  then show "length (dec_int x) < 12" using length_dec_int[of x] by simp
qed (simp_all add: itoa_spec atoi_dec_int)

subsection \<open>The 64 bit pair\<close>

lemma sint_small: "k < 10 \<Longrightarrow> sint (ucast (word_of_nat k :: 64 word) :: 32 word) = int k"
proof -
  assume "k < 10"
  then have "k \<in> {0, 1, 2, 3, 4, 5, 6, 7, 8, 9}" by auto
  then show ?thesis by auto
qed

lemma utoa64_loop_spec:
  assumes "0 < unat w" "length (dec_nat (unat w)) \<le> length rest"
  shows "utoa64_loop w (pre @ rest) 10 (length pre) =
    Some (pre @ rev (dec_nat (unat w)) @ drop (length (dec_nat (unat w))) rest,
          length pre + length (dec_nat (unat w)))"
  using assms
proof (induction "unat w" arbitrary: w pre rest rule: less_induct)
  case less
  let ?n = "unat w"
  from less.prems obtain x r where rest: "rest = x # r" by (cases rest) auto
  have nz: "w \<noteq> 0" using less.prems by auto
  have d: "unat (w div 10) = ?n div 10" "unat (w mod 10) = ?n mod 10"
    by (simp_all add: unat_div unat_mod)
  have "w mod 10 = of_nat (?n mod 10)" by (simp flip: d(2))
  then have c: "radix_char (sint (ucast (w mod 10) :: 32 word)) = digit_char (?n mod 10)"
    by (simp add: sint_small radix_char_digit)
  have step: "utoa64_loop w (pre @ rest) 10 (length pre) =
     utoa64_loop (w div 10) ((pre @ [digit_char (?n mod 10)]) @ r) 10
        (length (pre @ [digit_char (?n mod 10)]))"
    using nz by (subst utoa64_loop.simps) (simp add: c rest buf_simps)
  show ?case
  proof (cases "?n < 10")
    case True
    then have "w div 10 = 0" using d(1) by (metis div_less unat_eq_zero)
    then show ?thesis
      using True less.prems step by (simp add: utoa64_loop.simps[of 0] dec_nat.simps[of ?n] rest)
  next
    case False
    have l: "length (dec_nat (?n div 10)) \<le> length r"
      using False less.prems(2) by (subst (asm) dec_nat.simps) (simp add: rest)
    have "utoa64_loop (w div 10) ((pre @ [digit_char (?n mod 10)]) @ r) 10
        (length (pre @ [digit_char (?n mod 10)])) =
      Some ((pre @ [digit_char (?n mod 10)]) @ rev (dec_nat (unat (w div 10))) @
         drop (length (dec_nat (unat (w div 10)))) r,
         length (pre @ [digit_char (?n mod 10)]) + length (dec_nat (unat (w div 10))))"
      by (rule less.hyps) (use False d l in auto)
    then show ?thesis
      using False unfolding step by (simp add: d dec_nat.simps[of ?n] rest)
  qed
qed


lemma utoa64_spec:
  assumes "21 \<le> length buf"
  shows "utoa64 w buf 10 =
    Some (dec_nat (unat w) @ NUL # drop (Suc (length (dec_nat (unat w)))) buf)"
proof -
  have l: "length (dec_nat (unat w)) \<le> 20"
    using length_dec_nat[of "unat w" 19] unat64_less[of w] by simp
  show ?thesis
  proof (cases "w = 0")
    case True
    obtain a buf' where a: "buf = a # buf'" using assms by (cases buf) auto
    obtain b r where "buf' = b # r" using assms a by (cases buf') auto
    with True a show ?thesis by (simp add: utoa64_def dec_nat.simps wr_def digit_char_0)
  next
    case False
    let ?l = "length (dec_nat (unat w))"
    have loop: "utoa64_loop w buf 10 0 = Some (rev (dec_nat (unat w)) @ drop ?l buf, ?l)"
      using utoa64_loop_spec[of w buf "[]"] False l assms by (simp add: unat_gt_0)
    obtain y t where yt: "drop ?l buf = y # t" "t = drop (Suc ?l) buf"
      using l assms by (intro that[OF Cons_nth_drop_Suc[symmetric] refl]) linarith
    have "reverse (rev (dec_nat (unat w)) @ NUL # t) ?l = Some (dec_nat (unat w) @ NUL # t)"
      using reverse_spec[of ?l "rev (dec_nat (unat w))"] by simp
    then show ?thesis
      using False loop yt by (simp add: utoa64_def list_update_append)
  qed
qed

lemma atou64_loop_digits:
  assumes "\<forall>c \<in> set s. is_digit c" "\<not> is_digit t"
  shows "atou64_loop (pre @ s @ t # post) (length pre) (of_nat acc) = Some (of_nat (dec_value acc s))"
  using assms
proof (induction s arbitrary: pre acc)
  case Nil
  then show ?case by (subst atou64_loop.simps) simp
next
  case (Cons c s)
  let ?a = "acc * 10 + digit_val c"
  have "atou64_loop ((pre @ [c]) @ s @ t # post) (length (pre @ [c])) (of_nat ?a) =
      Some (of_nat (dec_value ?a s))"
    using Cons.prems by (intro Cons.IH) auto
  then show ?case
    using Cons.prems(1) is_digit_neq(1) by (subst atou64_loop.simps) (auto simp: Let_def)
qed

lemma atou64_dec_nat: "atou64 (dec_nat (unat w) @ NUL # rest) = Some w"
proof -
  let ?b = "dec_nat (unat w) @ NUL # rest"
  have "rd ?b 0 = Some (?b ! 0)" "is_digit (?b ! 0)"
    using dec_nat_digits[of "dec_nat (unat w) ! 0" "unat w"] by (simp_all add: nth_append)
  then show ?thesis
    using atou64_loop_digits[of "dec_nat (unat w)" NUL "[]" rest 0] dec_nat_digits is_digit_neq(2)
    by (auto simp: atou64_def)
qed

interpretation dec64: text_codec "\<lambda>w buf. utoa64 w buf 10" atou64 "\<lambda>w. dec_nat (unat w)"
  "\<lambda>w. True" 21
proof unfold_locales
  fix x :: "64 word"
  show "length (dec_nat (unat x)) < 21"
    using length_dec_nat[of "unat x" 19] unat64_less[of x] by simp
qed (simp_all add: utoa64_spec atou64_dec_nat)

subsection \<open>Lemmas: ftoa\<close>

definition finite_int_range :: "f32 \<Rightarrow> bool" where
  \<comment> \<open>the floats whose rounded magnitude stays below \<open>2 ^ 31\<close>\<close>
  "finite_int_range a = (\<not> f32_is_nan a \<and> \<not> f32_is_inf a \<and> \<bar>f32_val a\<bar> \<le> 2 ^ 31 - 256)"

fun frac_digits :: "nat \<Rightarrow> f32 \<Rightarrow> string" where
  "frac_digits 0 fraction = []"
| "frac_digits (Suc p) fraction =
     (let f = f32_mul fraction f32_ten; d = the (f32_to_int f)
      in digit_char (nat d) # frac_digits p (f32_sub f (f32_of_int d)))"

fun sig_len :: "string \<Rightarrow> nat" where
  \<comment> \<open>the length of a digit string without its trailing zeros\<close>
  "sig_len [] = 0"
| "sig_len (c # s) =
     (if 0 < sig_len s then Suc (sig_len s) else if c = CHR ''0'' then 0 else 1)"

definition ftoa_magnitude :: "f32 \<Rightarrow> f32" where
  "ftoa_magnitude num = (if f32_lt num f32_zero then f32_uminus num else num)"

definition ftoa_text :: "f32 \<Rightarrow> nat \<Rightarrow> string" where
  \<comment> \<open>sign, whole part, and the fractional digits up to the last that is not zero\<close>
  "ftoa_text num p =
     (let m = f32_add (ftoa_magnitude num) (ftoa_rounding p f32_half);
          w = the (f32_to_int m);
          ds = frac_digits p (f32_sub m (f32_of_int w))
      in (if f32_lt num f32_zero then ''-'' else '''') @ dec_nat (nat w) @
         (if sig_len ds = 0 then [] else CHR ''.'' # take (sig_len ds) ds))"

lemma sig_len_le: "sig_len s \<le> length s"
  by (induction s) auto

lemma sig_len_last: "0 < sig_len s \<Longrightarrow> s ! (sig_len s - 1) \<noteq> CHR ''0''"
proof (induction s)
  case (Cons c s)
  show ?case
  proof (cases "0 < sig_len s")
    case True
    then show ?thesis using Cons by (simp add: nth_Cons')
  next
    case False
    then show ?thesis using Cons.prems by (simp split: if_splits)
  qed
qed simp

lemma frac_digits_length [simp]: "length (frac_digits p f) = p"
  by (induction p arbitrary: f) (auto simp: Let_def)

lemma frac_step:
  assumes "f32_rep f F" "F < 2 ^ 149"
  obtains d G where "f32_to_int (f32_mul f f32_ten) = Some d" "0 \<le> d" "d < 10"
    "f32_rep (f32_sub (f32_mul f f32_ten) (f32_of_int d)) G" "G < 2 ^ 149"
proof -
  obtain N where N: "N < 10 * 2 ^ 149" "f32_rep (f32_mul f f32_ten) N"
    using f32_mul_ten[OF assms] by blast
  have "N < 2 ^ 31 * 2 ^ 149" using N(1) by (rule order.strict_trans2) simp
  note w = f32_whole_part[OF N(2) this]
  have "N div 2 ^ 149 < 10" using N(1) by (simp add: div_less_iff_less_mult)
  then show ?thesis using that[OF w(1,2) _ w(4)] by simp
qed

lemma frac_digits_digits:
  "f32_rep f F \<Longrightarrow> F < 2 ^ 149 \<Longrightarrow> c \<in> set (frac_digits p f) \<Longrightarrow> is_digit c"
proof (induction p arbitrary: f F)
  case (Suc p)
  obtain d G where d: "f32_to_int (f32_mul f f32_ten) = Some d" "0 \<le> d" "d < 10"
    "f32_rep (f32_sub (f32_mul f f32_ten) (f32_of_int d)) G" "G < 2 ^ 149"
    using frac_step[OF Suc.prems(1,2)] .
  then show ?case using Suc.IH[OF d(4,5)] Suc.prems(3) by (auto simp: Let_def nat_less_iff)
qed simp

lemma ftoa_frac_spec:
  assumes "f32_rep f F" "F < 2 ^ 149" "length pre + p \<le> length (pre @ rest)"
  shows "ftoa_frac p f (pre @ rest) (length pre) lnz =
    (let ds = frac_digits p f
     in Some (pre @ ds @ drop p rest,
              if sig_len ds = 0 then lnz else length pre + sig_len ds))"
  using assms
proof (induction p arbitrary: f F pre rest lnz)
  case (Suc p)
  obtain d G where d: "f32_to_int (f32_mul f f32_ten) = Some d" "0 \<le> d" "d < 10"
    "f32_rep (f32_sub (f32_mul f f32_ten) (f32_of_int d)) G" "G < 2 ^ 149"
    using frac_step[OF Suc.prems(1,2)] .
  obtain x r where r: "rest = x # r" using Suc.prems(3) by (cases rest) auto
  have c: "char_of (d + 48) = digit_char (nat d)"
    using radix_char_digit[OF d(2,3)] d(3) by (simp add: radix_char_def)
  have z: "digit_char (nat d) = CHR ''0'' \<longleftrightarrow> d = 0"
    using d(2,3) digit_val_digit_char[of "nat d"] digit_char_0
    by (metis digit_val_digit_char nat_0_iff nat_less_iff of_nat_numeral order_antisym zero_less_numeral)
  let ?g = "f32_sub (f32_mul f f32_ten) (f32_of_int d)" and ?c = "digit_char (nat d)"
  let ?lz = "if d \<noteq> 0 then Suc (length pre) else lnz"
  have "ftoa_frac (Suc p) f (pre @ rest) (length pre) lnz =
      ftoa_frac p ?g ((pre @ [?c]) @ r) (length (pre @ [?c])) ?lz"
    using d(1) c by (simp add: Let_def r wr_append del: wr_Some)
  also have "\<dots> = (let ds = frac_digits p ?g
     in Some ((pre @ [?c]) @ ds @ drop p r,
              if sig_len ds = 0 then ?lz else length (pre @ [?c]) + sig_len ds))"
    using Suc.prems(3) r by (intro Suc.IH[OF d(4,5)]) simp
  finally show ?case using d(1) z by (simp add: Let_def r)
qed simp

lemma count_digits_spec: "0 < n \<Longrightarrow> count_digits (int n) i = i + length (dec_nat n)"
proof (induction n arbitrary: i rule: dec_nat.induct)
  case (1 n)
  have d: "int n div 10 = int (n div 10)" by (simp add: zdiv_int)
  show ?case
  proof (cases "n < 10")
    case True
    then have "n div 10 = 0" by simp
    then show ?thesis using True 1
      by (subst count_digits.simps) (simp add: d count_digits.simps[of 0] dec_nat.simps[of n])
  next
    case False
    then show ?thesis using 1
      by (subst count_digits.simps) (simp add: d dec_nat.simps[of n] del: of_nat_div)
  qed
qed

lemma put_digits_spec:
  assumes "0 < n" "length mid = length (dec_nat n)"
  shows "put_digits (int n) (pre @ mid @ post) (int (length pre + length mid) - 1) =
    Some (pre @ dec_nat n @ post)"
  using assms
proof (induction n arbitrary: mid post rule: dec_nat.induct)
  case (1 n)
  have d: "int n div 10 = int (n div 10)" "int n mod 10 = int (n mod 10)"
    by (simp_all add: zdiv_int zmod_int)
  have c: "char_of (int (n mod 10) + 48) = digit_char (n mod 10)"
  proof -
    have "n mod 10 < 10" by simp
    then have "\<not> 9 < n mod 10" by linarith
    then show ?thesis using radix_char_digit[of "int (n mod 10)"] by (simp add: radix_char_def)
  qed
  obtain m x where m: "mid = m @ [x]" using "1.prems"(2) by (cases mid rule: rev_cases) auto
  have w: "wr (pre @ mid @ post) (length pre + length m) y = Some (pre @ m @ y # post)" for y
    using wr_append'[of "length pre + length m" "pre @ m" x post y] by (simp add: m)
  have "put_digits (int n) (pre @ mid @ post) (int (length pre + length mid) - 1) =
      put_digits (int (n div 10)) (pre @ m @ digit_char (n mod 10) # post)
        (int (length pre + length m) - 1)"
    using "1.prems"(1) w[of "digit_char (n mod 10)"]
    by (subst put_digits.simps) (simp add: d c m nat_add_distrib del: of_nat_div of_nat_mod wr_Some)
  also have "\<dots> = Some (pre @ dec_nat n @ post)"
  proof (cases "n < 10")
    case True
    then show ?thesis using "1.prems" m by (simp add: put_digits.simps dec_nat.simps[of n])
  next
    case False
    then show ?thesis
      using "1.IH"[OF False, of m "digit_char (n mod 10) # post"] "1.prems" m
      by (simp add: dec_nat.simps[of n])
  qed
  finally show ?case .
qed

lemma ftoa_rounding_rep:
  "f32_rep f A \<Longrightarrow> A < 2 ^ 276 \<Longrightarrow> \<exists>N\<le>A. f32_rep (ftoa_rounding p f) N"
proof (induction p arbitrary: f A)
  case (Suc p)
  obtain N where N: "N \<le> A" "f32_rep (f32_div f f32_ten) N" using f32_div_ten[OF Suc.prems] by blast
  then show ?case using Suc.IH[OF N(2)] Suc.prems(2) by (auto intro: order.trans)
qed auto

lemma ftoa_magnitude_val:
  assumes "\<not> f32_is_nan num" "\<not> f32_is_inf num"
  shows "\<not> f32_is_nan (ftoa_magnitude num)" "\<not> f32_is_inf (ftoa_magnitude num)"
    "f32_val (ftoa_magnitude num) = of_int (mag_int (f32_bits num)) / 2 ^ 149"
    "\<bar>f32_val num\<bar> = of_int (mag_int (f32_bits num)) / 2 ^ 149" "0 \<le> mag_int (f32_bits num)"
proof -
  have z: "\<not> f32_is_nan f32_zero" "f32_val f32_zero = 0"
    by (simp_all add: f32_zero_def f32_is_nan_def f32_val_def f32_neg_def f32_bits_def mag_val_def)
  show nn: "0 \<le> mag_int (f32_bits num)"
    using f32_bits_range[of num] by (auto simp: mag_int_def Let_def)
  then show a: "\<bar>f32_val num\<bar> = of_int (mag_int (f32_bits num)) / 2 ^ 149"
    by (simp add: f32_val_def mag_val_int)
  show "\<not> f32_is_nan (ftoa_magnitude num)" "\<not> f32_is_inf (ftoa_magnitude num)"
    using assms f32_bits_range[of num]
    by (simp_all add: ftoa_magnitude_def f32_uminus_def f32_is_nan_def f32_is_inf_def f32_make_sel)
  have "f32_val (f32_uminus num) = - f32_val num"
    using f32_bits_range[of num] by (simp add: f32_val_def f32_uminus_def f32_make_sel)
  then have "f32_val (ftoa_magnitude num) = \<bar>f32_val num\<bar>"
    using z assms by (simp add: ftoa_magnitude_def f32_lt_def)
  then show "f32_val (ftoa_magnitude num) = of_int (mag_int (f32_bits num)) / 2 ^ 149"
    using a by simp
qed

lemma ftoa_sum:
  assumes "finite_int_range num"
  obtains N where "f32_rep (f32_add (ftoa_magnitude num) (ftoa_rounding p f32_half)) N"
    "N < 2 ^ 31 * 2 ^ 149"
proof -
  have num: "\<not> f32_is_nan num" "\<not> f32_is_inf num" "\<bar>f32_val num\<bar> \<le> 2 ^ 31 - 256"
    using assms by (simp_all add: finite_int_range_def)
  note m = ftoa_magnitude_val[OF num(1,2)]
  define A where "A = mag_int (f32_bits num)"
  have "of_int A / 2 ^ 149 \<le> (2 ^ 31 - 256 :: rat)" using num(3) m(4) by (simp add: A_def)
  then have "(of_int A :: rat) \<le> of_int ((2 ^ 31 - 256) * 2 ^ 149)" by (simp add: field_simps)
  then have A: "A \<le> (2 ^ 31 - 256) * 2 ^ 149" by (simp only: of_int_le_iff)
  obtain R where R: "R \<le> 2 ^ 148" "f32_rep (ftoa_rounding p f32_half) R"
    using ftoa_rounding_rep[OF f32_half_rep] by force
  have "fits24 ((2 ^ 24 - 1) * 2 ^ 156)" by (rule fits24I) auto
  moreover have "A + R \<le> (2 ^ 24 - 1) * 2 ^ 156" using A R(1) by simp
  ultimately obtain N where "N \<le> (2 ^ 24 - 1) * 2 ^ 156"
    "f32_rep (f32_add (ftoa_magnitude num) (ftoa_rounding p f32_half)) N"
    using f32_add_le[OF m(1,2,3,5) R(2)] by (fastforce simp: A_def)
  then show ?thesis using that[of N] by simp
qed

definition ftoa_finish :: "bytes \<Rightarrow> nat \<Rightarrow> bytes option" where
  "ftoa_finish str i = do {
     c \<leftarrow> (if i = 0 then None else rd str (i - 1));
     let i = (if c = CHR ''.'' then i - 1 else i);
     wr str i NUL
   }"

lemma ftoa_stages:
  assumes "(if f32_lt num f32_zero
      then do { str \<leftarrow> wr str 0 (CHR ''-''); Some (f32_uminus num, str, 1) }
      else Some (num, str, 0)) = Some (m, str1, s)"
    and "f32_to_int (f32_add m (ftoa_rounding (nat precision) f32_half)) = Some w"
    and "(if w = 0 then do { str \<leftarrow> wr str1 s (CHR ''0''); Some (str, Suc s) }
      else let i = count_digits w s
           in do { str \<leftarrow> put_digits w str1 (int i - 1); Some (str, i) }) = Some (str2, i2)"
    and "(if 0 < precision then do {
      str \<leftarrow> wr str2 i2 (CHR ''.'');
      ftoa_frac (nat precision)
        (f32_sub (f32_add m (ftoa_rounding (nat precision) f32_half)) (f32_of_int w))
        str (Suc i2) (Suc i2)
    } else Some (str2, i2)) = Some (str3, i3)"
  shows "ftoa num str precision = ftoa_finish str3 i3"
  using assms(2-4) unfolding ftoa_def assms(1) by (simp add: ftoa_finish_def Let_def)

lemma ftoa_finish_append:
  assumes "pre \<noteq> []" "last pre \<noteq> CHR ''.''" "n = length pre"
  shows "ftoa_finish (pre @ x # post) n = Some (pre @ NUL # post)"
  using assms wr_append[of pre x post NUL]
  by (auto simp: ftoa_finish_def nth_append last_conv_nth)

lemma ftoa_finish_dot:
  assumes "n = Suc (length pre)"
  shows "ftoa_finish (pre @ CHR ''.'' # post) n = Some (pre @ NUL # post)"
  using assms by (auto simp: ftoa_finish_def nth_append wr_append simp del: wr_Some)

lemma written_text:
  assumes "x = Some (t @ NUL # r)" "length (t @ NUL # r) = n"
  shows "\<exists>s. x = Some s \<and> length s = n \<and> take (Suc (length t)) s = t @ [NUL]"
  using assms by simp

abbreviation ftoa_sign :: "f32 \<Rightarrow> string" where
  "ftoa_sign num \<equiv> (if f32_lt num f32_zero then ''-'' else [])"

lemma ftoa_put_sign:
  assumes "str \<noteq> []"
  shows "(if f32_lt num f32_zero
      then do { str \<leftarrow> wr str 0 (CHR ''-''); Some (f32_uminus num, str, 1) }
      else Some (num, str, 0)) =
    Some (ftoa_magnitude num, ftoa_sign num @ drop (length (ftoa_sign num)) str, length (ftoa_sign num))"
  using assms by (cases str) (auto simp: ftoa_magnitude_def)

lemma ftoa_put_whole:
  assumes "length mid = length (dec_nat n)"
  shows "(if int n = 0 then do { str \<leftarrow> wr (sg @ mid @ post) (length sg) (CHR ''0''); Some (str, Suc (length sg)) }
      else let i = count_digits (int n) (length sg)
           in do { str \<leftarrow> put_digits (int n) (sg @ mid @ post) (int i - 1); Some (str, i) }) =
    Some (sg @ dec_nat n @ post, length sg + length (dec_nat n))"
proof (cases "n = 0")
  case True
  then have "dec_nat n = [CHR ''0'']" by (simp add: dec_nat.simps digit_char_0)
  moreover from this obtain y where "mid = [y]" using assms by (cases mid) auto
  ultimately show ?thesis
    using True wr_append[of sg y post "CHR ''0''"] by (simp del: wr_Some)
next
  case False
  then show ?thesis
    using count_digits_spec[of n "length sg"] put_digits_spec[of n mid sg post] assms by (simp add: Let_def)
qed

lemma ftoa_finish_frac:
  \<comment> \<open>the terminator after the last fractional digit that is not zero, or over the point\<close>
  assumes "\<forall>c\<in>set ds. c \<noteq> CHR ''.''" "rest \<noteq> []"
    and "t = pre @ (if sig_len ds = 0 then [] else CHR ''.'' # take (sig_len ds) ds)"
  shows "\<exists>r. ftoa_finish ((pre @ [CHR ''.'']) @ ds @ rest) (Suc (length pre) + sig_len ds) = Some (t @ NUL # r) \<and>
    length (t @ NUL # r) = Suc (length pre + length ds + length rest)"
proof (cases "sig_len ds = 0")
  case True
  then show ?thesis using ftoa_finish_dot[OF refl, of pre "ds @ rest"] assms(3) by simp
next
  case False
  let ?L = "sig_len ds"
  have L: "?L \<le> length ds" by (rule sig_len_le)
  have t: "t = pre @ CHR ''.'' # take ?L ds" using assms(3) False by simp
  obtain y r where r: "drop ?L ds @ rest = y # r" using assms(2) by (cases "drop ?L ds @ rest") auto
  have tn: "take ?L ds \<noteq> []" using False L by auto
  then have "last t \<in> set ds" using in_set_takeD[OF last_in_set[OF tn]] tn by (simp add: t)
  then have "ftoa_finish (t @ y # r) (length t) = Some (t @ NUL # r)"
    using assms(1) by (intro ftoa_finish_append) (auto simp: t)
  moreover have "(pre @ [CHR ''.'']) @ ds @ rest = t @ y # r" unfolding r[symmetric] t by simp
  moreover have "length t = Suc (length pre) + ?L" using L by (simp add: t)
  moreover have "Suc (length r) = length ds - ?L + length rest" using arg_cong[OF r, of length] by simp
  ultimately show ?thesis using L by (intro exI[of _ r]) simp
qed

lemma ftoa_number:
  \<comment> \<open>the whole part and the fraction the digits are taken from\<close>
  assumes "finite_int_range num" "m = f32_add (ftoa_magnitude num) (ftoa_rounding p f32_half)"
  obtains n F where "f32_to_int m = Some (int n)" "length (dec_nat n) \<le> 10"
    "f32_rep (f32_sub m (f32_of_int (int n))) F" "F < 2 ^ 149"
proof -
  obtain N where N: "f32_rep m N" "N < 2 ^ 31 * 2 ^ 149" using ftoa_sum[OF assms(1)] assms(2) by metis
  define n where "n = nat (N div 2 ^ 149)"
  note w = f32_whole_part[OF N]
  have n: "N div 2 ^ 149 = int n" "n < 10 ^ Suc 9" using w(2,3) by (auto simp: n_def)
  show thesis
    using that[of n "N mod 2 ^ 149"] w(1,4) n(1) length_dec_nat[OF n(2)] by simp
qed

lemma ftoa_spec:
  assumes "finite_int_range num" "13 + p \<le> length str"
  shows "\<exists>str'. ftoa num str (int p) = Some str' \<and> length str' = length str \<and>
    take (Suc (length (ftoa_text num p))) str' = ftoa_text num p @ [NUL]"
proof -
  let ?m = "f32_add (ftoa_magnitude num) (ftoa_rounding p f32_half)"
  obtain n F where n: "f32_to_int ?m = Some (int n)" "length (dec_nat n) \<le> 10"
    "f32_rep (f32_sub ?m (f32_of_int (int n))) F" "F < 2 ^ 149" using ftoa_number[OF assms(1) refl] .
  define sg where "sg = ftoa_sign num"
  define ds where "ds = frac_digits p (f32_sub ?m (f32_of_int (int n)))"
  let ?k = "length (dec_nat n)" and ?s = "length sg"
  have shown: "ftoa_text num p = (sg @ dec_nat n) @ (if sig_len ds = 0 then [] else CHR ''.'' # take (sig_len ds) ds)"
    using n(1) by (simp add: ftoa_text_def sg_def ds_def Let_def)
  define mid post where "mid = take ?k (drop ?s str)" and "post = drop ?k (drop ?s str)"
  have md: "drop ?s str = mid @ post" unfolding mid_def post_def by (rule append_take_drop_id[symmetric])
  have s: "?s \<le> 1" by (simp add: sg_def)
  have len: "length mid = ?k" "2 + p \<le> length post" "length str = ?s + ?k + length post"
    using assms(2) n(2) s by (simp_all add: mid_def post_def)
  obtain x post' where post': "post = x # post'" using len(2) by (cases post) auto
  have "str \<noteq> []" using assms(2) by auto
  note sign = ftoa_put_sign[OF this, of num, folded sg_def, unfolded md]
  note whole = ftoa_put_whole[OF len(1), of sg post]
  have m: "f32_to_int (f32_add (ftoa_magnitude num) (ftoa_rounding (nat (int p)) f32_half)) = Some (int n)"
    using n(1) by simp
  have dig: "c \<noteq> CHR ''.''" if "c \<in> set (dec_nat n) \<union> set ds" for c
    using that dec_nat_digits frac_digits_digits[OF n(3,4)] is_digit_neq(3) unfolding ds_def by blast
  show ?thesis
  proof (cases "p = 0")
    case True
    have "ftoa num str (int p) = ftoa_finish (sg @ dec_nat n @ post) (?s + ?k)"
      by (rule ftoa_stages[OF sign m whole]) (simp add: True)
    moreover have "sg @ dec_nat n \<noteq> []" "last (sg @ dec_nat n) \<noteq> CHR ''.''" using dig by auto
    moreover have "ds = []" using True by (simp add: ds_def)
    ultimately show ?thesis
      using ftoa_finish_append[of "sg @ dec_nat n" "?s + ?k" x post'] len(3) post' shown by simp
  next
    case False
    let ?pre = "(sg @ dec_nat n) @ [CHR ''.'']"
    have "wr (sg @ dec_nat n @ post) (?s + ?k) (CHR ''.'') = Some (?pre @ post')"
      using wr_append'[of "?s + ?k" "sg @ dec_nat n" x post' "CHR ''.''"] post' by simp
    moreover have "ftoa_frac p (f32_sub ?m (f32_of_int (int n))) (?pre @ post') (length ?pre) (length ?pre) =
        Some (?pre @ ds @ drop p post', length ?pre + sig_len ds)"
      using ftoa_frac_spec[OF n(3,4), of ?pre p post' "length ?pre"] len(2) post' by (simp add: ds_def Let_def)
    ultimately have "ftoa num str (int p) =
        ftoa_finish (?pre @ ds @ drop p post') (Suc (length (sg @ dec_nat n)) + sig_len ds)"
      by (intro ftoa_stages[OF sign m whole]) (use False in simp)
    moreover have "\<forall>c\<in>set ds. c \<noteq> CHR ''.''" "drop p post' \<noteq> []" using dig len(2) post' by auto
    note ftoa_finish_frac[OF this shown]
    moreover have "length ds = p" by (simp add: ds_def)
    ultimately show ?thesis using len(2,3) post' by (auto intro: written_text)
  qed
qed

lemma ftoa_text_chars:
  assumes "finite_int_range num" "c \<in> set (ftoa_text num p)"
  shows "is_digit c \<or> c = CHR ''-'' \<or> c = CHR ''.''"
proof -
  obtain N where N: "f32_rep (f32_add (ftoa_magnitude num) (ftoa_rounding p f32_half)) N"
    "N < 2 ^ 31 * 2 ^ 149" using ftoa_sum[OF assms(1)] .
  note w = f32_whole_part[OF N]
  have "N mod 2 ^ 149 < 2 ^ 149" by simp
  from frac_digits_digits[OF w(4) this] show ?thesis
    using assms(2) w(1) dec_nat_digits
    by (auto simp: ftoa_text_def Let_def dest: in_set_takeD split: if_splits)
qed

lemma ftoa_text_length:
  assumes "finite_int_range num"
  shows "length (ftoa_text num p) \<le> 12 + p" "0 < length (ftoa_text num p)"
proof -
  obtain N where N: "f32_rep (f32_add (ftoa_magnitude num) (ftoa_rounding p f32_half)) N"
    "N < 2 ^ 31 * 2 ^ 149" using ftoa_sum[OF assms(1)] .
  note w = f32_whole_part[OF N]
  define n where "n = nat (N div 2 ^ 149)"
  have n: "N div 2 ^ 149 = int n" "n < 10 ^ Suc 9" using w(2,3) by (auto simp: n_def)
  then have "length (dec_nat n) \<le> 10" using length_dec_nat[OF n(2)] by simp
  moreover have "sig_len (frac_digits p f) \<le> p" for f using sig_len_le[of "frac_digits p f"] by simp
  ultimately show "length (ftoa_text num p) \<le> 12 + p" "0 < length (ftoa_text num p)"
    using w(1) n(1) by (auto simp: ftoa_text_def Let_def intro: le_SucI add_mono)
qed

lemma ftoa_undefined:
  assumes "f32_is_nan num \<or> f32_is_inf num"
  shows "ftoa num str precision = None"
proof -
  have m: "f32_is_nan (f32_uminus num) \<or> f32_is_inf (f32_uminus num)"
    using assms f32_bits_range[of num]
    by (auto simp: f32_uminus_def f32_is_nan_def f32_is_inf_def f32_make_sel)
  have "f32_is_nan f32_nan" by (simp add: f32_nan_def f32_is_nan_def f32_bits_def)
  obtain R where "f32_rep (ftoa_rounding (nat precision) f32_half) R"
    using ftoa_rounding_rep[OF f32_half_rep] by force
  note r = f32_repD(2,3)[OF this]
  have "f32_to_int (f32_add x (ftoa_rounding (nat precision) f32_half)) = None"
    if "f32_is_nan x \<or> f32_is_inf x" for x
    using that r \<open>f32_is_nan f32_nan\<close> by (auto simp: f32_add_def f32_to_int_def)
  then show ?thesis
    using assms m by (cases str) (simp_all add: ftoa_def Let_def)
qed

subsection \<open>Properties\<close>

text \<open>
  C1: Every int except INT\_MIN that \<open>itoa\<close> prints into a buffer of at least 12 bytes, \<open>atoi\<close> reads
  back from that buffer; the text is the usual decimal one.
\<close>

theorem itoa_atoi_roundtrip:
  assumes "INT_MIN < n" "n \<le> INT_MAX" "12 \<le> length buf"
  shows "\<exists>buf'. itoa n buf 10 = Some buf' \<and> length buf' = length buf \<and> cstr buf' = dec_int n \<and>
    atoi buf' = Some n"
  using dec32.roundtrip[of n buf] assms by auto

theorem itoa_atoi_roundtrip_witness:
  "\<exists>buf'. itoa (-1234) (replicate 12 NUL) 10 = Some buf' \<and> cstr buf' = ''-1234'' \<and> atoi buf' = Some (-1234)"
proof -
  have "dec_int (-1234) = ''-1234''" by code_simp
  then show ?thesis
    using itoa_atoi_roundtrip[of "-1234" "replicate 12 NUL"] by (auto simp: INT_MIN_def INT_MAX_def)
qed

text \<open>
  The 64 bit pair round trips on every value, in a buffer of 21 bytes.
\<close>

lemma utoa64_atou64_roundtrip:
  assumes "21 \<le> length buf"
  shows "\<exists>buf'. utoa64 w buf 10 = Some buf' \<and> length buf' = length buf \<and>
    cstr buf' = dec_nat (unat w) \<and> atou64 buf' = Some w"
  using dec64.roundtrip assms by auto

lemma utoa64_atou64_roundtrip_witness:
  "\<exists>buf'. utoa64 (- 1) (replicate 21 NUL) 10 = Some buf' \<and> atou64 buf' = Some (- 1)"
  using utoa64_atou64_roundtrip[of "replicate 21 NUL" "- 1"] by auto

text \<open>
  C3: The printers and readers of numbers are undefined at the edges: \<open>itoa\<close> negates INT\_MIN, and
  \<open>atoi\<close> overflows on every digit string whose value is above INT\_MAX.
\<close>

lemma int_text_undefined:
  "itoa INT_MIN buf 10 = None \<and>
    (\<forall>s. (\<forall>c \<in> set s. is_digit c) \<and> INT_MAX < int (dec_value 0 s) \<longrightarrow>
      atoi (s @ NUL # rest) = None \<and> atoi (CHR ''-'' # s @ NUL # rest) = None)"
  by (simp_all add: itoa_INT_MIN atoi_overflow)

lemma int_text_undefined_witness:
  "itoa INT_MIN (replicate 12 NUL) 10 = None \<and> atoi (lit ''2147483648'') = None"
proof -
  have d: "\<forall>c\<in>set ''2147483648''. is_digit c" "INT_MAX < int (dec_value 0 ''2147483648'')"
    by (auto simp: is_digit_def digit_val_def INT_MAX_def)
  then have "atoi (''2147483648'' @ NUL # []) = None" using int_text_undefined by blast
  then show ?thesis using int_text_undefined by (simp add: lit_def)
qed

text \<open>
  C4: \<open>ftoa\<close> on a number of magnitude up to \<open>2 ^ 31 - 256\<close> with a precision of \<open>p\<close> digits stays
  inside a buffer of \<open>13 + p\<close> bytes and writes a terminated text of at most \<open>12 + p\<close>
  characters, all digits, sign and point: every digit it computes from the rounded float
  arithmetic is one of 0 to 9. NaN and the infinities make it convert a float that has no int
  value.
\<close>

theorem ftoa_safe:
  assumes "13 + p \<le> length buf"
  shows "if f32_is_nan num \<or> f32_is_inf num then ftoa num buf (int p) = None
    else \<bar>f32_val num\<bar> \<le> 2 ^ 31 - 256 \<longrightarrow> (\<exists>buf'. ftoa num buf (int p) = Some buf' \<and> length buf' = length buf \<and>
      cstr buf' = ftoa_text num p \<and> length (ftoa_text num p) \<le> 12 + p \<and>
      (\<forall>c \<in> set (cstr buf'). is_digit c \<or> c = CHR ''-'' \<or> c = CHR ''.''))"
proof (cases "f32_is_nan num \<or> f32_is_inf num")
  case True
  then show ?thesis by (simp add: ftoa_undefined)
next
  case False
  show ?thesis
  proof (cases "\<bar>f32_val num\<bar> \<le> 2 ^ 31 - 256")
    case small: True
    then have r: "finite_int_range num" using False by (simp add: finite_int_range_def)
    obtain buf' where b: "ftoa num buf (int p) = Some buf'" "length buf' = length buf"
      "take (Suc (length (ftoa_text num p))) buf' = ftoa_text num p @ [NUL]"
      using ftoa_spec[OF r assms] by blast
    note ch = ftoa_text_chars[OF r, of _ p]
    have "NUL \<notin> set (ftoa_text num p)" using ch[of NUL] by auto
    moreover have "buf' = ftoa_text num p @ NUL # drop (Suc (length (ftoa_text num p))) buf'"
      using b(3) by (metis append_Cons append_Nil append_assoc append_take_drop_id)
    ultimately have "cstr buf' = ftoa_text num p" by (metis cstr_append_NUL)
    then show ?thesis using False b(1,2) ch ftoa_text_length(1)[OF r] by auto
  qed (use False in simp)
qed

theorem ftoa_safe_witness:
  "\<exists>buf'. ftoa 0xC0490FDB (replicate 17 NUL) 4 = Some buf' \<and> length buf' = 17"
proof -
  have "\<bar>f32_val 0xC0490FDB\<bar> \<le> 2 ^ 31 - 256" "\<not> f32_is_nan 0xC0490FDB" "\<not> f32_is_inf 0xC0490FDB"
    by (simp_all add: f32_val_def f32_neg_def f32_bits_def mag_val_def f32_is_nan_def f32_is_inf_def Let_def)
  then show ?thesis using ftoa_safe[of 4 "replicate 17 NUL" "0xC0490FDB"] by auto
qed

end
