(* ===== verification/Timeconv.thy ===== *)
theory Timeconv
  imports C_Strings
begin

text \<open>
  lib/timeconv.c: RFC 3339 timestamps and the conversion of a day count into a calendar date.
  The inverse conversion is Zephyr's \<open>timeutil_timegm64\<close>, which the parser takes as an
  argument; what it promises is stated by \<open>timegm_ok\<close> against the Gregorian calendar defined
  here by its month and year lengths.
\<close>

subsection \<open>Code\<close>

definition NS_PER_SEC :: int where "NS_PER_SEC = 1000000000"
definition RFC3339_MAX_LEN :: nat where "RFC3339_MAX_LEN = 31"

definition to_unsigned :: "int \<Rightarrow> int" where
  \<comment> \<open>conversion to the 32 bit \<open>unsigned\<close>, also the wrap of its arithmetic\<close>
  "to_unsigned x = x mod 2 ^ 32"

definition civil_from_days :: "int \<Rightarrow> int \<times> int \<times> int" where
  \<comment> \<open>the locals of type \<open>unsigned\<close> never wrap: lemma \<open>civil_from_days_ranges\<close>; the initial
    conversion of \<open>z - era * 146097\<close> is written out\<close>
  "civil_from_days z0 = (let
     z = z0 + 719468;
     era = (if 0 \<le> z then z else z - 146096) sdiv 146097;
     doe = to_unsigned (z - era * 146097);
     yoe = to_unsigned (doe - doe div 1460 + doe div 36524 - doe div 146096) div 365;
     y = yoe + era * 400;
     doy = to_unsigned (doe - (365 * yoe + yoe div 4 - yoe div 100));
     mp = (5 * doy + 2) div 153;
     d = to_unsigned (doy - (153 * mp + 2) div 5 + 1);
     m = (if mp < 10 then mp + 3 else to_unsigned (mp - 9))
   in (y + (if m \<le> 2 then 1 else 0), m, d))"

definition dec_digit :: "int \<Rightarrow> char" where
  \<comment> \<open>\<open>'0' + x % 10\<close> of a non-negative \<open>x\<close>\<close>
  "dec_digit x = char_of (48 + x mod 10)"

fun nsec_digits :: "nat \<Rightarrow> int \<Rightarrow> string" where
  \<comment> \<open>\<open>for (i = 8; i >= 0; i--) { p[i] = '0' + nsec % 10; nsec /= 10; }\<close>, as the digits it leaves\<close>
  "nsec_digits 0 nsec = []"
| "nsec_digits (Suc i) nsec = nsec_digits i (nsec div 10) @ [dec_digit nsec]"

definition rfc3339_text :: "64 word \<Rightarrow> string" where
  \<comment> \<open>the thirty characters the formatter stores\<close>
  "rfc3339_text epoch_ns = (let
     secs = uint epoch_ns div NS_PER_SEC;
     nsec = uint epoch_ns mod NS_PER_SEC;
     days = secs div 86400;
     rem = secs mod 86400;
     (year, month, day) = civil_from_days days;
     hour = rem div 3600;
     min = (rem mod 3600) div 60;
     sec = rem mod 60
   in [dec_digit (year sdiv 1000), dec_digit (year sdiv 100), dec_digit (year sdiv 10),
       dec_digit year, CHR ''-'', dec_digit (month div 10), dec_digit month,
       CHR ''-'', dec_digit (day div 10), dec_digit day,
       CHR ''T'', dec_digit (hour div 10), dec_digit hour,
       CHR '':'', dec_digit (min div 10), dec_digit min,
       CHR '':'', dec_digit (sec div 10), dec_digit sec, CHR ''.'']
      @ nsec_digits 9 nsec @ [CHR ''Z''])"

definition timeconv_rfc3339_from_epoch_ns_utc ::
    "64 word \<Rightarrow> bytes \<Rightarrow> nat \<Rightarrow> (int \<times> bytes) option" where
  "timeconv_rfc3339_from_epoch_ns_utc epoch_ns buf buf_len =
     (if buf_len < RFC3339_MAX_LEN then Some (-1, buf)
      else do {
        buf' \<leftarrow> wr_block buf 0 (rfc3339_text epoch_ns @ [NUL]);
        Some (0, buf')
      })"

record tm =
  tm_year :: int
  tm_mon :: int
  tm_mday :: int
  tm_hour :: int
  tm_min :: int
  tm_sec :: int

function nsec_loop :: "bytes \<Rightarrow> nat \<Rightarrow> int \<Rightarrow> int \<Rightarrow> (nat \<times> int) option" where
  \<comment> \<open>\<open>while (is_digit(tmp[i]))\<close>, the sum and the scale kept in a uint32_t\<close>
  "nsec_loop tmp i scale nsec =
     (if i < length tmp then
        (if is_digit (tmp ! i) then
           (if 0 < scale then
              nsec_loop tmp (Suc i) (scale div 10)
                (to_unsigned (nsec + int (digit_val (tmp ! i)) * scale))
            else nsec_loop tmp (Suc i) scale nsec)
         else Some (i, nsec))
      else None)"
  by pat_completeness auto
termination
  by (relation "measure (\<lambda>(tmp, i, scale, nsec). length tmp - i)") auto

declare nsec_loop.simps [simp del]

definition two_digits :: "bytes \<Rightarrow> nat \<Rightarrow> int" where
  "two_digits tmp i = int (digit_val (tmp ! i)) * 10 + int (digit_val (tmp ! Suc i))"

definition rfc3339_layout_ok :: "bytes \<Rightarrow> bool" where
  \<comment> \<open>the separators, and digits everywhere else in the first nineteen characters\<close>
  "rfc3339_layout_ok tmp =
     (tmp ! 4 = CHR ''-'' \<and> tmp ! 7 = CHR ''-'' \<and> tmp ! 10 = CHR ''T'' \<and>
      tmp ! 13 = CHR '':'' \<and> tmp ! 16 = CHR '':'' \<and>
      (\<forall>i\<in>set [0..<19]. i \<notin> {4, 7, 10, 13, 16} \<longrightarrow> is_digit (tmp ! i)))"

definition rfc3339_tail :: "bytes \<Rightarrow> int option option" where
  \<comment> \<open>the optional fraction, the zone and the end of the text; \<open>Some None\<close> is the rejection\<close>
  "rfc3339_tail tmp = do {
     (i, nsec) \<leftarrow> (if tmp ! 19 = CHR ''.'' then nsec_loop tmp 20 100000000 0 else Some (19, 0));
     z \<leftarrow> rd tmp i;
     if z \<noteq> CHR ''Z'' then Some None
     else do {
       e \<leftarrow> rd tmp (Suc i);
       Some (if e \<noteq> NUL then None else Some nsec)
     }
   }"

definition rfc3339_parse_tmp :: "(tm \<Rightarrow> int) \<Rightarrow> bytes \<Rightarrow> 64 word option" where
  \<comment> \<open>everything the parser does with its local copy, a string of at least twenty characters\<close>
  "rfc3339_parse_tmp timegm tmp =
     (if \<not> rfc3339_layout_ok tmp then Some 0
      else let
        year = int (digit_val (tmp ! 0)) * 1000 + int (digit_val (tmp ! 1)) * 100 +
          int (digit_val (tmp ! 2)) * 10 + int (digit_val (tmp ! 3));
        mon = two_digits tmp 5;
        mday = two_digits tmp 8;
        hour = two_digits tmp 11;
        min = two_digits tmp 14;
        sec = two_digits tmp 17
      in if mon < 1 \<or> mon > 12 \<or> mday < 1 \<or> mday > 31 \<or> hour > 23 \<or> min > 59 \<or> sec > 60
         then Some 0
         else do {
           tail \<leftarrow> rfc3339_tail tmp;
           case tail of None \<Rightarrow> Some 0
           | Some nsec \<Rightarrow>
               (let epoch = timegm \<lparr>tm_year = year - 1900, tm_mon = mon - 1, tm_mday = mday,
                   tm_hour = hour, tm_min = min, tm_sec = sec\<rparr>
                in if epoch < 0 then Some 0
                   else Some (word_of_int epoch * word_of_int NS_PER_SEC + word_of_int nsec))
         })"

definition timeconv_epoch_ns_from_rfc3339 ::
    "(tm \<Rightarrow> int) \<Rightarrow> bytes \<Rightarrow> nat \<Rightarrow> 64 word option" where
  \<comment> \<open>\<open>tmp\<close> has 39 bytes; those the copy leaves unset follow its terminator and are never read\<close>
  "timeconv_epoch_ns_from_rfc3339 timegm buf buf_len =
     (if buf_len = 0 then Some 0
      else do {
        let cpy = (if buf_len < RFC3339_MAX_LEN + 7 then buf_len else RFC3339_MAX_LEN + 7);
        tmp \<leftarrow> c_memcpy (replicate (RFC3339_MAX_LEN + 8) NUL) 0 buf cpy;
        tmp \<leftarrow> wr tmp cpy NUL;
        l \<leftarrow> c_strlen tmp;
        if l < 20 then Some 0 else rfc3339_parse_tmp timegm tmp
      })"

subsection \<open>The Gregorian calendar\<close>

definition leap_year :: "int \<Rightarrow> bool" where
  "leap_year y = (4 dvd y \<and> (\<not> 100 dvd y \<or> 400 dvd y))"

definition year_days :: "int \<Rightarrow> int" where
  "year_days y = (if leap_year y then 366 else 365)"

definition month_days :: "int \<Rightarrow> int \<Rightarrow> int" where
  "month_days y m =
     (if m = 2 then (if leap_year y then 29 else 28)
      else if m \<in> {4, 6, 9, 11} then 30 else 31)"

definition valid_date :: "int \<Rightarrow> int \<Rightarrow> int \<Rightarrow> bool" where
  "valid_date y m d = (1 \<le> m \<and> m \<le> 12 \<and> 1 \<le> d \<and> d \<le> month_days y m)"

definition day_number :: "int \<Rightarrow> int \<Rightarrow> int \<Rightarrow> int" where
  \<comment> \<open>days from 1970-01-01 to a date of 1970 or later\<close>
  "day_number y m d =
     sum_list (map year_days [1970..y - 1]) + sum_list (map (month_days y) [1..m - 1]) + d - 1"

text \<open>Leap years up to and including \<open>y\<close>, and the days before a March-based year.\<close>

definition leaps :: "int \<Rightarrow> int" where
  "leaps y = y div 4 - y div 100 + y div 400"

lemma leaps_Suc: "leaps y = leaps (y - 1) + (if leap_year y then 1 else 0)"
proof -
  have step: "y div n = (y - 1) div n + (if n dvd y then 1 else 0)" if n: "0 < n" for n :: int
  proof -
    have y: "y = n * (y div n) + y mod n" and r: "0 \<le> y mod n" "y mod n < n" using n by simp_all
    show ?thesis
    proof (cases "y mod n = 0")
      case True
      then have "(y - 1) div n = y div n - 1"
        using y n by (intro int_div_pos_eq[of _ _ _ "n - 1"]) (auto simp: algebra_simps)
      then show ?thesis using True by (simp add: mod_eq_0_iff_dvd)
    next
      case False
      then have "(y - 1) div n = y div n"
        using y r by (intro int_div_pos_eq[of _ _ _ "y mod n - 1"]) auto
      then show ?thesis using False by (simp add: mod_eq_0_iff_dvd)
    qed
  qed
  have count: "a4 - a100 + a400 = b4 - b100 + b400 + (if p \<and> (\<not> q \<or> r) then 1 else 0)"
    if "a4 = b4 + (if p then 1 else 0)" "a100 = b100 + (if q then 1 else 0)"
      "a400 = b400 + (if r then 1 else 0)" "r \<longrightarrow> q" "q \<longrightarrow> p"
    for a4 a100 a400 b4 b100 b400 :: int and p q r
    using that by (cases p; cases q; cases r) auto
  have "(400::int) dvd y \<longrightarrow> 100 dvd y" "(100::int) dvd y \<longrightarrow> 4 dvd y" by presburger+
  then show ?thesis
    unfolding leaps_def leap_year_def by (intro count step) simp_all
qed

lemma sum_year_days:
  "1970 \<le> y \<Longrightarrow> sum_list (map year_days [1970..y - 1]) = 365 * (y - 1970) + leaps (y - 1) - 477"
proof (induction y rule: int_ge_induct)
  case base
  then show ?case by (simp add: leaps_def)
next
  case (step y)
  have "[1970..y + 1 - 1] = [1970..y - 1] @ [y]"
    using step.hyps upto_rec2[of 1970 y] by simp
  then show ?case using step.IH leaps_Suc[of y] by (simp add: year_days_def)
qed

subsection \<open>Correctness of the day count conversion\<close>

definition yoe_num :: "int \<Rightarrow> int" where
  "yoe_num doe = doe - doe div 1460 + doe div 36524 - doe div 146096"

lemma div_diff_le: "0 < n \<Longrightarrow> a \<le> b \<Longrightarrow> b div n - a div n \<le> b - (a::int)"
proof -
  assume n: "0 < n" and ab: "a \<le> b"
  have "b div n \<le> (a + (b - a) * n) div n"
    using n mult_left_mono[of 1 n "b - a"] ab by (intro zdiv_mono1) auto
  also have "\<dots> = a div n + (b - a)" using n by simp
  finally show ?thesis by simp
qed

lemma yoe_num_mono: "a \<le> b \<Longrightarrow> yoe_num a \<le> yoe_num b"
proof -
  assume ab: "a \<le> b"
  have e: "x div 146096 = x div 36524 div 4" for x :: int
    by (simp flip: zdiv_zmult2_eq)
  have "a div 36524 \<le> b div 36524" using ab by (simp add: zdiv_mono1)
  then have "b div 36524 div 4 - a div 36524 div 4 \<le> b div 36524 - a div 36524"
    by (intro div_diff_le) auto
  moreover have "b div 1460 - a div 1460 \<le> b - a" using ab by (intro div_diff_le) auto
  ultimately show ?thesis by (simp add: yoe_num_def e)
qed

definition year_start :: "int \<Rightarrow> int" where
  "year_start y = 365 * y + leaps y"

lemma yoe_table:
  "\<forall>y\<in>set [0..399]. 365 * y \<le> yoe_num (year_start y) \<and>
     yoe_num (year_start (y + 1) - 1) < 365 * (y + 1)"
  unfolding yoe_num_def year_start_def leaps_def by code_simp

lemma year_start_bracket:
  assumes "0 \<le> n" "0 \<le> doe" "doe < year_start n"
  shows "\<exists>y. 0 \<le> y \<and> y < n \<and> year_start y \<le> doe \<and> doe < year_start (y + 1)"
  using assms
proof (induction n rule: int_ge_induct)
  case base
  then show ?case by (simp add: year_start_def leaps_def)
next
  case (step n)
  show ?case
  proof (cases "doe < year_start n")
    case True
    with step obtain y where "0 \<le> y \<and> y < n \<and> year_start y \<le> doe \<and> doe < year_start (y + 1)"
      by blast
    then show ?thesis by (intro exI[of _ y]) auto
  next
    case False
    with step show ?thesis by (intro exI[of _ n]) auto
  qed
qed

lemma yoe_correct:
  assumes "0 \<le> doe" "doe < 146097"
  defines "y \<equiv> yoe_num doe div 365"
  shows "0 \<le> y" "y < 400" "year_start y \<le> doe" "doe < year_start (y + 1)"
proof -
  have "doe < year_start 400" using assms by (simp add: year_start_def leaps_def)
  then obtain k where k: "0 \<le> k" "k < 400" "year_start k \<le> doe" "doe < year_start (k + 1)"
    using year_start_bracket[of 400 doe] assms(1) by auto
  have "k \<in> set [0..399]" using k by simp
  then have "365 * k \<le> yoe_num (year_start k)" "yoe_num (year_start (k + 1) - 1) < 365 * (k + 1)"
    using yoe_table by blast+
  moreover have "yoe_num (year_start k) \<le> yoe_num doe"
    "yoe_num doe \<le> yoe_num (year_start (k + 1) - 1)"
    using k by (simp_all add: yoe_num_mono)
  ultimately have "y = k" unfolding y_def by (intro int_div_pos_eq[of _ _ _ "yoe_num doe - 365 * k"]) auto
  with k show "0 \<le> y" "y < 400" "year_start y \<le> doe" "doe < year_start (y + 1)" by simp_all
qed

text \<open>The months of the March-based year: start and length of each.\<close>

lemma month_table:
  assumes "0 \<le> doy" "doy \<le> 365"
  defines "mp \<equiv> (5 * doy + 2) div 153"
  defines "m \<equiv> (if mp < 10 then mp + 3 else mp - 9)"
  defines "d \<equiv> doy - (153 * mp + 2) div 5 + 1"
  shows "0 \<le> mp" "mp \<le> 11" "1 \<le> m" "m \<le> 12" "1 \<le> d"
    and "2 < m \<Longrightarrow> sum_list (map (month_days y) [1..m - 1]) + d - 1 =
      doy + 59 + (if leap_year y then 1 else 0)"
    and "m \<le> 2 \<Longrightarrow> sum_list (map (month_days y) [1..m - 1]) + d - 1 = doy - 306"
    and "m \<noteq> 2 \<Longrightarrow> d \<le> month_days y m"
    and "m = 2 \<Longrightarrow> d = doy - 336"
proof -
  have mp: "153 * mp \<le> 5 * doy + 2" "5 * doy + 2 < 153 * mp + 153"
    unfolding mp_def by presburger+
  show mp0: "0 \<le> mp" "mp \<le> 11" using mp assms(1,2) by linarith+
  then have "mp = 0 \<or> mp = 1 \<or> mp = 2 \<or> mp = 3 \<or> mp = 4 \<or> mp = 5 \<or> mp = 6 \<or>
    mp = 7 \<or> mp = 8 \<or> mp = 9 \<or> mp = 10 \<or> mp = 11" by presburger
  then show "1 \<le> m" "m \<le> 12" "1 \<le> d"
    "2 < m \<Longrightarrow> sum_list (map (month_days y) [1..m - 1]) + d - 1 =
      doy + 59 + (if leap_year y then 1 else 0)"
    "m \<le> 2 \<Longrightarrow> sum_list (map (month_days y) [1..m - 1]) + d - 1 = doy - 306"
    "m \<noteq> 2 \<Longrightarrow> d \<le> month_days y m"
    "m = 2 \<Longrightarrow> d = doy - 336"
    using mp assms(2) unfolding m_def d_def by (auto simp: month_days_def upto_rec1)
qed

lemma to_unsigned_id: "0 \<le> x \<Longrightarrow> x < 2 ^ 32 \<Longrightarrow> to_unsigned x = x"
  by (simp add: to_unsigned_def)

lemma year_start_split:
  assumes "0 \<le> yoe" "yoe < 400"
  shows "year_start (yoe + era * 400) = era * 146097 + (365 * yoe + yoe div 4 - yoe div 100)"
proof -
  have "(yoe + era * 400) div 4 = yoe div 4 + era * 100"
    "(yoe + era * 400) div 100 = yoe div 100 + era * 4"
    using div_mult_self1[of 4 yoe "era * 100"] div_mult_self1[of 100 yoe "era * 4"] by simp_all
  moreover have "(yoe + era * 400) div 400 = era" using assms by simp
  ultimately show ?thesis by (simp add: year_start_def leaps_def)
qed

text \<open>The unsigned locals stay in the ranges the source's comments give, so nothing wraps.\<close>

lemma era_year:
  \<comment> \<open>the year a day belongs to, counted from March, and the day in that year\<close>
  fixes w :: int
  assumes "719468 \<le> w"
  defines "doe \<equiv> w mod 146097"
  defines "yoe \<equiv> yoe_num doe div 365"
  defines "Y \<equiv> yoe + w div 146097 * 400"
  defines "doy \<equiv> w - year_start Y"
  shows "doy = doe - (365 * yoe + yoe div 4 - yoe div 100)"
    and "0 \<le> doy" "doy \<le> 364 + (if leap_year (Y + 1) then 1 else 0)" "1969 \<le> Y"
proof -
  have doe: "0 \<le> doe" "doe < 146097" by (simp_all add: doe_def)
  note yoe = yoe_correct[OF doe, folded yoe_def]
  have w: "w = w div 146097 * 146097 + doe" by (simp add: doe_def)
  have ys: "year_start Y = w div 146097 * 146097 + (365 * yoe + yoe div 4 - yoe div 100)"
    using yoe(1,2) unfolding Y_def by (rule year_start_split)
  show doy_eq: "doy = doe - (365 * yoe + yoe div 4 - yoe div 100)"
    using w ys by (simp add: doy_def)
  have ys0: "year_start yoe = 365 * yoe + yoe div 4 - yoe div 100"
    using yoe(1,2) by (simp add: year_start_def leaps_def)
  show "0 \<le> doy" using yoe(3) ys0 doy_eq by simp
  have "n dvd Y + 1 \<longleftrightarrow> n dvd yoe + 1" if "n dvd 400" for n :: int
    using dvd_add_left_iff[of n "w div 146097 * 400" "yoe + 1"] that
    by (simp add: Y_def algebra_simps)
  then have leap: "leap_year (Y + 1) = leap_year (yoe + 1)" by (simp add: leap_year_def)
  have "year_start (yoe + 1) - year_start yoe = 365 + (if leap_year (yoe + 1) then 1 else 0)"
    using leaps_Suc[of "yoe + 1"] by (simp add: year_start_def)
  then show "doy \<le> 364 + (if leap_year (Y + 1) then 1 else 0)"
    using yoe(4) ys0 doy_eq leap by (cases "leap_year (yoe + 1)") simp_all
  have "4 \<le> w div 146097" using assms(1) by simp
  moreover have "4 = w div 146097 \<Longrightarrow> 135080 \<le> doe" using w assms(1) by linarith
  moreover have "135080 \<le> doe \<Longrightarrow> 369 \<le> yoe"
    using yoe_num_mono[of 135080 doe] unfolding yoe_def by (simp add: yoe_num_def)
  ultimately show "1969 \<le> Y" using yoe(1) unfolding Y_def by linarith
qed

lemma civil_from_days_ranges:
  fixes z :: int
  assumes "0 \<le> z"
  defines "w \<equiv> z + 719468"
  defines "doe \<equiv> w mod 146097"
  defines "yoe \<equiv> yoe_num doe div 365"
  defines "Y \<equiv> yoe + w div 146097 * 400"
  defines "doy \<equiv> w - year_start Y"
  defines "mp \<equiv> (5 * doy + 2) div 153"
  defines "m \<equiv> (if mp < 10 then mp + 3 else mp - 9)"
  shows "civil_from_days z =
      (Y + (if m \<le> 2 then 1 else 0), m, doy - (153 * mp + 2) div 5 + 1)"
    and "0 \<le> doy" "doy \<le> 364 + (if leap_year (Y + 1) then 1 else 0)" "1969 \<le> Y"
proof -
  have "719468 \<le> w" using assms(1) by (simp add: w_def)
  note y = era_year[OF this, folded doe_def, folded yoe_def, folded Y_def, folded doy_def]
  show doy0: "0 \<le> doy" and "doy \<le> 364 + (if leap_year (Y + 1) then 1 else 0)" "1969 \<le> Y" by (fact y(2-4))+
  have doy2: "doy \<le> 365" using y(3) by (simp split: if_splits)
  have doe: "0 \<le> doe" "doe < 146097" and w: "w = w div 146097 * 146097 + doe" by (simp_all add: doe_def)
  have mt: "0 \<le> mp" "mp \<le> 11" "1 \<le> doy - (153 * mp + 2) div 5 + 1"
    using month_table(1,2,5)[OF doy0 doy2] unfolding mp_def by simp_all
  have E1: "(if 0 \<le> w then w else w - 146096) sdiv 146097 = w div 146097"
    using assms(1) by (simp add: w_def signed_divide_int_def)
  have E2: "to_unsigned (w - w div 146097 * 146097) = doe"
    using w doe by (simp add: to_unsigned_def)
  have E3: "to_unsigned (doe - doe div 1460 + doe div 36524 - doe div 146096) div 365 = yoe"
    using yoe_num_mono[of 0 doe] yoe_num_mono[of doe 146096] doe
    by (simp add: to_unsigned_def yoe_def yoe_num_def)
  have E4: "to_unsigned (doe - (365 * yoe + yoe div 4 - yoe div 100)) = doy"
    unfolding y(1)[symmetric] using doy0 doy2 by (intro to_unsigned_id) auto
  have E5: "(if mp < 10 then mp + 3 else to_unsigned (mp - 9)) = m"
    using mt by (auto simp: m_def intro: to_unsigned_id)
  have E6: "to_unsigned (doy - (153 * mp + 2) div 5 + 1) = doy - (153 * mp + 2) div 5 + 1"
    using mt doy2 by (intro to_unsigned_id) auto
  show "civil_from_days z =
      (Y + (if m \<le> 2 then 1 else 0), m, doy - (153 * mp + 2) div 5 + 1)"
    by (simp only: civil_from_days_def Let_def w_def[symmetric] E1 E2 E3 E4
        Y_def[symmetric] mp_def[symmetric] E5 E6)
qed

lemma civil_from_days_date:
  assumes "0 \<le> z"
  shows "case civil_from_days z of (y, m, d) \<Rightarrow>
    1970 \<le> y \<and> valid_date y m d \<and> day_number y m d = z"
proof -
  define w where "w = z + 719468"
  define Y where "Y = yoe_num (w mod 146097) div 365 + w div 146097 * 400"
  define doy where "doy = w - year_start Y"
  define mp where "mp = (5 * doy + 2) div 153"
  define m where "m = (if mp < 10 then mp + 3 else mp - 9)"
  define d where "d = doy - (153 * mp + 2) div 5 + 1"
  define y where "y = Y + (if m \<le> 2 then 1 else 0)"
  note r = civil_from_days_ranges[OF assms, folded w_def, folded Y_def, folded doy_def,
      folded mp_def, folded m_def, folded d_def]
  have doy2: "doy \<le> 365" using r(3) by (simp split: if_splits)
  note mt = month_table[OF r(2) doy2, folded mp_def, folded m_def, folded d_def]
  have civil: "civil_from_days z = (y, m, d)" using r(1) by (simp add: y_def)
  have Y: "year_start Y = 365 * Y + leaps Y" "z = year_start Y + doy - 719468"
    by (simp_all add: year_start_def doy_def w_def)
  show ?thesis
  proof (cases "2 < m")
    case True
    then have y: "y = Y" "3 \<le> m" by (simp_all add: y_def)
    have "Y = 1969 \<Longrightarrow> 306 \<le> doy" using Y(2) assms by (simp add: year_start_def leaps_def)
    moreover have "doy < 306" using True mt(2) unfolding m_def mp_def by (simp split: if_splits)
    ultimately have y70: "1970 \<le> Y" using r(4) by fastforce
    have "day_number y m d = z"
      using mt(6)[OF True, of y] sum_year_days[OF y70] leaps_Suc[of Y] Y y
      by (simp add: day_number_def)
    then show ?thesis
      using civil mt(3,4,5) mt(8)[of y] y y70 by (simp add: valid_date_def)
  next
    case False
    then have y: "y = Y + 1" "1970 \<le> y" using r(4) by (simp_all add: y_def)
    have n: "day_number y m d = z"
      using mt(7)[of y] False sum_year_days[OF y(2)] Y y by (simp add: day_number_def)
    have "d \<le> month_days y m"
    proof (cases "m = 2")
      case True
      then show ?thesis using mt(9) r(3) y(1) by (auto simp: month_days_def split: if_splits)
    next
      case False
      then show ?thesis by (rule mt(8))
    qed
    then show ?thesis using civil mt(3,4,5) n y by (simp add: valid_date_def)
  qed
qed

subsection \<open>Round trip of timestamps\<close>

definition timegm_ok :: "(tm \<Rightarrow> int) \<Rightarrow> bool" where
  \<comment> \<open>what \<open>timeutil_timegm64\<close> promises: the seconds from the epoch to a UTC calendar time\<close>
  "timegm_ok timegm = (\<forall>y m d h mi s. 1970 \<le> y \<and> valid_date y m d \<and>
     0 \<le> h \<and> h \<le> 23 \<and> 0 \<le> mi \<and> mi \<le> 59 \<and> 0 \<le> s \<and> s \<le> 59 \<longrightarrow>
     timegm \<lparr>tm_year = y - 1900, tm_mon = m - 1, tm_mday = d, tm_hour = h, tm_min = mi,
       tm_sec = s\<rparr> = day_number y m d * 86400 + h * 3600 + mi * 60 + s)"

definition calendar_timegm :: "tm \<Rightarrow> int" where
  \<comment> \<open>the calendar's own conversion, an instance of the contract\<close>
  "calendar_timegm t = day_number (tm_year t + 1900) (tm_mon t + 1) (tm_mday t) * 86400 +
     tm_hour t * 3600 + tm_min t * 60 + tm_sec t"

lemma calendar_timegm_ok: "timegm_ok calendar_timegm"
  by (simp add: timegm_ok_def calendar_timegm_def)

lemma timegm_okD:
  "timegm_ok timegm \<Longrightarrow> 1970 \<le> y \<Longrightarrow> valid_date y m d \<Longrightarrow> 0 \<le> h \<Longrightarrow> h \<le> 23 \<Longrightarrow> 0 \<le> mi \<Longrightarrow>
   mi \<le> 59 \<Longrightarrow> 0 \<le> s \<Longrightarrow> s \<le> 59 \<Longrightarrow>
   timegm \<lparr>tm_year = y - 1900, tm_mon = m - 1, tm_mday = d, tm_hour = h, tm_min = mi,
     tm_sec = s\<rparr> = day_number y m d * 86400 + h * 3600 + mi * 60 + s"
  by (simp add: timegm_ok_def)

lemma dec_digit_char: "dec_digit x = digit_char (nat (x mod 10))"
proof -
  have "48 + x mod 10 = int (48 + nat (x mod 10))" by simp
  then have "char_of (48 + x mod 10) = (char_of (48 + nat (x mod 10)) :: char)"
    by (metis char_of_nat)
  then show ?thesis by (simp add: dec_digit_def digit_char_def)
qed

lemma dec_digit_simps [simp]:
  "is_digit (dec_digit x)" "int (digit_val (dec_digit x)) = x mod 10"
  "digit_val (dec_digit x) = nat (x mod 10)" "dec_digit x \<noteq> NUL" "dec_digit x \<noteq> CHR ''Z''"
  by (simp_all add: dec_digit_char nat_less_iff)

lemma nsec_digits_length [simp]: "length (nsec_digits k n) = k"
  by (induction k arbitrary: n) simp_all

lemma nsec_digits_digits: "c \<in> set (nsec_digits k n) \<Longrightarrow> is_digit c"
  by (induction k arbitrary: n) auto

lemma nsec_digits_value: "0 \<le> n \<Longrightarrow> int (dec_value 0 (nsec_digits k n)) = n mod 10 ^ k"
proof (induction k arbitrary: n)
  case 0
  then show ?case by simp
next
  case (Suc k)
  then show ?case
    using zmod_zmult2_eq[of "10 ^ k" n 10] by (simp add: mult.commute add.commute)
qed

lemma dec_value_acc: "dec_value acc s = acc * 10 ^ length s + dec_value 0 s"
proof (induction s arbitrary: acc)
  case Nil
  then show ?case by simp
next
  case (Cons c s)
  show ?case
    using Cons[of "acc * 10 + digit_val c"] Cons[of "digit_val c"] by (simp add: algebra_simps)
qed

lemma nsec_loop_digits:
  assumes "\<forall>c\<in>set s. is_digit c" "\<not> is_digit t" "0 \<le> nsec" "nsec + int (dec_value 0 s) < 2 ^ 32"
  shows "nsec_loop (pre @ s @ t # post) (length pre)
    (if s = [] then 0 else 10 ^ (length s - 1)) nsec =
    Some (length pre + length s, nsec + int (dec_value 0 s))"
  using assms
proof (induction s arbitrary: pre nsec)
  case Nil
  then show ?case by (subst nsec_loop.simps) simp
next
  case (Cons c s)
  let ?sc = "(if s = [] then 0 else 10 ^ (length s - 1)) :: int"
  let ?n = "nsec + int (digit_val c) * 10 ^ length s"
  have total: "?n + int (dec_value 0 s) = nsec + int (dec_value 0 (c # s))"
    using dec_value_acc[of "digit_val c" s] by simp
  have scale: "10 ^ length s div 10 = ?sc" by (cases s) simp_all
  have u: "to_unsigned ?n = ?n"
    using Cons.prems total by (intro to_unsigned_id) auto
  have "nsec_loop ((pre @ [c]) @ s @ t # post) (length (pre @ [c])) ?sc ?n =
    Some (length (pre @ [c]) + length s, ?n + int (dec_value 0 s))"
    using Cons.prems total by (intro Cons.IH) auto
  then show ?case
    using Cons.prems(1) u scale total by (subst nsec_loop.simps) simp
qed

lemma four_digits:
  fixes y :: int
  assumes "0 \<le> y" "y < 10000"
  shows "y sdiv 1000 mod 10 * 1000 + y sdiv 100 mod 10 * 100 + y sdiv 10 mod 10 * 10 + y mod 10 = y"
proof -
  have s: "y sdiv n = y div n" if "0 < n" for n :: int
    using assms that by (cases "y = 0") (simp_all add: signed_divide_int_def)
  define a where "a = y div 10"
  define b where "b = a div 10"
  define c where "c = b div 10"
  have "y div 100 = y div 10 div 10" "y div 1000 = y div 10 div 10 div 10"
    by (simp_all flip: zdiv_zmult2_eq)
  then have e: "y sdiv 10 = a" "y sdiv 100 = b" "y sdiv 1000 = c"
    by (simp_all add: s a_def b_def c_def)
  have "0 \<le> c" "c < 10" unfolding a_def b_def c_def using assms by linarith+
  then have "c mod 10 = c" by (rule mod_pos_pos_trivial)
  then show ?thesis
    unfolding e using div_mult_mod_eq[of y 10, folded a_def] div_mult_mod_eq[of a 10, folded b_def]
      div_mult_mod_eq[of b 10, folded c_def] by linarith
qed

lemma split_two:
  assumes "0 \<le> (x::int)" "x < 100"
  shows "x div 10 mod 10 * 10 + x mod 10 = x"
proof -
  have "0 \<le> x div 10" "x div 10 < 10" using assms by linarith+
  then have "x div 10 mod 10 = x div 10" by (rule mod_pos_pos_trivial)
  then show ?thesis using div_mult_mod_eq[of x 10] by simp
qed


lemma dec_value_bound: "\<forall>c\<in>set s. is_digit c \<Longrightarrow> dec_value 0 s < 10 ^ length s"
proof (induction s rule: rev_induct)
  case Nil
  then show ?case by simp
next
  case (snoc c s)
  then have "dec_value 0 s < 10 ^ length s" "digit_val c < 10" by simp_all
  then show ?case by simp
qed

lemma copied_text:
  assumes "length t = 30" "NUL \<notin> set t"
  shows "timeconv_epoch_ns_from_rfc3339 timegm (t @ rest) 30 =
    rfc3339_parse_tmp timegm (t @ NUL # replicate 8 NUL)"
proof -
  let ?tmp = "t @ NUL # replicate 8 NUL"
  have "c_memcpy (replicate 39 NUL) 0 (t @ rest) 30 = Some ?tmp"
    using assms(1) by (simp add: c_memcpy_def wr_block_def numeral_eq_Suc)
  moreover have "wr ?tmp 30 NUL = Some ?tmp"
    using wr_append[of t NUL "replicate 8 NUL" NUL] assms(1) by simp
  moreover have "c_strlen ?tmp = Some 30"
    using cstr_append_NUL[OF assms(2), of "replicate 8 NUL"] assms(1)
    by (simp add: c_strlen_eq terminated_def)
  ultimately show ?thesis
    by (simp add: timeconv_epoch_ns_from_rfc3339_def RFC3339_MAX_LEN_def del: wr_Some)
qed

lemma tail_nanos:
  assumes "length h = 19" "\<forall>c\<in>set ns. is_digit c" "length ns = 9"
  shows "rfc3339_tail ((h @ [CHR ''.'']) @ ns @ CHR ''Z'' # NUL # rest) =
    Some (Some (int (dec_value 0 ns)))"
proof -
  let ?tmp = "(h @ [CHR ''.'']) @ ns @ CHR ''Z'' # NUL # rest"
  have "(if ns = [] then 0 else 10 ^ (length ns - 1)) = (100000000 :: int)"
    using assms(3) by auto
  moreover have "int (dec_value 0 ns) < 2 ^ 32"
    using dec_value_bound[of ns] assms by simp
  ultimately have nanos: "nsec_loop ?tmp 20 100000000 0 = Some (29, int (dec_value 0 ns))"
    using nsec_loop_digits[of ns "CHR ''Z''" 0 "h @ [CHR ''.'']" "NUL # rest"] assms
    by (simp add: is_digit_def del: append_assoc)
  have z: "rd ?tmp 29 = Some (CHR ''Z'')" "rd ?tmp (Suc 29) = Some NUL"
    using rd_append[of "h @ [CHR ''.''] @ ns" "CHR ''Z''" "NUL # rest"]
      rd_append[of "h @ [CHR ''.''] @ ns @ [CHR ''Z'']" NUL rest] assms by simp_all
  have "?tmp ! 19 = CHR ''.''" using assms(1) by (simp add: nth_append)
  then show ?thesis using nanos z by (simp add: rfc3339_tail_def del: append_assoc rd_Some)
qed

lemma parse_fields:
  assumes digits: "\<forall>x\<in>set [y3, y2, y1, y0, m1, m0, d1, d0, h1, h0, n1, n0, s1, s0]. is_digit x"
    and ns: "\<forall>c\<in>set ns. is_digit c" "length ns = 9"
    and year: "year = int (digit_val y3) * 1000 + int (digit_val y2) * 100 +
        int (digit_val y1) * 10 + int (digit_val y0)"
    and mon: "mon = int (digit_val m1) * 10 + int (digit_val m0)"
    and mday: "mday = int (digit_val d1) * 10 + int (digit_val d0)"
    and hour: "hour = int (digit_val h1) * 10 + int (digit_val h0)"
    and min: "mi = int (digit_val n1) * 10 + int (digit_val n0)"
    and sec: "sec = int (digit_val s1) * 10 + int (digit_val s0)"
    and range: "1 \<le> mon" "mon \<le> 12" "1 \<le> mday" "mday \<le> 31" "hour \<le> 23" "mi \<le> 59" "sec \<le> 60"
    and epoch: "timegm \<lparr>tm_year = year - 1900, tm_mon = mon - 1, tm_mday = mday,
        tm_hour = hour, tm_min = mi, tm_sec = sec\<rparr> = e" "0 \<le> e"
  shows "rfc3339_parse_tmp timegm
    (([y3, y2, y1, y0, CHR ''-'', m1, m0, CHR ''-'', d1, d0, CHR ''T'', h1, h0, CHR '':'',
      n1, n0, CHR '':'', s1, s0] @ [CHR ''.'']) @ ns @ CHR ''Z'' # NUL # rest) =
    Some (word_of_int e * word_of_int NS_PER_SEC + word_of_int (int (dec_value 0 ns)))"
proof -
  define tmp where "tmp = ([y3, y2, y1, y0, CHR ''-'', m1, m0, CHR ''-'', d1, d0, CHR ''T'', h1, h0,
      CHR '':'', n1, n0, CHR '':'', s1, s0] @ [CHR ''.'']) @ ns @ CHR ''Z'' # NUL # rest"
  have tail: "rfc3339_tail tmp = Some (Some (int (dec_value 0 ns)))"
    unfolding tmp_def by (rule tail_nanos) (use ns in simp_all)
  have nth: "tmp ! 0 = y3" "tmp ! 1 = y2" "tmp ! 2 = y1" "tmp ! 3 = y0" "tmp ! 4 = CHR ''-''"
    "tmp ! 5 = m1" "tmp ! 6 = m0" "tmp ! 7 = CHR ''-''" "tmp ! 8 = d1" "tmp ! 9 = d0"
    "tmp ! 10 = CHR ''T''" "tmp ! 11 = h1" "tmp ! 12 = h0" "tmp ! 13 = CHR '':''"
    "tmp ! 14 = n1" "tmp ! 15 = n0" "tmp ! 16 = CHR '':''" "tmp ! 17 = s1" "tmp ! 18 = s0"
    by (simp_all add: tmp_def)
  have two: "two_digits tmp 5 = mon" "two_digits tmp 8 = mday" "two_digits tmp 11 = hour"
    "two_digits tmp 14 = mi" "two_digits tmp 17 = sec"
    using nth by (simp_all add: two_digits_def mon mday hour min sec)
  have "[0..<19] = [0, 1, 2, 3, 4, 5, 6, 7, 8, 9, 10, 11, 12, 13, 14, 15, 16, 17, 18]"
    by (simp add: upt_rec)
  then have layout: "rfc3339_layout_ok tmp"
    using digits nth by (simp add: rfc3339_layout_ok_def)
  have "rfc3339_parse_tmp timegm tmp =
    Some (word_of_int e * word_of_int NS_PER_SEC + word_of_int (int (dec_value 0 ns)))"
    using layout tail range epoch
    by (simp add: rfc3339_parse_tmp_def two nth nth(2)[unfolded One_nat_def] Let_def flip: year)
  then show ?thesis unfolding tmp_def .
qed

lemma uint64_less: "uint (t :: 64 word) < 18446744073709551616"
proof -
  have "uint t < 2 ^ LENGTH(64)" by (rule unsigned_less)
  then show ?thesis by simp
qed

text \<open>Times of the 64 bit nanosecond count end in the year 2554.\<close>

lemma civil_year_bound:
  assumes "0 \<le> z" "z \<le> 213503" "civil_from_days z = (y, m, d)"
  shows "1970 \<le> y" "y < 10000"
proof -
  have v: "1970 \<le> y" "valid_date y m d" "day_number y m d = z"
    using civil_from_days_date[OF assms(1)] assms(3) by simp_all
  show "1970 \<le> y" by (rule v(1))
  have months: "0 \<le> sum_list (map (month_days y) [1..m - 1])"
    by (intro sum_list_nonneg) (auto simp: month_days_def)
  have "0 \<le> leaps (y - 1)" using v(1) by (simp add: leaps_def)
  then have "365 * (y - 1970) \<le> z + 477"
    using v(2,3) sum_year_days[OF v(1)] months by (simp add: day_number_def valid_date_def)
  then show "y < 10000" using assms(2) by simp
qed

lemma rfc3339_text_length [simp]: "length (rfc3339_text t) = 30"
  by (simp add: rfc3339_text_def Let_def split: prod.splits)

lemma rfc3339_text_plain [simp]: "NUL \<notin> set (rfc3339_text t)"
  using nsec_digits_digits[of NUL]
  by (auto simp: rfc3339_text_def Let_def dec_digit_simps(4)[symmetric] split: prod.splits)

lemma two_chars:
  "0 \<le> x \<Longrightarrow> x < 100 \<Longrightarrow>
   x = int (digit_val (dec_digit (x div 10))) * 10 + int (digit_val (dec_digit x))"
  unfolding dec_digit_simps(2) by (simp only: split_two)

lemma four_chars:
  "0 \<le> y \<Longrightarrow> y < 10000 \<Longrightarrow>
   y = int (digit_val (dec_digit (y sdiv 1000))) * 1000 + int (digit_val (dec_digit (y sdiv 100))) * 100 +
     int (digit_val (dec_digit (y sdiv 10))) * 10 + int (digit_val (dec_digit y))"
  unfolding dec_digit_simps(2) by (simp only: four_digits)

lemma clock_parts:
  fixes rem :: int
  assumes "0 \<le> rem" "rem < 86400"
  shows "0 \<le> rem div 3600" "rem div 3600 \<le> 23" "0 \<le> rem mod 3600 div 60" "rem mod 3600 div 60 \<le> 59"
    "0 \<le> rem mod 60" "rem mod 60 \<le> 59" "rem div 3600 * 3600 + rem mod 3600 div 60 * 60 + rem mod 60 = rem"
proof -
  show "0 \<le> rem div 3600" "rem div 3600 \<le> 23" "0 \<le> rem mod 3600 div 60" "rem mod 3600 div 60 \<le> 59"
    "0 \<le> rem mod 60" "rem mod 60 \<le> 59" using assms by linarith+
  have "rem mod 60 = rem mod 3600 mod 60" by (simp add: mod_mod_cancel)
  then show "rem div 3600 * 3600 + rem mod 3600 div 60 * 60 + rem mod 60 = rem"
    using div_mult_mod_eq[of rem 3600] div_mult_mod_eq[of "rem mod 3600" 60] by simp
qed

lemma parse_printed_fields:
  \<comment> \<open>the parser reads printed fields back\<close>
  assumes "0 \<le> y" "y < 10000" "1 \<le> m" "m \<le> 12" "1 \<le> d" "d \<le> 31" "0 \<le> hour" "hour \<le> 23" "0 \<le> mi" "mi \<le> 59"
    and "0 \<le> sec" "sec \<le> 59" "0 \<le> secs" "secs \<le> 18446744073" "0 \<le> nsec" "nsec < 10 ^ 9"
    and "timegm \<lparr>tm_year = y - 1900, tm_mon = m - 1, tm_mday = d, tm_hour = hour, tm_min = mi, tm_sec = sec\<rparr> = secs"
  shows "rfc3339_parse_tmp timegm (([dec_digit (y sdiv 1000), dec_digit (y sdiv 100), dec_digit (y sdiv 10),
       dec_digit y, CHR ''-'', dec_digit (m div 10), dec_digit m, CHR ''-'', dec_digit (d div 10), dec_digit d,
       CHR ''T'', dec_digit (hour div 10), dec_digit hour, CHR '':'', dec_digit (mi div 10), dec_digit mi,
       CHR '':'', dec_digit (sec div 10), dec_digit sec] @ [CHR ''.'']) @
      nsec_digits 9 nsec @ CHR ''Z'' # NUL # replicate 8 NUL) =
    Some (word_of_int (secs * NS_PER_SEC + nsec))"
proof -
  have "int (dec_value 0 (nsec_digits 9 nsec)) = nsec" using assms(15,16) by (simp add: nsec_digits_value)
  then have v: "(word_of_int (secs * NS_PER_SEC + nsec) :: 64 word) =
      word_of_int secs * word_of_int NS_PER_SEC + word_of_int (int (dec_value 0 (nsec_digits 9 nsec)))" by simp
  show ?thesis
    unfolding v
  proof (rule parse_fields)
    show "y = int (digit_val (dec_digit (y sdiv 1000))) * 1000 +
      int (digit_val (dec_digit (y sdiv 100))) * 100 +
      int (digit_val (dec_digit (y sdiv 10))) * 10 + int (digit_val (dec_digit y))"
      using assms(1,2) by (rule four_chars)
    show "m = int (digit_val (dec_digit (m div 10))) * 10 + int (digit_val (dec_digit m))"
      "d = int (digit_val (dec_digit (d div 10))) * 10 + int (digit_val (dec_digit d))"
      "hour = int (digit_val (dec_digit (hour div 10))) * 10 + int (digit_val (dec_digit hour))"
      "mi = int (digit_val (dec_digit (mi div 10))) * 10 + int (digit_val (dec_digit mi))"
      "sec = int (digit_val (dec_digit (sec div 10))) * 10 + int (digit_val (dec_digit sec))"
      using assms by (intro two_chars; linarith)+
    show "timegm \<lparr>tm_year = y - 1900, tm_mon = m - 1, tm_mday = d, tm_hour = hour, tm_min = mi, tm_sec = sec\<rparr> = secs"
      by (fact assms(17))
  qed (use assms nsec_digits_digits in simp_all)
qed

lemma parse_text:
  assumes "timegm_ok timegm"
  shows "timeconv_epoch_ns_from_rfc3339 timegm (rfc3339_text t @ rest) 30 = Some t"
proof -
  define secs nsec where "secs = uint t div NS_PER_SEC" and "nsec = uint t mod NS_PER_SEC"
  define days rem where "days = secs div 86400" and "rem = secs mod 86400"
  define hour mi sec where "hour = rem div 3600" and "mi = (rem mod 3600) div 60" and "sec = rem mod 60"
  obtain y m d where civil: "civil_from_days days = (y, m, d)" by (cases "civil_from_days days")
  have nsec: "0 \<le> nsec" "nsec < 10 ^ 9" by (simp_all add: nsec_def NS_PER_SEC_def)
  have "0 \<le> rem" "rem < 86400" by (simp_all add: rem_def)
  note hms = clock_parts[OF this, folded hour_def mi_def sec_def]
  have secs: "0 \<le> secs" "secs \<le> 18446744073" "days * 86400 + rem = secs"
    using uint64_less[of t] unsigned_greater_eq[of t]
    by (simp_all add: secs_def NS_PER_SEC_def days_def rem_def pos_imp_zdiv_nonneg_iff)
  then have days: "0 \<le> days" "days \<le> 213503" unfolding days_def by linarith+
  note ymd = civil_from_days_date[OF days(1), unfolded civil, simplified]
  have yb: "0 \<le> y" "y < 10000" using civil_year_bound[OF days civil] by auto
  have md: "1 \<le> m" "m \<le> 12" "1 \<le> d" "d \<le> 31"
    using ymd by (auto simp: valid_date_def month_days_def split: if_splits)
  have tg: "timegm \<lparr>tm_year = y - 1900, tm_mon = m - 1, tm_mday = d, tm_hour = hour,
      tm_min = mi, tm_sec = sec\<rparr> = secs"
    using timegm_okD[OF assms, of y m d hour mi sec] ymd hms secs(3) by simp
  note p = parse_printed_fields[of y m d hour mi sec secs nsec timegm, OF yb md hms(1-6) secs(1,2) nsec tg]
  have "timeconv_epoch_ns_from_rfc3339 timegm (rfc3339_text t @ rest) 30 = Some (word_of_int (secs * NS_PER_SEC + nsec))"
    using copied_text[OF rfc3339_text_length rfc3339_text_plain, of timegm t rest] p
    by (simp add: rfc3339_text_def Let_def civil flip: secs_def nsec_def days_def rem_def hour_def mi_def sec_def)
  also have "secs * NS_PER_SEC + nsec = uint t" by (simp add: secs_def nsec_def)
  finally show ?thesis by simp
qed

lemma format_spec:
  assumes "31 \<le> length buf" "31 \<le> n"
  shows "timeconv_rfc3339_from_epoch_ns_utc t buf n =
    Some (0, rfc3339_text t @ NUL # drop 31 buf)"
  using assms by (simp add: timeconv_rfc3339_from_epoch_ns_utc_def RFC3339_MAX_LEN_def wr_block_def)

text \<open>
  A library whose \<open>timeutil_timegm64\<close> keeps its promise turns the two routines into a text
  codec of every 64 bit time.
\<close>

locale utc_library =
  fixes timegm :: "tm \<Rightarrow> int"
  assumes timegm: "timegm_ok timegm"

sublocale utc_library \<subseteq> rfc3339: text_codec
  "\<lambda>t buf. map_option snd (timeconv_rfc3339_from_epoch_ns_utc t buf (length buf))"
  "\<lambda>b. timeconv_epoch_ns_from_rfc3339 timegm b 30" rfc3339_text "\<lambda>t. True" 31
  by unfold_locales (simp_all add: format_spec parse_text timegm)

interpretation utc: utc_library calendar_timegm
  by unfold_locales (rule calendar_timegm_ok)

lemma nsec_loop_total:
  assumes "i \<le> l" "l < length tmp" "tmp ! l = NUL"
  shows "\<exists>j n. nsec_loop tmp i scale nsec = Some (j, n) \<and> j \<le> l"
  using assms
proof (induction tmp i scale nsec rule: nsec_loop.induct)
  case (1 tmp i scale nsec)
  show ?case
  proof (cases "is_digit (tmp ! i)")
    case True
    then have "i \<noteq> l" using "1.prems" by auto
    then have "Suc i \<le> l" using "1.prems" by simp
    then show ?thesis using 1 True by (subst nsec_loop.simps) auto
  next
    case False
    then show ?thesis using "1.prems" by (subst nsec_loop.simps) auto
  qed
qed

lemma rfc3339_tail_total:
  assumes "20 \<le> l" "l < length tmp" "tmp ! l = NUL"
  shows "rfc3339_tail tmp \<noteq> None"
proof -
  obtain i n where i: "(if tmp ! 19 = CHR ''.'' then nsec_loop tmp 20 100000000 0 else Some (19, 0)) =
      Some (i, n)" "i \<le> l"
    using nsec_loop_total[OF assms(1,2,3), of 100000000 0] assms(1) by (cases "tmp ! 19 = CHR ''.''") auto
  have "tmp ! i = CHR ''Z'' \<Longrightarrow> Suc i < length tmp"
    using i(2) assms by (cases "i = l") auto
  then show ?thesis using i assms(2) by (simp add: rfc3339_tail_def)
qed

lemma parse_total:
  assumes "n \<le> length buf"
  shows "timeconv_epoch_ns_from_rfc3339 timegm buf n \<noteq> None"
proof (cases "n = 0")
  case True
  then show ?thesis by (simp add: timeconv_epoch_ns_from_rfc3339_def)
next
  case False
  define cpy where "cpy = (if n < 38 then n else 38)"
  define tmp where "tmp = take cpy buf @ NUL # replicate (38 - cpy) NUL"
  have cpy: "cpy \<le> 38" "cpy \<le> length buf" using assms by (auto simp: cpy_def)
  have copy: "c_memcpy (replicate 39 NUL) 0 buf cpy = Some tmp"
    using cpy by (simp add: c_memcpy_def wr_block_def tmp_def Suc_diff_le flip: replicate_Suc)
  have w: "wr tmp cpy NUL = Some tmp"
    using wr_append'[of cpy "take cpy buf" NUL _ NUL] cpy by (simp add: tmp_def)
  have trm: "terminated tmp" by (simp add: tmp_def terminated_def)
  have len: "c_strlen tmp = Some (length (cstr tmp))" using trm by (simp add: c_strlen_eq)
  have "rfc3339_parse_tmp timegm tmp \<noteq> None" if "20 \<le> length (cstr tmp)"
    using rfc3339_tail_total[OF that length_cstr_less[OF trm] nth_length_cstr[OF trm]]
    by (auto simp: rfc3339_parse_tmp_def Let_def split: option.splits)
  then show ?thesis
    using False copy w len unfolding cpy_def
    by (cases "n < 38")
      (simp_all add: timeconv_epoch_ns_from_rfc3339_def RFC3339_MAX_LEN_def Let_def del: wr_Some)
qed

subsection \<open>Properties\<close>

text \<open>
  C1: Every 64 bit time in nanoseconds survives printing as RFC 3339 text and parsing that text,
  for any \<open>timeutil_timegm64\<close> that converts calendar times correctly; the text has 30 characters.
\<close>

theorem timestamp_roundtrip:
  assumes "timegm_ok timegm" "31 \<le> length buf"
  shows "\<exists>buf'. timeconv_rfc3339_from_epoch_ns_utc t buf (length buf) = Some (0, buf') \<and>
    length (cstr buf') = 30 \<and> timeconv_epoch_ns_from_rfc3339 timegm buf' 30 = Some t"
  using format_spec[OF assms(2) assms(2), of t] parse_text[OF assms(1), of t] by simp

theorem timestamp_roundtrip_witness:
  "\<exists>buf'. timeconv_rfc3339_from_epoch_ns_utc 1785499200123456789 (replicate 31 NUL) 31 = Some (0, buf') \<and>
    timeconv_epoch_ns_from_rfc3339 calendar_timegm buf' 30 = Some 1785499200123456789"
  using timestamp_roundtrip[OF calendar_timegm_ok, of "replicate 31 NUL" 1785499200123456789] by auto



text \<open>
  C14: The parser reads and writes only inside its objects for every input of the stated length,
  terminated or not, and whatever the time library returns.
\<close>

theorem rfc3339_parse_safe:
  assumes "n \<le> length buf"
  shows "\<exists>t. timeconv_epoch_ns_from_rfc3339 timegm buf n = Some t"
  using parse_total[OF assms, of timegm] by blast

theorem rfc3339_parse_safe_witness:
  "\<exists>t. timeconv_epoch_ns_from_rfc3339 calendar_timegm (replicate 20 (CHR ''9'')) 20 = Some t"
  using rfc3339_parse_safe[of 20 "replicate 20 (CHR ''9'')"] by simp

text \<open>
  A time after the year 2554 wraps: the parser accepts the first second of 2610 and returns a
  time in June 2025, where zero is its answer to what it cannot represent.
\<close>

lemma rfc3339_parse_wraps:
  "timeconv_epoch_ns_from_rfc3339 calendar_timegm (lit ''2610-01-01T00:00:00Z'') 20 =
     Some 1749687926290448384"
  by code_simp

text \<open>
  The local copy of 38 characters decides what the parser sees: characters after the Z are
  ignored from position 38 on, and a fraction of 18 digits is refused.
\<close>

lemma rfc3339_parse_truncates:
  "timeconv_epoch_ns_from_rfc3339 calendar_timegm
     (lit ''2026-07-31T12:00:00.12345678901234567Zjunk'') 42 = Some 1785499200123456789 \<and>
   timeconv_epoch_ns_from_rfc3339 calendar_timegm
     (lit ''2026-07-31T12:00:00.123456789012345678Z'') 39 = Some 0"
  by (intro conjI; code_simp)

end
