(* ===== verification/Point.thy ===== *)
theory Point
  imports Siot_String Timeconv
begin

text \<open>
  include/point.h and lib/point.c up to the JSON section: the point, its setters and getters,
  its text renderings and the merge of a point into an array of points.
\<close>

subsection \<open>Data\<close>

record point =
  p_time :: "64 word"
  p_type :: bytes
  p_key :: bytes
  p_data_type :: "8 word"
  p_data :: bytes

definition TYPE_LEN :: nat where [simp]: "TYPE_LEN = 24"
definition KEY_LEN :: nat where [simp]: "KEY_LEN = 23"
definition DATA_LEN :: nat where [simp]: "DATA_LEN = 20"

definition POINT_TIME_MIN :: "64 word" where "POINT_TIME_MIN = 1577836800000000000"

definition POINT_DATA_TYPE_UNKNOWN :: "8 word" where [simp]: "POINT_DATA_TYPE_UNKNOWN = 0"
definition POINT_DATA_TYPE_FLOAT :: "8 word" where [simp]: "POINT_DATA_TYPE_FLOAT = 1"
definition POINT_DATA_TYPE_INT :: "8 word" where [simp]: "POINT_DATA_TYPE_INT = 2"
definition POINT_DATA_TYPE_STRING :: "8 word" where [simp]: "POINT_DATA_TYPE_STRING = 3"
definition POINT_DATA_TYPE_JSON :: "8 word" where [simp]: "POINT_DATA_TYPE_JSON = 4"
definition POINT_DATA_TYPE_END :: "8 word" where [simp]: "POINT_DATA_TYPE_END = 5"

record point_def =
  pd_type :: bytes
  pd_data_type :: int

definition point_def_description :: point_def where
  "point_def_description = \<lparr>pd_type = lit ''description'', pd_data_type = 3\<rparr>"
definition point_def_staticip :: point_def where
  "point_def_staticip = \<lparr>pd_type = lit ''staticIP'', pd_data_type = 2\<rparr>"
definition point_def_address :: point_def where
  "point_def_address = \<lparr>pd_type = lit ''address'', pd_data_type = 3\<rparr>"
definition point_def_netmask :: point_def where
  "point_def_netmask = \<lparr>pd_type = lit ''netmask'', pd_data_type = 3\<rparr>"
definition point_def_gateway :: point_def where
  "point_def_gateway = \<lparr>pd_type = lit ''gateway'', pd_data_type = 3\<rparr>"
definition point_def_metric_sys_cpu_percent :: point_def where
  "point_def_metric_sys_cpu_percent =
     \<lparr>pd_type = lit ''metricSysCPUPercent'', pd_data_type = 1\<rparr>"
definition point_def_uptime :: point_def where
  "point_def_uptime = \<lparr>pd_type = lit ''uptime'', pd_data_type = 2\<rparr>"
definition point_def_temperature :: point_def where
  "point_def_temperature = \<lparr>pd_type = lit ''temp'', pd_data_type = 1\<rparr>"
definition point_def_board :: point_def where
  "point_def_board = \<lparr>pd_type = lit ''board'', pd_data_type = 3\<rparr>"
definition point_def_boot_count :: point_def where
  "point_def_boot_count = \<lparr>pd_type = lit ''bootCount'', pd_data_type = 2\<rparr>"

definition point_zero :: point where
  \<comment> \<open>\<open>point p = {}\<close>\<close>
  "point_zero = \<lparr>p_time = 0, p_type = replicate TYPE_LEN NUL, p_key = replicate KEY_LEN NUL,
     p_data_type = 0, p_data = replicate DATA_LEN NUL\<rparr>"

subsection \<open>Fields\<close>

definition copy_str_field :: "bytes \<Rightarrow> bytes \<Rightarrow> nat \<Rightarrow> bytes option" where
  \<comment> \<open>the length test of the source only decides whether a warning is logged\<close>
  "copy_str_field dest src dest_len =
     (if dest_len = 0 then None
      else do {
        l \<leftarrow> c_strlen src;
        dest \<leftarrow> c_strncpy dest 0 src (dest_len - 1);
        wr dest (dest_len - 1) NUL
      })"

definition point_set_type :: "point \<Rightarrow> bytes \<Rightarrow> point option" where
  "point_set_type p t = do {
     f \<leftarrow> copy_str_field (p_type p) t TYPE_LEN;
     Some (p\<lparr>p_type := f\<rparr>)
   }"

definition point_set_key :: "point \<Rightarrow> bytes \<Rightarrow> point option" where
  "point_set_key p k = do {
     f \<leftarrow> copy_str_field (p_key p) k KEY_LEN;
     Some (p\<lparr>p_key := f\<rparr>)
   }"

definition point_set_type_key :: "point \<Rightarrow> bytes \<Rightarrow> bytes \<Rightarrow> point option" where
  "point_set_type_key p t k = do {
     ft \<leftarrow> copy_str_field (p_type p) t TYPE_LEN;
     fk \<leftarrow> copy_str_field (p_key p) k KEY_LEN;
     Some (p\<lparr>p_type := ft, p_key := fk\<rparr>)
   }"

text \<open>The four bytes of a 32 bit object, little endian as on every supported target.\<close>

definition word_bytes :: "32 word \<Rightarrow> bytes" where
  "word_bytes w = map (\<lambda>i. char_of (uint w div 256 ^ i)) [0, 1, 2, 3]"

definition bytes_word :: "bytes \<Rightarrow> 32 word" where
  "bytes_word b = word_of_int (of_char (b ! 0) + 256 * of_char (b ! 1) + 65536 * of_char (b ! 2) +
     16777216 * of_char (b ! 3))"

definition point_get_int :: "point \<Rightarrow> int" where
  "point_get_int p = sint (bytes_word (p_data p))"

definition point_get_float :: "point \<Rightarrow> f32" where
  "point_get_float p = bytes_word (p_data p)"

definition point_get_string :: "point \<Rightarrow> bytes \<Rightarrow> int \<Rightarrow> bytes option" where
  "point_get_string p dest len =
     (if len \<le> 0 then Some dest else copy_str_field dest (p_data p) (nat len))"

definition point_put_int :: "point \<Rightarrow> int \<Rightarrow> point" where
  "point_put_int p v = p\<lparr>p_data_type := POINT_DATA_TYPE_INT,
     p_data := word_bytes (word_of_int v) @ drop 4 (p_data p)\<rparr>"

definition point_put_float :: "point \<Rightarrow> f32 \<Rightarrow> point" where
  "point_put_float p v = p\<lparr>p_data_type := POINT_DATA_TYPE_FLOAT,
     p_data := word_bytes v @ drop 4 (p_data p)\<rparr>"

definition point_put_string :: "point \<Rightarrow> bytes \<Rightarrow> point option" where
  "point_put_string p v = do {
     f \<leftarrow> copy_str_field (p_data p) v DATA_LEN;
     Some (p\<lparr>p_data_type := POINT_DATA_TYPE_STRING, p_data := f\<rparr>)
   }"

definition point_data_len :: "point \<Rightarrow> int option" where
  "point_data_len p =
     (if p_data_type p = POINT_DATA_TYPE_INT \<or> p_data_type p = POINT_DATA_TYPE_FLOAT then Some 4
      else if p_data_type p = POINT_DATA_TYPE_STRING
      then do { n \<leftarrow> c_strnlen (p_data p) (DATA_LEN - 1); Some (int n + 1) }
      else Some 0)"

subsection \<open>Text renderings\<close>

definition point_data_to_string :: "point \<Rightarrow> bytes \<Rightarrow> nat \<Rightarrow> (int \<times> bytes) option" where
  "point_data_to_string p buf buf_len =
     (if buf_len = 0 then Some (-1, buf)
      else if p_data_type p = POINT_DATA_TYPE_FLOAT
      then do { buf \<leftarrow> ftoa (point_get_float p) buf 4; Some (0, buf) }
      else if p_data_type p = POINT_DATA_TYPE_INT
      then do { buf \<leftarrow> itoa (point_get_int p) buf 10; Some (0, buf) }
      else if p_data_type p = POINT_DATA_TYPE_STRING \<or> p_data_type p = POINT_DATA_TYPE_JSON
      then do {
        buf \<leftarrow> c_strncpy buf 0 (p_data p) (buf_len - 1);
        buf \<leftarrow> wr buf (buf_len - 1) NUL;
        Some (0, buf)
      }
      else do { buf \<leftarrow> wr buf 0 NUL; Some (-1, buf) })"

text \<open>\<open>printf("%f")\<close> of a float: six decimals, correctly rounded.\<close>

definition pad_digits :: "nat \<Rightarrow> string \<Rightarrow> string" where
  "pad_digits n s = replicate (n - length s) (CHR ''0'') @ s"

definition printf_f :: "f32 \<Rightarrow> string" where
  "printf_f v =
     (let sign = (if f32_neg v then ''-'' else '''')
      in if f32_is_nan v then sign @ ''nan''
         else if f32_is_inf v then sign @ ''inf''
         else let m = rne (\<bar>f32_val v\<bar> * 1000000)
              in sign @ dec_int (m div 1000000) @ ''.'' @ pad_digits 6 (dec_int (m mod 1000000)))"

definition dump_put :: "nat \<Rightarrow> string \<Rightarrow> bytes \<times> int \<times> int \<Rightarrow> (bytes \<times> int \<times> int) option" where
  \<comment> \<open>\<open>cnt = snprintf(buf + offset, remaining, ...); offset += cnt; remaining -= cnt;\<close>
    with \<open>buf\<close> at \<open>base\<close> of its object; \<open>remaining\<close> is converted to size_t by the call\<close>
  "dump_put base s st = (case st of (buf, offset, remaining) \<Rightarrow> do {
     (cnt, buf) \<leftarrow> c_snprintf buf (base + nat offset) (size_t_of_int remaining) s;
     Some (buf, offset + cnt, remaining - cnt)
   })"

definition dump_value :: "point \<Rightarrow> string option" where
  \<comment> \<open>the expansion of the format of each case of the switch\<close>
  "dump_value p =
     (if p_data_type p = POINT_DATA_TYPE_INT then Some (''INT: '' @ dec_int (point_get_int p))
      else if p_data_type p = POINT_DATA_TYPE_FLOAT
      then Some (''FLT: '' @ printf_f (point_get_float p))
      else if p_data_type p = POINT_DATA_TYPE_STRING
      then (if terminated (p_data p) then Some (''STR: '' @ cstr (p_data p)) else None)
      else if p_data_type p = POINT_DATA_TYPE_UNKNOWN then Some ''unknown point type''
      else Some ''invalid point type'')"

definition point_dump :: "point \<Rightarrow> bytes \<Rightarrow> nat \<Rightarrow> nat \<Rightarrow> (int \<times> bytes) option" where
  \<comment> \<open>\<open>point_dump(p, buf, len)\<close>, for a pointer \<open>buf\<close> to offset \<open>base\<close> of an object\<close>
  "point_dump p buf base len =
     (let remaining = int len - 1
      in if remaining \<le> 0 then Some (-1, buf)
         else do {
           type \<leftarrow> (if terminated (p_type p) then Some (cstr (p_type p)) else None);
           st \<leftarrow> dump_put base type (buf, 0, remaining);
           kl \<leftarrow> c_strlen (p_key p);
           st \<leftarrow> dump_put base (if 0 < kl then ''.'' @ cstr (p_key p) @ '': '' else '': '') st;
           v \<leftarrow> dump_value p;
           (buf, offset, remaining) \<leftarrow> dump_put base v st;
           Some (offset, buf)
         })"

definition DUMP_BULLET :: bytes where
  \<comment> \<open>carriage return, newline, tab, dash, space\<close>
  "DUMP_BULLET = [CHR 0x0D, CHR 0x0A, CHR 0x09, CHR ''-'', CHR '' '', NUL]"

fun points_dump_loop :: "point list \<Rightarrow> bytes \<Rightarrow> int \<Rightarrow> int \<Rightarrow> (int \<times> bytes) option" where
  "points_dump_loop [] buf offset remaining = Some (offset, buf)"
| "points_dump_loop (p # pts) buf offset remaining = do {
     c \<leftarrow> rd (p_type p) 0;
     if c = NUL then points_dump_loop pts buf offset remaining
     else if remaining < 6 then Some (offset, buf)
     else do {
       buf \<leftarrow> c_strncpy buf (nat offset) DUMP_BULLET (nat remaining);
       (cnt, buf) \<leftarrow> point_dump p buf (nat (offset + 5)) (nat (remaining - 5));
       points_dump_loop pts buf (offset + 5 + cnt) (remaining - 5 - cnt)
     }
   }"

definition points_dump :: "point list \<Rightarrow> bytes \<Rightarrow> nat \<Rightarrow> (int \<times> bytes) option" where
  "points_dump pts buf buf_len =
     (if buf_len = 0 then Some (- ENOMEM, buf)
      else do {
        buf \<leftarrow> wr buf 0 NUL;
        points_dump_loop pts buf 0 (int buf_len - 1)
      })"

subsection \<open>Merging\<close>

definition bad_data_type :: "point \<Rightarrow> bool" where
  \<comment> \<open>\<open>data_type == POINT_DATA_TYPE_UNKNOWN || data_type >= POINT_DATA_TYPE_END\<close>\<close>
  "bad_data_type p =
     (p_data_type p = POINT_DATA_TYPE_UNKNOWN \<or> POINT_DATA_TYPE_END \<le> p_data_type p)"

function merge_loop :: "point list \<Rightarrow> point \<Rightarrow> nat \<Rightarrow> nat option \<Rightarrow> (int \<times> point list) option" where
  "merge_loop pts p i empty_i =
     (if i < length pts then do {
        let q = pts ! i;
        c \<leftarrow> rd (p_type q) 0;
        if c = NUL then
          merge_loop pts p (Suc i) (if empty_i = None then Some i else empty_i)
        else if bad_data_type q then merge_loop pts p (Suc i) empty_i
        else do {
          same_type \<leftarrow> c_strneq TYPE_LEN (p_type q) (p_type p);
          same_key \<leftarrow> (if same_type then c_strneq KEY_LEN (p_key q) (p_key p) else Some False);
          if same_key then Some (0, pts[i := p]) else merge_loop pts p (Suc i) empty_i
        }
      }
      else case empty_i of
        Some e \<Rightarrow> Some (0, pts[e := p])
      | None \<Rightarrow> Some (- ENOMEM, pts))"
  by pat_completeness auto
termination
  by (relation "measure (\<lambda>(pts, p, i, empty_i). length pts - i)") auto

declare merge_loop.simps [simp del]

definition points_merge :: "point list \<Rightarrow> point \<Rightarrow> (int \<times> point list \<times> point) option" where
  \<comment> \<open>the point is passed by reference and an empty key is replaced in it\<close>
  "points_merge pts p = do {
     k0 \<leftarrow> rd (p_key p) 0;
     p \<leftarrow> (if k0 = NUL
           then do { k \<leftarrow> c_strcpy (p_key p) (lit ''0''); Some (p\<lparr>p_key := k\<rparr>) } else Some p);
     (ret, pts) \<leftarrow> merge_loop pts p 0 None;
     Some (ret, pts, p)
   }"

lemma bad_data_type_iff: "bad_data_type p \<longleftrightarrow> p_data_type p \<notin> {1, 2, 3, 4}"
proof -
  have e: "5 \<le> t \<longleftrightarrow> t \<notin> {0, 1, 2, 3, 4}" for t :: "8 word"
  proof
    show "5 \<le> t \<Longrightarrow> t \<notin> {0, 1, 2, 3, 4}" by (auto simp: word_le_nat_alt)
    show "5 \<le> t" if t: "t \<notin> {0, 1, 2, 3, 4}"
    proof (rule ccontr)
      assume "\<not> 5 \<le> t"
      then have "unat t < 5" by (simp add: word_le_nat_alt)
      then show False using t by (auto simp: word_unat_eq_iff)
    qed
  qed
  show ?thesis
    unfolding bad_data_type_def POINT_DATA_TYPE_UNKNOWN_def POINT_DATA_TYPE_END_def e by auto
qed

subsection \<open>Lemmas: fields\<close>

definition field_of :: "nat \<Rightarrow> string \<Rightarrow> bytes" where
  \<comment> \<open>the contents a fixed length field of \<open>n\<close> bytes has after a string is stored in it\<close>
  "field_of n s = take (n - 1) (s @ replicate (n - 1) NUL) @ [NUL]"

lemma field_of_length [simp]: "0 < n \<Longrightarrow> length (field_of n s) = n"
  by (simp add: field_of_def)

lemma field_of_terminated [simp]: "terminated (field_of n s)"
  by (simp add: field_of_def terminated_def)

lemma cstr_replicate: "cstr (replicate n NUL @ r) = (if n = 0 then cstr r else [])"
  by (cases n) simp_all

lemma cstr_append_plain: "NUL \<notin> set s \<Longrightarrow> cstr (s @ r) = s @ cstr r"
  by (induction s) auto

lemma field_of_cstr: 
  assumes "NUL \<notin> set s"
  shows "cstr (field_of n s) = take (n - 1) s"
proof -
  have "NUL \<notin> set (take (n - 1) s)" using assms by (meson in_set_takeD)
  moreover have "field_of n s = take (n - 1) s @ replicate (n - 1 - length s) NUL @ [NUL]"
    by (simp add: field_of_def)
  ultimately show ?thesis by (simp add: cstr_append_plain cstr_replicate)
qed

lemma copy_str_field_spec:
  assumes "terminated src" "0 < n" "n \<le> length dest"
  shows "copy_str_field dest src n = Some (field_of n (cstr src) @ drop n dest)"
proof -
  let ?s = "take (n - 1) (cstr src @ replicate (n - 1) NUL)"
  have "n - 1 < length dest" using assms by simp
  then have d: "drop (n - 1) dest = dest ! (n - 1) # drop n dest"
    using assms(2) Cons_nth_drop_Suc[of "n - 1" dest] by simp
  have "c_strncpy dest 0 src (n - 1) = Some (?s @ drop (n - 1) dest)"
    using assms by (intro c_strncpy_0) auto
  moreover have "wr (?s @ drop (n - 1) dest) (n - 1) NUL = Some (?s @ NUL # drop n dest)"
    unfolding d by (rule wr_append') simp
  ultimately show ?thesis
    using assms by (simp add: copy_str_field_def c_strlen_eq field_of_def del: wr_Some)
qed

lemma copy_str_field_unterminated: "\<not> terminated src \<Longrightarrow> copy_str_field dest src n = None"
  by (simp add: copy_str_field_def c_strlen_eq)

subsection \<open>Lemmas: well-formed points\<close>

text \<open>
  The invariant of every point the program holds: the fields have the sizes of the struct, and
  the two names are C strings. The data field is a C string when the point carries text.
\<close>

definition point_wf :: "point \<Rightarrow> bool" where
  "point_wf p = (length (p_type p) = TYPE_LEN \<and> terminated (p_type p) \<and>
     length (p_key p) = KEY_LEN \<and> terminated (p_key p) \<and> length (p_data p) = DATA_LEN)"

definition text_wf :: "point \<Rightarrow> bool" where
  "text_wf p = (p_data_type p \<in> {POINT_DATA_TYPE_STRING, POINT_DATA_TYPE_JSON} \<longrightarrow>
     terminated (p_data p))"

definition point_type :: "point \<Rightarrow> string" where "point_type p = cstr (p_type p)"
definition point_key :: "point \<Rightarrow> string" where "point_key p = cstr (p_key p)"

lemma point_wfD:
  assumes "point_wf p"
  shows "length (p_type p) = 24" "terminated (p_type p)" "length (p_key p) = 23"
    "terminated (p_key p)" "length (p_data p) = 20"
  using assms by (simp_all add: point_wf_def)

lemma point_zero_wf [simp]: "point_wf point_zero" "text_wf point_zero"
  by (simp_all add: point_wf_def text_wf_def point_zero_def terminated_def)

lemma point_set_type_key_spec:
  assumes "point_wf p" "terminated t" "terminated k"
  shows "point_set_type_key p t k =
    Some (p\<lparr>p_type := field_of 24 (cstr t), p_key := field_of 23 (cstr k)\<rparr>)"
  using assms point_wfD[OF assms(1)] by (simp add: point_set_type_key_def copy_str_field_spec)

lemma point_set_type_spec:
  "point_wf p \<Longrightarrow> terminated t \<Longrightarrow> point_set_type p t = Some (p\<lparr>p_type := field_of 24 (cstr t)\<rparr>)"
  using point_wfD[of p] by (simp add: point_set_type_def copy_str_field_spec)

lemma point_set_key_spec:
  "point_wf p \<Longrightarrow> terminated k \<Longrightarrow> point_set_key p k = Some (p\<lparr>p_key := field_of 23 (cstr k)\<rparr>)"
  using point_wfD[of p] by (simp add: point_set_key_def copy_str_field_spec)

lemma point_put_string_spec:
  "point_wf p \<Longrightarrow> terminated v \<Longrightarrow> point_put_string p v =
    Some (p\<lparr>p_data_type := POINT_DATA_TYPE_STRING, p_data := field_of 20 (cstr v)\<rparr>)"
  using point_wfD[of p] by (simp add: point_put_string_def copy_str_field_spec)

lemma setters_wf:
  assumes "point_wf p"
  shows "point_set_type_key p t k = Some q \<Longrightarrow> point_wf q \<and> (text_wf p \<longrightarrow> text_wf q)"
    and "point_set_type p t = Some q \<Longrightarrow> point_wf q \<and> (text_wf p \<longrightarrow> text_wf q)"
    and "point_set_key p k = Some q \<Longrightarrow> point_wf q \<and> (text_wf p \<longrightarrow> text_wf q)"
    and "point_put_string p v = Some q \<Longrightarrow> point_wf q \<and> text_wf q"
    and "point_wf (point_put_int p n) \<and> text_wf (point_put_int p n)"
    and "point_wf (point_put_float p f) \<and> text_wf (point_put_float p f)"
proof -
  have c: "terminated b" if "copy_str_field d b n = Some r" for d b n r
    using that copy_str_field_unterminated by fastforce
  show "point_set_type_key p t k = Some q \<Longrightarrow> point_wf q \<and> (text_wf p \<longrightarrow> text_wf q)"
    using assms c point_set_type_key_spec[OF assms, of t k]
    by (auto simp: point_set_type_key_def point_wf_def text_wf_def dest: c split: Option.bind_splits)
  show "point_set_type p t = Some q \<Longrightarrow> point_wf q \<and> (text_wf p \<longrightarrow> text_wf q)"
    using assms point_set_type_spec[OF assms, of t]
    by (auto simp: point_set_type_def point_wf_def text_wf_def dest: c split: Option.bind_splits)
  show "point_set_key p k = Some q \<Longrightarrow> point_wf q \<and> (text_wf p \<longrightarrow> text_wf q)"
    using assms point_set_key_spec[OF assms, of k]
    by (auto simp: point_set_key_def point_wf_def text_wf_def dest: c split: Option.bind_splits)
  show "point_put_string p v = Some q \<Longrightarrow> point_wf q \<and> text_wf q"
    using assms point_put_string_spec[OF assms, of v]
    by (auto simp: point_put_string_def point_wf_def text_wf_def dest: c split: Option.bind_splits)
  show "point_wf (point_put_int p n) \<and> text_wf (point_put_int p n)"
    "point_wf (point_put_float p f) \<and> text_wf (point_put_float p f)"
    using assms by (simp_all add: point_wf_def text_wf_def point_put_int_def point_put_float_def
        word_bytes_def)
qed

subsection \<open>Lemmas: values\<close>

lemma bytes_word_bytes: "bytes_word (word_bytes w @ r) = w"
proof -
  define u where "u = uint w"
  define a where "a = u div 256"
  define b where "b = a div 256"
  define c where "c = b div 256"
  have u: "0 \<le> u" "u < 4294967296" using uint_lt2p[of w] by (simp_all add: u_def)
  have d: "u div 256 ^ 2 = b" "u div 256 ^ 3 = c"
    by (simp_all add: a_def b_def c_def power2_eq_square power3_eq_cube flip: zdiv_zmult2_eq)
  have "0 \<le> c" "c < 256" using u unfolding a_def b_def c_def by linarith+
  then have c: "c mod 256 = c" by (rule mod_pos_pos_trivial)
  have "u mod 256 + 256 * (a mod 256) + 65536 * (b mod 256) + 16777216 * (c mod 256) = u"
    unfolding c using div_mult_mod_eq[of u 256, folded a_def] div_mult_mod_eq[of a 256, folded b_def]
      div_mult_mod_eq[of b 256, folded c_def] by linarith
  then have "word_of_int (u mod 256 + 256 * (a mod 256) + 65536 * (b mod 256) +
      16777216 * (c mod 256)) = w" by (simp add: u_def)
  moreover have "bytes_word (word_bytes w @ r) =
    word_of_int (u mod 256 + 256 * (a mod 256) + 65536 * (b mod 256) + 16777216 * (c mod 256))"
    using d by (simp add: bytes_word_def word_bytes_def eval_nat_numeral(3)[symmetric] flip: u_def a_def del: power_numeral of_int_add of_int_mult)
  ultimately show ?thesis by simp
qed

lemma get_put_int:
  assumes "INT_MIN \<le> v" "v \<le> INT_MAX"
  shows "point_get_int (point_put_int p v) = v"
proof -
  have "sint (word_of_int v :: 32 word) = v"
    using assms by (simp add: signed_of_int signed_take_bit_int_eq_self INT_MIN_def INT_MAX_def)
  then show ?thesis by (simp add: point_get_int_def point_put_int_def bytes_word_bytes)
qed

lemma get_put_float: "point_get_float (point_put_float p v) = v"
  by (simp add: point_get_float_def point_put_float_def bytes_word_bytes)

lemma point_get_int_range: "INT_MIN \<le> point_get_int p" "point_get_int p \<le> INT_MAX"
proof -
  fix w :: "32 word"
  have "- (2 ^ 31) \<le> sint (bytes_word (p_data p))" "sint (bytes_word (p_data p)) < 2 ^ 31"
    using sint_greater_eq[of "bytes_word (p_data p)"] sint_less[of "bytes_word (p_data p)"] by simp_all
  then show "INT_MIN \<le> point_get_int p" "point_get_int p \<le> INT_MAX"
    by (simp_all add: point_get_int_def INT_MIN_def INT_MAX_def)
qed

subsection \<open>Lemmas: merging\<close>

text \<open>
  Abstractly an array of points is a finite map from names (type and key) to points. A slot
  is free when its type is empty; a slot whose data type cannot be rendered is in use but
  takes no part in lookups.
\<close>

type_synonym name = "string \<times> string"

definition point_name :: "point \<Rightarrow> name" where
  "point_name p = (point_type p, point_key p)"

definition slot_free :: "point \<Rightarrow> bool" where
  "slot_free q = (point_type q = [])"

definition slot_valid :: "point \<Rightarrow> bool" where
  "slot_valid q = (\<not> slot_free q \<and> \<not> bad_data_type q)"

definition normal_key :: "point \<Rightarrow> point" where
  \<comment> \<open>the point with an empty key replaced by \<open>"0"\<close>\<close>
  "normal_key p = (if point_key p = [] then p\<lparr>p_key := lit ''0'' @ drop 2 (p_key p)\<rparr> else p)"

fun find_slot :: "(point \<Rightarrow> bool) \<Rightarrow> point list \<Rightarrow> nat option" where
  "find_slot P [] = None"
| "find_slot P (q # qs) = (if P q then Some 0 else map_option Suc (find_slot P qs))"

definition merge_spec :: "point list \<Rightarrow> point \<Rightarrow> int \<times> point list" where
  \<comment> \<open>what a merge of a normalised point does: overwrite the slot of that name, else take the
    first free slot, else report that the array is full\<close>
  "merge_spec pts p =
     (case find_slot (\<lambda>q. slot_valid q \<and> point_name q = point_name p) pts of
        Some i \<Rightarrow> (0, pts[i := p])
      | None \<Rightarrow> (case find_slot slot_free pts of
          Some e \<Rightarrow> (0, pts[e := p])
        | None \<Rightarrow> (- ENOMEM, pts)))"

definition point_map :: "point list \<Rightarrow> name \<rightharpoonup> point" where
  "point_map pts n = find (\<lambda>q. slot_valid q \<and> point_name q = n) pts"

lemma find_slot_Some:
  "find_slot P qs = Some i \<Longrightarrow> i < length qs \<and> P (qs ! i) \<and> (\<forall>j<i. \<not> P (qs ! j))"
proof (induction qs arbitrary: i)
  case Nil
  then show ?case by simp
next
  case (Cons q qs)
  then show ?case by (auto split: if_splits simp: nth_Cons split: nat.splits)
qed

lemma find_slot_None: "find_slot P qs = None \<longleftrightarrow> (\<forall>q\<in>set qs. \<not> P q)"
  by (induction qs) auto

lemma find_slot_drop_step:
  assumes "i < length pts"
  shows "find_slot P (drop i pts) =
    (if P (pts ! i) then Some 0 else map_option Suc (find_slot P (drop (Suc i) pts)))"
  using Cons_nth_drop_Suc[OF assms, symmetric] by (simp only: find_slot.simps)

lemma slot_free_rd:
  assumes "point_wf q"
  shows "rd (p_type q) 0 = Some (p_type q ! 0)" "slot_free q \<longleftrightarrow> p_type q ! 0 = NUL"
proof -
  have "p_type q \<noteq> []" using point_wfD[OF assms] by auto
  then show "rd (p_type q) 0 = Some (p_type q ! 0)" "slot_free q \<longleftrightarrow> p_type q ! 0 = NUL"
    by (simp_all add: slot_free_def point_type_def cstr_eq_Nil)
qed

lemma merge_loop_step:
  assumes "point_wf (pts ! i)" "point_wf p" "i < length pts"
  shows "merge_loop pts p i e =
    (if slot_valid (pts ! i) \<and> point_name (pts ! i) = point_name p then Some (0, pts[i := p])
     else merge_loop pts p (Suc i) (if slot_free (pts ! i) \<and> e = None then Some i else e))"
proof -
  let ?q = "pts ! i"
  note q = slot_free_rd[OF assms(1)] point_wfD[OF assms(1)] and p = point_wfD[OF assms(2)]
  have "c_strneq 24 (p_type ?q) (p_type p) = Some (point_type ?q = point_type p)"
    "c_strneq 23 (p_key ?q) (p_key p) = Some (point_key ?q = point_key p)"
    using q p by (simp_all add: c_strneq_eq point_type_def point_key_def)
  then show ?thesis using assms(3) q(1,2)
    by (subst merge_loop.simps) (auto simp: Let_def slot_valid_def point_name_def)
qed

lemma merge_loop_spec:
  assumes "\<forall>q\<in>set pts. point_wf q" "point_wf p" "i \<le> length pts"
  shows "merge_loop pts p i empty_i = Some
    (case find_slot (\<lambda>q. slot_valid q \<and> point_name q = point_name p) (drop i pts) of
        Some k \<Rightarrow> (0, pts[i + k := p])
      | None \<Rightarrow> (case empty_i of Some e \<Rightarrow> (0, pts[e := p])
         | None \<Rightarrow> (case find_slot slot_free (drop i pts) of
          Some e \<Rightarrow> (0, pts[i + e := p])
        | None \<Rightarrow> (- ENOMEM, pts))))"
  using assms
proof (induction "length pts - i" arbitrary: i empty_i)
  case 0
  then have "\<not> i < length pts" by simp
  then show ?case by (subst merge_loop.simps) (simp split: option.splits)
next
  case (Suc n)
  then have i: "i < length pts" by simp
  then have wf: "point_wf (pts ! i)" using Suc.prems by simp
  have n: "n = length pts - Suc i" "Suc i \<le> length pts" using Suc(2) i by simp_all
  note IH = Suc.hyps(1)[OF n(1) Suc.prems(1,2) n(2)]
  show ?case
    unfolding merge_loop_step[OF wf Suc.prems(2) i] IH
    by (auto simp: find_slot_drop_step[OF i] slot_valid_def split: option.splits)
qed

lemma normal_key_wf: 
  assumes "point_wf p"
  shows "point_wf (normal_key p)"
  using assms by (simp add: normal_key_def point_wf_def lit_def terminated_def)

lemma normal_key_simps [simp]:
  "p_type (normal_key p) = p_type p" "p_data_type (normal_key p) = p_data_type p"
  "p_data (normal_key p) = p_data p" "p_time (normal_key p) = p_time p"
  "point_type (normal_key p) = point_type p" "bad_data_type (normal_key p) = bad_data_type p"
  "slot_free (normal_key p) = slot_free p" "slot_valid (normal_key p) = slot_valid p"
  by (simp_all add: normal_key_def point_type_def bad_data_type_def slot_free_def slot_valid_def)

lemma normal_key_key: "point_key (normal_key p) = (if point_key p = [] then ''0'' else point_key p)"
  by (simp add: normal_key_def point_key_def cstr_lit_prefix)

lemma normal_key_idem [simp]: "normal_key (normal_key p) = normal_key p"
  using normal_key_key[of p] by (simp add: normal_key_def[of "normal_key p"])

lemma points_merge_spec:
  assumes "\<forall>q\<in>set pts. point_wf q" "point_wf p"
  shows "points_merge pts p =
    (case merge_spec pts (normal_key p) of (r, pts') \<Rightarrow> Some (r, pts', normal_key p))"
proof -
  have k: "rd (p_key p) 0 = Some (p_key p ! 0)" "point_key p = [] \<longleftrightarrow> p_key p ! 0 = NUL"
  proof -
    have "p_key p \<noteq> []" using point_wfD(3)[OF assms(2)] by auto
    then show "rd (p_key p) 0 = Some (p_key p ! 0)" "point_key p = [] \<longleftrightarrow> p_key p ! 0 = NUL"
      by (simp_all add: point_key_def cstr_eq_Nil)
  qed
  have c: "c_strcpy (p_key p) (lit ''0'') = Some (lit ''0'' @ drop 2 (p_key p))"
    using point_wfD[OF assms(2)]
    by (simp add: c_strcpy_def wr_block_def lit_def terminated_def numeral_2_eq_2)
  have p': "(if p_key p ! 0 = NUL
       then do { k \<leftarrow> c_strcpy (p_key p) (lit ''0''); Some (p\<lparr>p_key := k\<rparr>) } else Some p) =
     Some (normal_key p)"
    using c k(2) by (simp add: normal_key_def)
  show ?thesis
    using merge_loop_spec[OF assms(1) normal_key_wf[OF assms(2)], of 0 None] k(1) p'
    by (simp add: points_merge_def merge_spec_def split: option.splits)
qed

definition array_wf :: "point list \<Rightarrow> bool" where
  "array_wf pts = (\<forall>q\<in>set pts. point_wf q)"

definition names_unique :: "point list \<Rightarrow> bool" where
  \<comment> \<open>no two valid slots carry the same name\<close>
  "names_unique pts = (\<forall>i<length pts. \<forall>j<length pts. slot_valid (pts ! i) \<longrightarrow>
     slot_valid (pts ! j) \<longrightarrow> point_name (pts ! i) = point_name (pts ! j) \<longrightarrow> i = j)"

definition map_merge :: "(name \<rightharpoonup> point) \<Rightarrow> point \<Rightarrow> name \<rightharpoonup> point" where
  "map_merge m p = m(point_name p := if slot_valid p then Some p else None)"

lemma find_Some_nth:
  "i < length xs \<Longrightarrow> P (xs ! i) \<Longrightarrow> (\<forall>j<i. \<not> P (xs ! j)) \<Longrightarrow> find P xs = Some (xs ! i)"
  by (auto simp: find_Some_iff)

lemma point_map_unique:
  assumes "names_unique pts" "i < length pts" "slot_valid (pts ! i)"
  shows "point_map pts (point_name (pts ! i)) = Some (pts ! i)"
  unfolding point_map_def
proof (rule find_Some_nth)
  show "\<forall>j<i. \<not> (slot_valid (pts ! j) \<and> point_name (pts ! j) = point_name (pts ! i))"
  proof (intro allI impI notI)
    fix j assume "j < i" "slot_valid (pts ! j) \<and> point_name (pts ! j) = point_name (pts ! i)"
    then show False
      using assms(1)[unfolded names_unique_def, rule_format, of j i] assms(2,3) by simp
  qed
qed (use assms in simp_all)

lemma point_map_None:
  "point_map pts n = None \<longleftrightarrow> (\<forall>q\<in>set pts. slot_valid q \<longrightarrow> point_name q \<noteq> n)"
  by (auto simp: point_map_def find_None_iff)

lemma point_map_Some:
  assumes "names_unique pts"
  shows "point_map pts n = Some q \<longleftrightarrow> q \<in> set pts \<and> slot_valid q \<and> point_name q = n"
proof
  assume "point_map pts n = Some q"
  then show "q \<in> set pts \<and> slot_valid q \<and> point_name q = n"
    by (auto simp: point_map_def find_Some_iff)
next
  assume "q \<in> set pts \<and> slot_valid q \<and> point_name q = n"
  then show "point_map pts n = Some q"
    using point_map_unique[OF assms] by (metis in_set_conv_nth)
qed

lemma update_unique:
  assumes "names_unique pts" "i < length pts"
    and "\<And>j. j < length pts \<Longrightarrow> j \<noteq> i \<Longrightarrow> slot_valid (pts ! j) \<Longrightarrow> slot_valid p \<Longrightarrow>
      point_name (pts ! j) \<noteq> point_name p"
  shows "names_unique (pts[i := p])"
  unfolding names_unique_def
proof (intro allI impI)
  fix a b assume "a < length (pts[i := p])" "b < length (pts[i := p])"
    "slot_valid (pts[i := p] ! a)" "slot_valid (pts[i := p] ! b)"
    "point_name (pts[i := p] ! a) = point_name (pts[i := p] ! b)"
  then show "a = b"
    using assms(1)[unfolded names_unique_def, rule_format, of a b] assms(2) assms(3)[of a] assms(3)[of b]
    by (auto simp: nth_list_update split: if_splits)
qed

lemma update_map:
  assumes "names_unique pts" "i < length pts"
    and other: "\<And>j. j < length pts \<Longrightarrow> j \<noteq> i \<Longrightarrow> slot_valid (pts ! j) \<Longrightarrow>
      point_name (pts ! j) \<noteq> point_name p"
    and here: "slot_valid (pts ! i) \<Longrightarrow> point_name (pts ! i) = point_name p"
  shows "point_map (pts[i := p]) = map_merge (point_map pts) p"
proof
  fix n
  let ?new = "pts[i := p]"
  have u: "names_unique ?new" using assms by (intro update_unique) auto
  have mem: "q \<in> set ?new \<longleftrightarrow> q = p \<or> (\<exists>j<length pts. j \<noteq> i \<and> q = pts ! j)" for q
    using assms(2) by (auto simp: in_set_conv_nth nth_list_update split: if_splits)
  show "point_map ?new n = map_merge (point_map pts) p n"
  proof (cases "n = point_name p")
    case True
    show ?thesis
    proof (cases "slot_valid p")
      case True
      then have "point_map ?new n = Some p"
        using mem \<open>n = point_name p\<close> by (simp add: point_map_Some[OF u])
      then show ?thesis using True \<open>n = point_name p\<close> by (simp add: map_merge_def)
    next
      case False
      then have "point_map ?new n = None"
        using mem other \<open>n = point_name p\<close> by (auto simp: point_map_None)
      then show ?thesis using False \<open>n = point_name p\<close> by (simp add: map_merge_def)
    qed
  next
    case False
    have "point_map ?new n = Some q \<longleftrightarrow> point_map pts n = Some q" for q
      using mem here False
      by (auto simp: point_map_Some[OF u] point_map_Some[OF assms(1)] in_set_conv_nth)
    then have "point_map ?new n = point_map pts n"
      by (metis not_None_eq)
    then show ?thesis using False by (simp add: map_merge_def)
  qed
qed

lemma merge_spec_cases:
  obtains (match) i where "i < length pts" "slot_valid (pts ! i)" "point_name (pts ! i) = point_name p"
      "merge_spec pts p = (0, pts[i := p])"
  | (free) e where "e < length pts" "slot_free (pts ! e)" "merge_spec pts p = (0, pts[e := p])"
      "\<forall>q\<in>set pts. slot_valid q \<longrightarrow> point_name q \<noteq> point_name p"
  | (full) "\<forall>q\<in>set pts. \<not> slot_free q" "merge_spec pts p = (- ENOMEM, pts)"
      "\<forall>q\<in>set pts. slot_valid q \<longrightarrow> point_name q \<noteq> point_name p"
proof (cases "find_slot (\<lambda>q. slot_valid q \<and> point_name q = point_name p) pts")
  case (Some i)
  then show ?thesis using match[of i] find_slot_Some[OF Some] by (simp add: merge_spec_def)
next
  case None
  then have no: "\<forall>q\<in>set pts. slot_valid q \<longrightarrow> point_name q \<noteq> point_name p"
    by (simp add: find_slot_None)
  show ?thesis
  proof (cases "find_slot slot_free pts")
    case (Some e)
    then show ?thesis using free[of e] find_slot_Some[OF Some] None no by (simp add: merge_spec_def)
  next
    case f: None
    then show ?thesis using full None no find_slot_None[of slot_free pts] by (simp add: merge_spec_def)
  qed
qed

lemma merge_spec_correct:
  assumes u: "names_unique pts" and w: "array_wf pts" and p: "point_wf p"
    and m: "merge_spec pts p = (r, pts')"
  shows "names_unique pts'" "array_wf pts'" "length pts' = length pts"
    and "r = 0 \<or> r = - ENOMEM"
    and "r = 0 \<Longrightarrow> point_map pts' = map_merge (point_map pts) p"
    and "r \<noteq> 0 \<Longrightarrow> pts' = pts"
    and "r \<noteq> 0 \<longleftrightarrow> (\<forall>q\<in>set pts. \<not> slot_free q) \<and> point_map pts (point_name p) = None"
proof -
  have e: "ENOMEM \<noteq> 0" by (simp add: ENOMEM_def)
  have wf: "array_wf (pts[i := p])" for i
    using w p set_update_subset_insert[of pts i p] by (auto simp: array_wf_def)
  have "names_unique pts' \<and> array_wf pts' \<and> length pts' = length pts \<and> (r = 0 \<or> r = - ENOMEM) \<and>
    (r = 0 \<longrightarrow> point_map pts' = map_merge (point_map pts) p) \<and> (r \<noteq> 0 \<longrightarrow> pts' = pts) \<and>
    (r \<noteq> 0 \<longleftrightarrow> (\<forall>q\<in>set pts. \<not> slot_free q) \<and> point_map pts (point_name p) = None)"
  proof (cases rule: merge_spec_cases[of pts p])
    case (match i)
    then have other: "j < length pts \<Longrightarrow> j \<noteq> i \<Longrightarrow> slot_valid (pts ! j) \<Longrightarrow>
      point_name (pts ! j) \<noteq> point_name p" for j
      using u by (auto simp: names_unique_def)
    have "point_map pts (point_name p) = Some (pts ! i)"
      using point_map_unique[OF u match(1,2)] match(3) by simp
    then show ?thesis
      using match m update_unique[OF u match(1)] update_map[OF u match(1)] other wf by auto
  next
    case (free e)
    have nv: "\<not> slot_valid (pts ! e)" using free(2) by (simp add: slot_valid_def)
    have other: "j < length pts \<Longrightarrow> slot_valid (pts ! j) \<Longrightarrow> point_name (pts ! j) \<noteq> point_name p" for j
      using free(4) by simp
    have "names_unique (pts[e := p])" "point_map (pts[e := p]) = map_merge (point_map pts) p"
      using update_unique[OF u free(1)] update_map[OF u free(1)] other nv by blast+
    then show ?thesis
      using free m wf by auto
  next
    case full
    then show ?thesis using m u w e by (auto simp: point_map_None)
  qed
  then show "names_unique pts'" "array_wf pts'" "length pts' = length pts" "r = 0 \<or> r = - ENOMEM"
    "r = 0 \<Longrightarrow> point_map pts' = map_merge (point_map pts) p" "r \<noteq> 0 \<Longrightarrow> pts' = pts"
    "r \<noteq> 0 \<longleftrightarrow> (\<forall>q\<in>set pts. \<not> slot_free q) \<and> point_map pts (point_name p) = None" by blast+
qed

subsection \<open>The contract of a store of points\<close>

definition points_insert :: "point list \<Rightarrow> point \<Rightarrow> (int \<times> point list) option" where
  "points_insert pts p = map_option (\<lambda>(r, pts', _). (r, pts')) (points_merge pts p)"

definition array_ok :: "point list \<Rightarrow> bool" where
  "array_ok pts = (array_wf pts \<and> names_unique pts)"

fun feed :: "('s \<Rightarrow> point \<Rightarrow> (int \<times> 's) option) \<Rightarrow> 's \<Rightarrow> point list \<Rightarrow> (int list \<times> 's) option" where
  \<comment> \<open>a store fed with a stream of points: the return codes and the final state\<close>
  "feed ins s [] = Some ([], s)"
| "feed ins s (p # ps) = do {
     (r, s) \<leftarrow> ins s p;
     (rs, s) \<leftarrow> feed ins s ps;
     Some (r # rs, s)
   }"

text \<open>
  Both point caches of the program (lib/point-cache.c and the web server's own) are arrays kept
  by \<open>points_merge\<close>. What their readers rely on is that the cache holds the latest point of every
  name published: it follows from the laws of one insertion.
\<close>

locale point_store =
  fixes ins :: "'s \<Rightarrow> point \<Rightarrow> (int \<times> 's) option"
    and view :: "'s \<Rightarrow> name \<rightharpoonup> point"
    and ok :: "'s \<Rightarrow> bool"
  assumes ins_total: "ok s \<Longrightarrow> point_wf p \<Longrightarrow>
      \<exists>r s'. ins s p = Some (r, s') \<and> ok s' \<and> (r = 0 \<or> r = - ENOMEM)"
    and ins_view: "ok s \<Longrightarrow> point_wf p \<Longrightarrow> ins s p = Some (0, s') \<Longrightarrow>
      view s' = map_merge (view s) (normal_key p)"
    and ins_full: "ok s \<Longrightarrow> point_wf p \<Longrightarrow> ins s p = Some (r, s') \<Longrightarrow> r \<noteq> 0 \<Longrightarrow> s' = s"
begin

lemma ins_ok: "ok s \<Longrightarrow> point_wf p \<Longrightarrow> ins s p = Some (r, s') \<Longrightarrow> ok s'"
  using ins_total[of s p] by auto

lemma feed_total:
  "ok s \<Longrightarrow> \<forall>p\<in>set ps. point_wf p \<Longrightarrow> \<exists>rs s'. feed ins s ps = Some (rs, s') \<and> ok s'"
proof (induction ps arbitrary: s)
  case Nil
  then show ?case by simp
next
  case (Cons p ps)
  then obtain r s1 where 1: "ins s p = Some (r, s1)" "ok s1" using ins_total[of s p] by auto
  then obtain rs s2 where "feed ins s1 ps = Some (rs, s2)" "ok s2"
    using Cons.IH[of s1] Cons.prems(2) by auto
  with 1 show ?case by simp
qed

text \<open>The points a store accepts, replayed on the abstract map.\<close>

lemma feed_view:
  "ok s \<Longrightarrow> \<forall>p\<in>set ps. point_wf p \<Longrightarrow> feed ins s ps = Some (rs, s') \<Longrightarrow>
   view s' = foldl map_merge (view s) (map (\<lambda>x. normal_key (snd x)) (filter (\<lambda>x. fst x = 0) (zip rs ps)))"
proof (induction ps arbitrary: s rs)
  case Nil
  then show ?case by simp
next
  case (Cons p ps)
  from Cons.prems obtain r s1 rs' where
    1: "ins s p = Some (r, s1)" and 2: "feed ins s1 ps = Some (rs', s')" and rs: "rs = r # rs'"
    by (auto split: Option.bind_splits)
  have ok1: "ok s1" using Cons.prems 1 ins_ok by auto
  have IH: "view s' = foldl map_merge (view s1)
      (map (\<lambda>x. normal_key (snd x)) (filter (\<lambda>x. fst x = 0) (zip rs' ps)))"
    using Cons.IH[OF ok1 _ 2] Cons.prems(2) by simp
  show ?case
  proof (cases "r = 0")
    case True
    then have "view s1 = map_merge (view s) (normal_key p)"
      using ins_view[of s p s1] 1 Cons.prems by simp
    then show ?thesis using IH True by (simp add: rs)
  next
    case False
    then have "s1 = s" using ins_full[OF _ _ 1] Cons.prems by simp
    then show ?thesis using IH False by (simp add: rs)
  qed
qed

end

lemma foldl_map_merge:
  "foldl map_merge m ps n =
    (case find (\<lambda>p. point_name p = n) (rev ps) of
       Some p \<Rightarrow> (if slot_valid p then Some p else None) | None \<Rightarrow> m n)"
proof (induction ps rule: rev_induct)
  case Nil
  then show ?case by simp
next
  case (snoc p ps)
  then show ?case by (auto simp: map_merge_def)
qed

interpretation arr: point_store points_insert point_map array_ok
proof unfold_locales
  fix s p assume "array_ok s" "point_wf p"
  then show "\<exists>r s'. points_insert s p = Some (r, s') \<and> array_ok s' \<and> (r = 0 \<or> r = - ENOMEM)"
    using points_merge_spec[of s p] merge_spec_correct[of s "normal_key p"] normal_key_wf
    by (auto simp: points_insert_def array_ok_def array_wf_def split: prod.splits)
next
  fix s p s' assume "array_ok s" "point_wf p" "points_insert s p = Some (0, s')"
  then show "point_map s' = map_merge (point_map s) (normal_key p)"
    using points_merge_spec[of s p] merge_spec_correct[of s "normal_key p" 0 s'] normal_key_wf
    by (auto simp: points_insert_def array_ok_def array_wf_def split: prod.splits)
next
  fix s p r s' assume "array_ok s" "point_wf p" "points_insert s p = Some (r, s')" "r \<noteq> 0"
  then show "s' = s"
    using points_merge_spec[of s p] merge_spec_correct[of s "normal_key p" r s'] normal_key_wf
    by (auto simp: points_insert_def array_ok_def array_wf_def split: prod.splits)
qed

subsection \<open>Lemmas: the debug dump\<close>

definition dump_sep :: "point \<Rightarrow> string" where
  "dump_sep p = (if point_key p = [] then '': '' else ''.'' @ point_key p @ '': '')"

lemma size_t_of_nat: "0 \<le> n \<Longrightarrow> n < 2 ^ 32 \<Longrightarrow> size_t_of_int n = nat n"
  by (simp add: size_t_of_int_def)

lemma size_t_of_neg: "n < 0 \<Longrightarrow> - (2 ^ 31) \<le> n \<Longrightarrow> 2 ^ 31 \<le> size_t_of_int n"
proof -
  assume n: "n < 0" "- (2 ^ 31) \<le> n"
  have "n mod 2 ^ 32 = (n + 2 ^ 32) mod 2 ^ 32" by simp
  also have "\<dots> = n + 2 ^ 32" using n by (intro mod_pos_pos_trivial) auto
  finally show ?thesis using n by (simp add: size_t_of_int_def)
qed

lemma dump_put_fits:
  assumes "base + off + length s < length buf" "int (length s) < rem" "rem < 2 ^ 32"
  shows "dump_put base s (buf, int off, rem) =
    Some (take (base + off) buf @ s @ NUL # drop (Suc (base + off + length s)) buf,
      int (off + length s), rem - int (length s))"
proof -
  have "size_t_of_int rem = nat rem" "length s \<le> nat rem - 1"
    using assms by (auto simp: size_t_of_nat)
  then show ?thesis
    using assms by (simp add: dump_put_def c_snprintf_def wr_block_def)
qed

lemma dump_put_some:
  assumes "0 \<le> rem" "rem < 2 ^ 32" "base + off + nat rem \<le> length buf"
  shows "\<exists>buf'. dump_put base s (buf, int off, rem) =
    Some (buf', int (off + length s), rem - int (length s)) \<and> length buf' = length buf"
  using assms by (auto simp: dump_put_def c_snprintf_def wr_block_def size_t_of_nat min_def)

lemma dump_put_none:
  assumes "rem < 0" "- (2 ^ 31) \<le> rem" "length s < 2 ^ 30" "length buf \<le> base + off + length s"
  shows "dump_put base s (buf, int off, rem) = None"
proof -
  have "2 ^ 31 \<le> size_t_of_int rem" using assms by (intro size_t_of_neg) auto
  then have "length s \<le> size_t_of_int rem - 1" "size_t_of_int rem \<noteq> 0" using assms(3) by auto
  then show ?thesis using assms(4) by (simp add: dump_put_def c_snprintf_def wr_block_def)
qed

lemma point_dump_unfold:
  assumes "point_wf p" "dump_value p = Some v" "2 \<le> len"
  shows "point_dump p buf base len = do {
     st \<leftarrow> dump_put base (point_type p) (buf, 0, int len - 1);
     st \<leftarrow> dump_put base (dump_sep p) st;
     (buf, offset, remaining) \<leftarrow> dump_put base v st;
     Some (offset, buf)
   }"
  using assms point_wfD[OF assms(1)]
  by (simp add: point_dump_def c_strlen_eq dump_sep_def point_type_def point_key_def Let_def)

lemma point_dump_fits:
  assumes "point_wf p" "dump_value p = Some v"
    and "t = point_type p @ dump_sep p @ v" "length t + 2 \<le> len" "len < 2 ^ 31"
    and "base + len \<le> length buf"
  shows "point_dump p buf base len =
    Some (int (length t), take base buf @ t @ NUL # drop (Suc (base + length t)) buf)"
proof -
  let ?a = "length (point_type p)" and ?b = "length (dump_sep p)"
  have 1: "dump_put base (point_type p) (buf, 0, int len - 1) =
    Some (take base buf @ point_type p @ NUL # drop (Suc (base + ?a)) buf, int ?a, int len - 1 - int ?a)"
    using dump_put_fits[of base 0 "point_type p" buf "int len - 1"] assms by simp
  have 2: "dump_put base (dump_sep p)
      (take base buf @ point_type p @ NUL # drop (Suc (base + ?a)) buf, int ?a, int len - 1 - int ?a) =
    Some (take base buf @ (point_type p @ dump_sep p) @ NUL # drop (Suc (base + ?a + ?b)) buf,
      int (?a + ?b), int len - 1 - int ?a - int ?b)"
    using assms by (subst dump_put_fits) (auto simp: ac_simps)
  have 3: "dump_put base v
      (take base buf @ (point_type p @ dump_sep p) @ NUL # drop (Suc (base + ?a + ?b)) buf,
       int (?a + ?b), int len - 1 - int ?a - int ?b) =
    Some (take base buf @ t @ NUL # drop (Suc (base + length t)) buf, int (length t),
      int len - 1 - int ?a - int ?b - int (length v))"
    using assms by (subst dump_put_fits) (auto simp: ac_simps)
  show ?thesis
    using assms 1 2 3 by (simp add: point_dump_unfold)
qed

lemma point_dump_some:
  \<comment> \<open>a dump whose value at least starts inside the buffer is defined\<close>
  assumes "point_wf p" "dump_value p = Some v" "length (point_type p) + length (dump_sep p) < len"
    and "2 \<le> len" "len < 2 ^ 31" "base + len \<le> length buf"
  shows "\<exists>n d. point_dump p buf base len = Some (n, d)"
proof -
  let ?a = "length (point_type p)" and ?b = "length (dump_sep p)"
  have put: "\<exists>b'. dump_put base s (b, int off, int len - 1 - int off) =
      Some (b', int (off + length s), int len - 1 - int off - int (length s)) \<and> length b' = length buf"
    if "off < len" "length b = length buf" for off s b
  proof -
    have "base + off + nat (int len - 1 - int off) \<le> length b" using that assms(6) by linarith
    then show ?thesis using dump_put_some[of "int len - 1 - int off" base off b s] that assms(5) by auto
  qed
  obtain b1 where b1: "dump_put base (point_type p) (buf, int 0, int len - 1 - int 0) =
      Some (b1, int (0 + ?a), int len - 1 - int 0 - int ?a)" "length b1 = length buf"
    using put[of 0 buf "point_type p"] assms(4) by auto
  obtain b2 where b2: "dump_put base (dump_sep p) (b1, int ?a, int len - 1 - int ?a) =
      Some (b2, int (?a + ?b), int len - 1 - int ?a - int ?b)" "length b2 = length buf"
    using put[of ?a b1 "dump_sep p"] assms(3) b1(2) by auto
  obtain b3 where "dump_put base v (b2, int (?a + ?b), int len - 1 - int (?a + ?b)) =
      Some (b3, int (?a + ?b + length v), int len - 1 - int (?a + ?b) - int (length v))"
    using put[of "?a + ?b" b2 v] assms(3) b2(2) by auto
  then show ?thesis using b1(1) b2(1) by (simp add: point_dump_unfold[OF assms(1,2,4)] diff_diff_eq add.assoc)
qed

lemma point_dump_safe_iff:
  assumes "point_wf p" "dump_value p = Some v" "length v < 2 ^ 30" "2 \<le> length buf" "length buf < 2 ^ 31"
  shows "point_dump p buf 0 (length buf) \<noteq> None \<longleftrightarrow>
    length (point_type p) + length (dump_sep p) < length buf"
proof -
  let ?a = "length (point_type p)" and ?b = "length (dump_sep p)" and ?n = "length buf"
  have small: "?a < 24" "?b < 26"
    using point_wfD[OF assms(1)] length_cstr_less[of "p_type p"] length_cstr_less[of "p_key p"]
    by (auto simp: point_type_def point_key_def dump_sep_def)
  have ne: "buf \<noteq> []" "nat (int (length buf) - 1) \<le> length buf" using assms(4) by auto
  obtain b1 where b1: "dump_put 0 (point_type p) (buf, int 0, int ?n - 1) =
      Some (b1, int ?a, int ?n - 1 - int ?a)" "length b1 = ?n"
    using dump_put_some[of "int ?n - 1" 0 0 buf "point_type p"] assms ne by auto
  show ?thesis
  proof (cases "?a < ?n")
    case False
    then have "dump_put 0 (dump_sep p) (b1, int ?a, int ?n - 1 - int ?a) = None"
      using b1 small assms(5) by (intro dump_put_none) auto
    then show ?thesis using False b1 assms(1,2,4) by (simp add: point_dump_unfold)
  next
    case True
    have r1: "0 + ?a + nat (int ?n - 1 - int ?a) \<le> ?n" "0 \<le> int ?n - 1 - int ?a"
      "int ?n - 1 - int ?a < 2 ^ 32" using True assms(5) by auto
    obtain b2 where b2: "dump_put 0 (dump_sep p) (b1, int ?a, int ?n - 1 - int ?a) =
        Some (b2, int (?a + ?b), int ?n - 1 - int ?a - int ?b)" "length b2 = ?n"
      using dump_put_some[OF r1(2,3), of 0 ?a b1 "dump_sep p"] r1(1) b1(2) by auto
    show ?thesis
    proof (cases "?a + ?b < ?n")
      case False
      then have "dump_put 0 v (b2, int (?a + ?b), int ?n - 1 - int ?a - int ?b) = None"
        using b2 small assms by (intro dump_put_none) auto
      then show ?thesis using False b1 b2 assms(1,2,4) by (simp add: point_dump_unfold)
    next
      case fits: True
      then show ?thesis using point_dump_some[OF assms(1,2) fits assms(4,5), of 0 buf] by auto
    qed
  qed
qed

lemma type_first:
  assumes "point_wf q"
  shows "rd (p_type q) 0 = Some (p_type q ! 0)" "p_type q ! 0 = NUL \<longleftrightarrow> slot_free q"
proof -
  have "p_type q \<noteq> []" using assms by (auto simp: point_wf_def)
  then show "rd (p_type q) 0 = Some (p_type q ! 0)" "p_type q ! 0 = NUL \<longleftrightarrow> slot_free q"
    using cstr_eq_Nil[of "p_type q"] by (simp_all add: slot_free_def point_type_def)
qed

lemma text_wf_dump: "text_wf p \<Longrightarrow> dump_value p \<noteq> None"
  by (auto simp: text_wf_def dump_value_def)

definition dump_line :: "point \<Rightarrow> string" where
  "dump_line p = point_type p @ dump_sep p @ (case dump_value p of Some v \<Rightarrow> v | None \<Rightarrow> [])"

definition dump_rows :: "point list \<Rightarrow> string" where
  \<comment> \<open>the rows of the dump of an array\<close>
  "dump_rows pts = concat (map (\<lambda>p. cstr DUMP_BULLET @ dump_line p) (filter (\<lambda>p. \<not> slot_free p) pts))"

lemma dump_rows_simps [simp]:
  "dump_rows [] = []"
  "dump_rows (p # pts) = (if slot_free p then [] else cstr DUMP_BULLET @ dump_line p) @ dump_rows pts"
  by (simp_all add: dump_rows_def)

lemma DUMP_BULLET_cstr [simp]: "length (cstr DUMP_BULLET) = 5" "terminated (take n DUMP_BULLET) \<longleftrightarrow> 6 \<le> n"
  by (simp_all add: DUMP_BULLET_def terminated_def take_Cons' numeral_eq_Suc)

lemma DUMP_BULLET_not_Nil [simp]: "cstr DUMP_BULLET \<noteq> []"
  by (simp add: DUMP_BULLET_def)

lemma points_dump_step:
  assumes "point_wf p" "\<not> slot_free p" "6 \<le> rem" "c_strncpy buf off DUMP_BULLET rem = Some b1"
  shows "points_dump_loop (p # pts) buf (int off) (int rem) = do {
    (cnt, b2) \<leftarrow> point_dump p b1 (off + 5) (rem - 5);
    points_dump_loop pts b2 (int (off + 5) + cnt) (int (rem - 5) - cnt)
  }"
proof -
  have "nat (int off + 5) = off + 5" "nat (int rem - 5) = rem - 5" "int (rem - 5) = int rem - 5"
    using assms(3) by auto
  then show ?thesis using type_first[OF assms(1)] assms by simp
qed

lemma points_dump_row:
  assumes "point_wf p" "\<not> slot_free p" "dump_value p \<noteq> None"
    and "l = length (dump_line p)" "l + 7 \<le> rem" "off + rem \<le> length buf" "rem < 2 ^ 31"
  shows "\<exists>b. points_dump_loop (p # pts) buf (int off) (int rem) =
      points_dump_loop pts b (int (off + 5 + l)) (int (rem - 5 - l)) \<and> length b = length buf \<and>
    take (off + 5 + l) b = take off buf @ cstr DUMP_BULLET @ dump_line p \<and> b ! (off + 5 + l) = NUL"
proof -
  obtain v where v: "dump_value p = Some v" using assms(3) by auto
  have s: "dump_line p = point_type p @ dump_sep p @ v" by (simp add: dump_line_def v)
  define b1 where "b1 = take off buf @ (cstr DUMP_BULLET @ replicate (rem - 5) NUL) @ drop (off + rem) buf"
  have "take rem (cstr DUMP_BULLET @ replicate rem NUL) = cstr DUMP_BULLET @ replicate (rem - 5) NUL"
    using assms(5) by simp
  then have b1: "c_strncpy buf off DUMP_BULLET rem = Some b1"
    using assms(5,6) by (simp add: c_strncpy_def wr_block_def b1_def)
  have b1l: "length b1 = length buf" "take (off + 5) b1 = take off buf @ cstr DUMP_BULLET"
    using assms(5,6) by (simp_all add: b1_def)
  define b2 where "b2 = take (off + 5) b1 @ dump_line p @ NUL # drop (Suc (off + 5 + l)) b1"
  have pd: "point_dump p b1 (off + 5) (rem - 5) = Some (int l, b2)"
    unfolding b2_def assms(4) using assms(5-7) b1l(1)
    by (intro point_dump_fits[OF assms(1) v s]) (auto simp: assms(4))
  have "int (off + 5) + int l = int (off + 5 + l)" "int (rem - 5) - int l = int (rem - 5 - l)" "6 \<le> rem"
    using assms(5) by auto
  then have "points_dump_loop (p # pts) buf (int off) (int rem) =
      points_dump_loop pts b2 (int (off + 5 + l)) (int (rem - 5 - l))"
    using points_dump_step[OF assms(1,2) _ b1, of pts] pd by simp
  moreover have "length b2 = length buf" "take (off + 5 + l) b2 = take off buf @ cstr DUMP_BULLET @ dump_line p"
    "b2 ! (off + 5 + l) = NUL"
    using assms(4-6) b1l by (simp_all add: b2_def nth_append)
  ultimately show ?thesis by blast
qed

lemma points_dump_loop_fits:
  assumes "\<forall>p\<in>set pts. point_wf p \<and> dump_value p \<noteq> None"
    and "length (dump_rows pts) + 2 \<le> rem" "off + rem \<le> length buf" "rem < 2 ^ 31"
  shows "\<exists>buf'. points_dump_loop pts buf (int off) (int rem) = Some (int (off + length (dump_rows pts)), buf') \<and>
    length buf' = length buf \<and> take (off + length (dump_rows pts)) buf' = take off buf @ dump_rows pts \<and>
    (dump_rows pts = [] \<longrightarrow> buf' = buf) \<and>
    (dump_rows pts \<noteq> [] \<longrightarrow> buf' ! (off + length (dump_rows pts)) = NUL)"
  using assms
proof (induction pts arbitrary: buf off rem)
  case Nil
  then show ?case by simp
next
  case (Cons p pts)
  have p: "point_wf p" "dump_value p \<noteq> None" using Cons.prems(1) by auto
  show ?case
  proof (cases "slot_free p")
    case True
    then show ?thesis using Cons type_first[OF p(1)] by simp
  next
    case False
    define l where "l = length (dump_line p)"
    have len: "l + 7 \<le> rem" "length (dump_rows pts) + 2 \<le> rem - 5 - l"
      using Cons.prems(2) False by (simp_all add: l_def)
    obtain b where step: "points_dump_loop (p # pts) buf (int off) (int rem) =
        points_dump_loop pts b (int (off + 5 + l)) (int (rem - 5 - l))"
      and b: "length b = length buf" "take (off + 5 + l) b = take off buf @ cstr DUMP_BULLET @ dump_line p"
        "b ! (off + 5 + l) = NUL"
      using points_dump_row[OF p(1) False p(2) l_def len(1) Cons.prems(3,4), of pts] by blast
    have prems: "\<forall>p\<in>set pts. point_wf p \<and> dump_value p \<noteq> None"
      "off + 5 + l + (rem - 5 - l) \<le> length b" "rem - 5 - l < 2 ^ 31"
      using Cons.prems len b by auto
    from Cons.IH[OF prems(1) len(2) prems(2,3)] show ?thesis
      unfolding step using b False by (auto simp: l_def add.assoc)
  qed
qed

lemma points_dump_fits:
  assumes "\<forall>p\<in>set pts. point_wf p \<and> dump_value p \<noteq> None"
    and "length (dump_rows pts) + 3 \<le> length buf" "length buf < 2 ^ 31"
  shows "\<exists>buf'. points_dump pts buf (length buf) = Some (int (length (dump_rows pts)), buf') \<and>
    length buf' = length buf \<and> take (Suc (length (dump_rows pts))) buf' = dump_rows pts @ [NUL]"
proof -
  define n where "n = length (dump_rows pts)"
  have ne: "buf \<noteq> []" "int (length buf) - 1 = int (length buf - 1)" using assms(2) by auto
  define b0 where "b0 = buf[0 := NUL]"
  have b0: "length b0 = length buf" "b0 ! 0 = NUL" "wr buf 0 NUL = Some b0" using ne(1) by (simp_all add: b0_def)
  have "n + 2 \<le> length buf - 1" "0 + (length buf - 1) \<le> length b0" "length buf - 1 < 2 ^ 31"
    using assms(2,3) b0(1) ne(1) unfolding n_def[symmetric] by linarith+
  from points_dump_loop_fits[OF assms(1) this[unfolded n_def]] obtain buf' where
    b: "points_dump_loop pts b0 (int 0) (int (length buf - 1)) = Some (int (0 + n), buf')"
    "length buf' = length b0" "take (0 + n) buf' = take 0 b0 @ dump_rows pts"
    "dump_rows pts = [] \<longrightarrow> buf' = b0" "dump_rows pts \<noteq> [] \<longrightarrow> buf' ! (0 + n) = NUL"
    unfolding n_def by blast
  have "buf' ! n = NUL" using b(4,5) b0(2) by (cases "dump_rows pts = []") (simp_all add: n_def)
  then have "take (Suc n) buf' = dump_rows pts @ [NUL]"
    using b(2,3) b0(1) assms(2) by (simp add: n_def take_Suc_conv_app_nth)
  moreover have "points_dump pts buf (length buf) = points_dump_loop pts b0 0 (int (length buf) - 1)"
    using ne(1) by (simp add: points_dump_def b0(3))
  then have "points_dump pts buf (length buf) = Some (int n, buf')" using b(1) unfolding ne(2) by simp
  ultimately show ?thesis using b(2) b0(1) unfolding n_def by simp
qed

lemma point_dump_overflow:
  assumes "point_wf p" "dump_value p = Some v" "2 \<le> len" "len < 2 ^ 31" "base + len \<le> length buf"
    and "length (point_type p) < len" "len \<le> length (point_type p) + length (dump_sep p)" "length v < 2 ^ 30"
    and "length (point_type p) + length (dump_sep p) < 2 ^ 31"
    and "length buf \<le> base + length (point_type p) + length (dump_sep p) + length v"
  shows "point_dump p buf base len = None"
proof -
  let ?a = "length (point_type p)" and ?b = "length (dump_sep p)"
  obtain b1 where b1: "dump_put base (point_type p) (buf, int 0, int len - 1) =
      Some (b1, int (0 + ?a), int len - 1 - int ?a)" "length b1 = length buf"
  proof -
    have "base + 0 + nat (int len - 1) \<le> length buf" using assms(3,5) by linarith
    then show thesis using that dump_put_some[of "int len - 1" base 0 buf "point_type p"] assms(3,4) by auto
  qed
  obtain b2 where b2: "dump_put base (dump_sep p) (b1, int ?a, int len - 1 - int ?a) =
      Some (b2, int (?a + ?b), int len - 1 - int ?a - int ?b)" "length b2 = length buf"
  proof -
    have "base + ?a + nat (int len - 1 - int ?a) \<le> length b1" "0 \<le> int len - 1 - int ?a"
      using assms(5,6) b1(2) by linarith+
    then show thesis
      using that dump_put_some[of "int len - 1 - int ?a" base ?a b1 "dump_sep p"] assms(4) b1(2) by auto
  qed
  have "dump_put base v (b2, int (?a + ?b), int len - 1 - int ?a - int ?b) = None"
    using b2(2) assms by (intro dump_put_none) auto
  then show ?thesis using b1(1) b2(1) by (simp add: point_dump_unfold[OF assms(1-3)])
qed

lemma points_dump_overflow:
  assumes "point_wf p" "\<not> slot_free p" "dump_value p = Some v" "point_wf q" "\<not> slot_free q" "dump_value q = Some w"
    and "l = length (dump_line p)" "l + 14 \<le> length buf" "length buf < 2 ^ 31"
    and "length (point_type q) + l + 11 < length buf"
    and "length buf \<le> length (point_type q) + length (dump_sep q) + l + 11" "length w < 2 ^ 30" "1 \<le> length w"
    and "length (point_type q) + length (dump_sep q) < 2 ^ 31"
  shows "points_dump [p, q] buf (length buf) = None"
proof -
  have buf: "wr buf 0 NUL = Some (buf[0 := NUL])" "length buf \<noteq> 0"
    using assms(8) by (cases buf; simp)+
  have cpy: "\<exists>b'. c_strncpy b off DUMP_BULLET rem = Some b' \<and> length b' = length b"
    if "6 \<le> rem" "off + rem \<le> length b" for b off rem
    using that by (simp add: c_strncpy_def wr_block_def min_def)
  define n where "n = length buf"
  note n = n_def[symmetric]
  obtain b1 where b1: "c_strncpy (buf[0 := NUL]) 0 DUMP_BULLET (n - 1) = Some b1" "length b1 = n"
  proof -
    have "6 \<le> n - 1" "0 + (n - 1) \<le> length (buf[0 := NUL])" using assms(8) by (simp_all add: n_def)
    then show thesis using that cpy[of "n - 1" 0 "buf[0 := NUL]"] by (auto simp: n_def)
  qed
  have l: "l = length (point_type p @ dump_sep p @ v)" using assms(3,7) by (simp add: dump_line_def)
  obtain b2 where b2: "point_dump p b1 5 (n - 6) = Some (int l, b2)" "length b2 = n"
    using point_dump_fits[OF assms(1,3) refl, of "n - 6" 5 b1] assms(8,9) b1(2) unfolding n l by auto
  obtain b3 where b3: "c_strncpy b2 (5 + l) DUMP_BULLET (n - 6 - l) = Some b3" "length b3 = n"
  proof -
    have "6 \<le> n - 6 - l" "5 + l + (n - 6 - l) \<le> length b2" using assms(8) b2(2) unfolding n by linarith+
    then show thesis using that cpy[of "n - 6 - l" "5 + l" b2] b2(2) by auto
  qed
  have pd: "point_dump q b3 (10 + l) (n - 11 - l) = None"
    using assms b3(2) unfolding n by (intro point_dump_overflow[OF assms(4,6)]) auto
  have "points_dump_loop [q] b2 (int (5 + l)) (int (n - 6 - l)) = None"
    using points_dump_step[OF assms(4,5) _ b3(1), of "[]"] pd assms(8) unfolding n by (simp add: ac_simps)
  moreover have "int (5 + l) = 5 + int l" "int (n - 6 - l) = int (n - 6) - int l" "n - 1 - 5 = n - 6"
    using assms(8) unfolding n by auto
  ultimately have "points_dump_loop [q] b2 (5 + int l) (int (n - 6) - int l) = None" by metis
  moreover have "points_dump_loop [p, q] (buf[0 := NUL]) 0 (int (n - 1)) = do {
      (cnt, b2) \<leftarrow> point_dump p b1 5 (n - 6);
      points_dump_loop [q] b2 (5 + cnt) (int (n - 6) - cnt)
    }"
    using points_dump_step[OF assms(1,2) _ b1(1), of "[q]"] assms(8) unfolding n
    by (simp del: points_dump_loop.simps)
  ultimately have "points_dump_loop [p, q] (buf[0 := NUL]) 0 (int (n - 1)) = None"
    using b2(1) by (simp del: points_dump_loop.simps)
  moreover have "int (n - 1) = int (length buf) - 1" using assms(8) unfolding n_def by simp
  ultimately show ?thesis using buf by (simp add: points_dump_def del: points_dump_loop.simps)
qed

subsection \<open>Properties\<close>


definition sample_point :: "string \<Rightarrow> string \<Rightarrow> int \<Rightarrow> point" where
  "sample_point t k v = point_put_int (point_zero\<lparr>p_type := field_of 24 t, p_key := field_of 23 k\<rparr>) v"

lemma sample_point_wf [simp]: "point_wf (sample_point t k v)"
  by (simp add: sample_point_def point_put_int_def point_wf_def point_zero_def word_bytes_def)

lemma sample_point_data [simp]:
  "p_data_type (sample_point t k v) = 2" "p_time (sample_point t k v) = 0"
  "\<not> bad_data_type (sample_point t k v)"
  "INT_MIN \<le> v \<Longrightarrow> v \<le> INT_MAX \<Longrightarrow> point_get_int (sample_point t k v) = v"
  by (simp_all add: sample_point_def get_put_int)
    (simp_all add: point_put_int_def point_zero_def bad_data_type_iff)

lemma zero_array: "array_wf (replicate n point_zero)" "names_unique (replicate n point_zero)"
proof -
  have "\<not> slot_valid point_zero" by (simp add: slot_valid_def slot_free_def point_type_def point_zero_def
      cstr_replicate[of _ "[]", simplified] POINT_DATA_TYPE_UNKNOWN_def)
  then show "array_wf (replicate n point_zero)" "names_unique (replicate n point_zero)"
    by (simp_all add: array_wf_def names_unique_def)
qed


text \<open>
  A merge is refused exactly when the array has no free slot and no valid point of that name.
\<close>

lemma points_merge_full:
  assumes "array_wf pts" "names_unique pts" "point_wf p"
  shows "(\<exists>pts' p'. points_merge pts p = Some (- ENOMEM, pts', p')) \<longleftrightarrow>
    (\<forall>q\<in>set pts. \<not> slot_free q) \<and> point_map pts (point_name (normal_key p)) = None"
proof -
  obtain r pts' where m: "merge_spec pts (normal_key p) = (r, pts')" by fastforce
  note c = merge_spec_correct(4,7)[OF assms(2,1) normal_key_wf[OF assms(3)] m]
  have "points_merge pts p = Some (r, pts', normal_key p)"
    using points_merge_spec[of pts p] assms(1,3) m by (simp add: array_wf_def)
  moreover have "ENOMEM \<noteq> 0" by (simp add: ENOMEM_def)
  ultimately show ?thesis using c by auto
qed

lemma points_merge_full_witness:
  "\<not> (\<exists>pts' p'. points_merge [point_zero] (sample_point ''uptime'' ''0'' 7) = Some (- ENOMEM, pts', p'))"
proof -
  have "slot_free point_zero"
    by (simp add: slot_free_def point_type_def point_zero_def cstr_replicate[of _ "[]", simplified])
  then show ?thesis
    using points_merge_full[of "[point_zero]" "sample_point ''uptime'' ''0'' 7"] zero_array[of 1] by simp
qed

text \<open>
  C5: A cache fed with any stream of well-formed points holds, for every name, the last accepted
  point of that name if its data type is valid and nothing if it is not; a name that no accepted
  point has keeps its entry. The feed never fails.
\<close>

theorem points_feed_latest:
  assumes "array_ok pts" "\<forall>p\<in>set ps. point_wf p"
  shows "\<exists>rs pts'. feed points_insert pts ps = Some (rs, pts') \<and> array_ok pts' \<and>
    (\<forall>n. point_map pts' n =
      (case find (\<lambda>p. point_name p = n)
          (rev (map (\<lambda>x. normal_key (snd x)) (filter (\<lambda>x. fst x = 0) (zip rs ps)))) of
        Some p \<Rightarrow> (if slot_valid p then Some p else None)
      | None \<Rightarrow> point_map pts n))"
proof -
  obtain rs pts' where f: "feed points_insert pts ps = Some (rs, pts')" "array_ok pts'"
    using arr.feed_total[OF assms] by blast
  show ?thesis
    using f arr.feed_view[OF assms f(1)] by (simp add: foldl_map_merge)
qed

theorem points_feed_latest_witness:
  "\<exists>rs pts'. feed points_insert (replicate 2 point_zero)
    [sample_point ''uptime'' ''0'' 1, sample_point ''uptime'' '''' 2] = Some (rs, pts') \<and> array_ok pts'"
  using points_feed_latest[of "replicate 2 point_zero"
      "[sample_point ''uptime'' ''0'' 1, sample_point ''uptime'' '''' 2]"] zero_array[of 2]
  by (auto simp: array_ok_def)

text \<open>
  A point of unknown data type is stored in a free slot and never found again: publishing the
  same point repeatedly fills one more slot each time, until every free slot is gone.
\<close>

lemma unknown_points_fill_cache:
  assumes "array_wf pts" "point_wf p" "bad_data_type p" "point_type p \<noteq> []" "e < length pts"
    and "slot_free (pts ! e)" "\<forall>i<e. \<not> slot_free (pts ! i)"
    and "\<forall>q\<in>set pts. slot_valid q \<longrightarrow> point_name q \<noteq> point_name (normal_key p)"
  shows "points_merge pts p = Some (0, pts[e := normal_key p], normal_key p) \<and>
    filter slot_free (pts[e := normal_key p]) = filter slot_free (take e pts @ drop (Suc e) pts) \<and>
    (\<forall>q\<in>set (pts[e := normal_key p]). slot_valid q \<longrightarrow> point_name q \<noteq> point_name (normal_key p))"
proof -
  have n1: "find_slot (\<lambda>q. slot_valid q \<and> point_name q = point_name (normal_key p)) pts = None"
    using assms(8) by (auto simp: find_slot_None)
  have "find_slot slot_free pts = Some e"
  proof (cases "find_slot slot_free pts")
    case None
    then show ?thesis using assms(5,6) by (simp add: find_slot_None)
  next
    case (Some i)
    then show ?thesis using find_slot_Some[OF Some] assms(5,6,7) by (metis linorder_neqE_nat)
  qed
  then have m: "points_merge pts p = Some (0, pts[e := normal_key p], normal_key p)"
    using points_merge_spec[of pts p] assms(1,2) n1 by (simp add: array_wf_def merge_spec_def)
  have inv: "\<not> slot_free (normal_key p)" "\<not> slot_valid (normal_key p)"
    using assms(3,4) by (simp_all add: slot_free_def slot_valid_def)
  have f: "filter slot_free (pts[e := normal_key p]) = filter slot_free (take e pts @ drop (Suc e) pts)"
    using assms(5) inv by (simp add: upd_conv_take_nth_drop)
  have "\<forall>q\<in>set (pts[e := normal_key p]). slot_valid q \<longrightarrow> point_name q \<noteq> point_name (normal_key p)"
    using assms(8) inv set_update_subset_insert[of pts e "normal_key p"] by auto
  with m f show ?thesis by blast
qed

lemma unknown_points_fill_cache_witness:
  "let p = point_zero\<lparr>p_type := field_of 24 ''x'', p_key := field_of 23 ''0''\<rparr>
   in points_merge [p, point_zero] p = Some (0, [p, p], p)"
proof -
  let ?p = "point_zero\<lparr>p_type := field_of 24 ''x'', p_key := field_of 23 ''0''\<rparr>"
  have n: "point_wf ?p" "point_type ?p = ''x''" "bad_data_type ?p" "slot_free point_zero" "point_key ?p = ''0''"
    by (simp_all add: point_wf_def point_type_def point_key_def field_of_cstr point_zero_def bad_data_type_iff slot_free_def
      cstr_replicate[of _ "[]", simplified])
  have k: "normal_key ?p = ?p" using n(5) by (simp add: normal_key_def)
  have v: "\<not> slot_free ?p" "\<not> slot_valid ?p" "\<not> slot_valid point_zero"
    using n by (simp_all add: slot_free_def slot_valid_def)
  show ?thesis
    using unknown_points_fill_cache[of "[?p, point_zero]" ?p 1] n k v by (simp add: array_wf_def Let_def)
qed



text \<open>
  C18: The debug dump of a point is memory safe exactly when its type and key fit in the buffer. In
  the 40 bytes its logging macro provides, a type and key of 23 and 17 characters do not: the
  remaining size goes negative, is converted to a huge size, and the dump writes past the end.
\<close>

theorem point_dump_safety:
  assumes "point_wf p" "dump_value p = Some v" "length v < 2 ^ 30" "2 \<le> length buf" "length buf < 2 ^ 31"
  shows "point_dump p buf 0 (length buf) = None \<longleftrightarrow>
    length buf \<le> length (point_type p) + length (dump_sep p)"
  using point_dump_safe_iff[OF assms] by (metis linorder_not_less)

theorem point_dump_safety_witness:
  "point_dump (sample_point ''metricSysCPUPercentages'' ''abcdefghijklmnopq'' 1) (replicate 40 NUL) 0 40 = None"
proof -
  let ?p = "sample_point ''metricSysCPUPercentages'' ''abcdefghijklmnopq'' 1"
  have n: "point_type ?p = ''metricSysCPUPercentages''" "point_key ?p = ''abcdefghijklmnopq''"
    by (simp_all add: sample_point_def point_put_int_def point_type_def point_key_def field_of_cstr)
  have "point_get_int ?p = 1" by (simp add: sample_point_def get_put_int INT_MIN_def INT_MAX_def)
  then have v: "dump_value ?p = Some (''INT: '' @ dec_int 1)"
    by (simp add: dump_value_def)
  have "length (dec_int 1) \<le> 11" by (rule length_dec_int) (simp_all add: INT_MIN_def INT_MAX_def)
  then show ?thesis
    using point_dump_safety[OF sample_point_wf v, of "replicate 40 NUL"] n by (simp add: dump_sep_def)
qed

text \<open>
  When the whole rendering fits, the dump is the type, the key and the value in that order, and
  nothing outside the given part of the buffer changes.
\<close>

lemma point_dump_text:
  assumes "point_wf p" "dump_value p = Some v"
    and "length (point_type p @ dump_sep p @ v) + 2 \<le> len" "len < 2 ^ 31" "base + len \<le> length buf"
  shows "\<exists>buf'. point_dump p buf base len = Some (int (length (point_type p @ dump_sep p @ v)), buf') \<and>
    length buf' = length buf \<and> take base buf' = take base buf \<and>
    drop (base + len) buf' = drop (base + len) buf \<and>
    take (length (point_type p @ dump_sep p @ v) + 1) (drop base buf') = point_type p @ dump_sep p @ v @ [NUL]"
proof -
  define t where "t = point_type p @ dump_sep p @ v"
  obtain k where k: "len = length t + Suc k" using assms(3) by (intro that[of "len - length t - 1"]) (simp add: t_def)
  have "point_dump p buf base len =
      Some (int (length t), take base buf @ t @ NUL # drop (Suc (base + length t)) buf)"
    using point_dump_fits[OF assms(1,2) t_def _ assms(4,5)] assms(3) by (simp add: t_def)
  then have "\<exists>buf'. point_dump p buf base len = Some (int (length t), buf') \<and>
    length buf' = length buf \<and> take base buf' = take base buf \<and>
    drop (base + len) buf' = drop (base + len) buf \<and> take (length t + 1) (drop base buf') = t @ [NUL]"
    using assms(5) k by (intro exI[of _ "take base buf @ t @ NUL # drop (Suc (base + length t)) buf"])
      (simp add: ac_simps)
  then show ?thesis by (simp add: t_def)
qed

lemma point_dump_text_witness:
  "\<exists>buf'. point_dump (point_zero\<lparr>p_type := field_of 24 ''x''\<rparr>) (replicate 128 NUL) 5 100 = Some (21, buf')"
proof -
  let ?p = "point_zero\<lparr>p_type := field_of 24 ''x''\<rparr>"
  have n: "point_wf ?p" using point_zero_wf(1) by (simp add: point_wf_def)
  have m: "point_type ?p = ''x''" "point_key ?p = []" "dump_value ?p = Some ''unknown point type''"
    by (simp_all add: point_type_def point_key_def field_of_cstr point_zero_def dump_value_def
      cstr_replicate[of _ "[]", simplified])
  then show ?thesis
    using point_dump_text[OF n m(3), of 100 5 "replicate 128 NUL"] m by (auto simp: dump_sep_def)
qed

end
