(* ===== verification/Point_Json.thy ===== *)
theory Point_Json
  imports Point
begin


text \<open>
  lib/point.c from the JSON section on: the mirror struct the JSON library works on, escaping,
  the conversions in both directions, the encoders and decoders over the library's routines,
  and the shell command that sends a point.
\<close>

subsection \<open>Data\<close>

datatype cptr = Null | Wild | Ptr bytes
  \<comment> \<open>a \<open>char *\<close>: null, uninitialised, or at the start of an object\<close>

definition deref :: "cptr \<Rightarrow> bytes option" where
  "deref c = (case c of Ptr b \<Rightarrow> Some b | _ \<Rightarrow> None)"

record point_js =
  js_t :: cptr
  js_k :: cptr
  js_dt :: cptr
  js_start :: cptr
  js_length :: nat

definition point_js_zero :: point_js where
  \<comment> \<open>\<open>struct point_js p_js = {}\<close>\<close>
  "point_js_zero = \<lparr>js_t = Null, js_k = Null, js_dt = Null, js_start = Null, js_length = 0\<rparr>"

definition point_js_uninit :: point_js where
  "point_js_uninit = \<lparr>js_t = Wild, js_k = Wild, js_dt = Wild, js_start = Wild, js_length = 0\<rparr>"

definition POINT_JS_ARRAY_MAX :: nat where [simp]: "POINT_JS_ARRAY_MAX = 47"
definition POINT_JSON_DATA_BUF_SIZE :: nat where [simp]: "POINT_JSON_DATA_BUF_SIZE = 40"

record point_js_array =
  ja_points :: "point_js list"
  ja_len :: nat

subsection \<open>Escaping\<close>

definition BACKSLASH :: char where "BACKSLASH = CHR 0x5C"
definition QUOTE :: char where "QUOTE = CHR 0x22"

function escape_loop :: "bytes \<Rightarrow> nat \<Rightarrow> bytes \<Rightarrow> nat \<Rightarrow> nat \<Rightarrow> nat \<Rightarrow> (nat \<times> bytes) option" where
  "escape_loop src src_len dst dst_len si di =
     (if si < src_len then do {
        c \<leftarrow> rd src si;
        if c = NUL then Some (di, dst)
        else do {
          let needed = (if c = QUOTE \<or> c = BACKSLASH then 2 else 1);
          if dst_len \<le> di + needed then Some (di, dst)
          else do {
            (dst, di) \<leftarrow> (if needed = 2 then do { dst \<leftarrow> wr dst di BACKSLASH; Some (dst, Suc di) }
                          else Some (dst, di));
            dst \<leftarrow> wr dst di c;
            escape_loop src src_len dst dst_len (Suc si) (Suc di)
          }
        }
      }
      else Some (di, dst))"
  by pat_completeness auto
termination
  by (relation "measure (\<lambda>(src, src_len, dst, dst_len, si, di). src_len - si)") auto

declare escape_loop.simps [simp del]

definition json_escape_string :: "bytes \<Rightarrow> nat \<Rightarrow> bytes \<Rightarrow> nat \<Rightarrow> (nat \<times> bytes) option" where
  "json_escape_string src src_len dst dst_len =
     (if dst_len = 0 then Some (0, dst)
      else do {
        (di, dst) \<leftarrow> escape_loop src src_len dst dst_len 0 0;
        dst \<leftarrow> wr dst di NUL;
        Some (di, dst)
      })"

definition decode_escape :: "char \<Rightarrow> char" where
  \<comment> \<open>the switch on the character after a backslash\<close>
  "decode_escape c =
     (if c = QUOTE \<or> c = BACKSLASH \<or> c = CHR ''/'' then c
      else if c = CHR ''b'' then CHR 0x08
      else if c = CHR ''f'' then CHR 0x0C
      else if c = CHR ''n'' then CHR 0x0A
      else if c = CHR ''r'' then CHR 0x0D
      else if c = CHR ''t'' then CHR 0x09
      else BACKSLASH)"

function unescape_loop :: "cptr \<Rightarrow> nat \<Rightarrow> bytes \<Rightarrow> nat \<Rightarrow> nat \<Rightarrow> nat \<Rightarrow> (nat \<times> bytes) option" where
  "unescape_loop src src_len dst dst_len si di =
     (if si < src_len then do {
        s \<leftarrow> deref src;
        c \<leftarrow> rd s si;
        if c = NUL then Some (di, dst)
        else if c = BACKSLASH \<and> Suc si < src_len then do {
          next_c \<leftarrow> rd s (Suc si);
          let decoded = decode_escape next_c;
          if dst_len \<le> Suc di then Some (di, dst)
          else do {
            dst \<leftarrow> wr dst di decoded;
            unescape_loop src src_len dst dst_len (if decoded \<noteq> c then si + 2 else Suc si) (Suc di)
          }
        }
        else if dst_len \<le> Suc di then Some (di, dst)
        else do {
          dst \<leftarrow> wr dst di c;
          unescape_loop src src_len dst dst_len (Suc si) (Suc di)
        }
      }
      else Some (di, dst))"
  by pat_completeness auto
termination
  by (relation "measure (\<lambda>(src, src_len, dst, dst_len, si, di). src_len - si)") auto

declare unescape_loop.simps [simp del]

definition json_unescape_string :: "cptr \<Rightarrow> nat \<Rightarrow> bytes \<Rightarrow> nat \<Rightarrow> (nat \<times> bytes) option" where
  "json_unescape_string src src_len dst dst_len =
     (if dst_len = 0 then Some (0, dst)
      else do {
        (di, dst) \<leftarrow> unescape_loop src src_len dst dst_len 0 0;
        dst \<leftarrow> wr dst di NUL;
        Some (di, dst)
      })"

subsection \<open>Points and their JSON mirror\<close>

definition point_to_point_js :: "point \<Rightarrow> bytes \<Rightarrow> nat \<Rightarrow> (point_js \<times> bytes) option" where
  \<comment> \<open>every field of the mirror is assigned; the token points to the scratch buffer, whose
    contents after the call are also returned\<close>
  "point_to_point_js p buf buf_len = do {
     let js = \<lparr>js_t = Ptr (p_type p), js_k = Ptr (p_key p), js_dt = Null, js_start = Null,
               js_length = 0\<rparr>;
     if p_data_type p = POINT_DATA_TYPE_FLOAT then do {
       (ret, buf) \<leftarrow> point_data_to_string p buf buf_len;
       n \<leftarrow> c_strnlen buf buf_len;
       Some (js\<lparr>js_dt := Ptr (lit ''FLT''), js_start := Ptr buf, js_length := n\<rparr>, buf)
     }
     else if p_data_type p = POINT_DATA_TYPE_INT then do {
       (ret, buf) \<leftarrow> point_data_to_string p buf buf_len;
       n \<leftarrow> c_strnlen buf buf_len;
       Some (js\<lparr>js_dt := Ptr (lit ''INT''), js_start := Ptr buf, js_length := n\<rparr>, buf)
     }
     else if p_data_type p = POINT_DATA_TYPE_STRING then do {
       (n, buf) \<leftarrow> json_escape_string (p_data p) DATA_LEN buf buf_len;
       Some (js\<lparr>js_dt := Ptr (lit ''STR''), js_start := Ptr buf, js_length := n\<rparr>, buf)
     }
     else if p_data_type p = POINT_DATA_TYPE_JSON then do {
       (n, buf) \<leftarrow> json_escape_string (p_data p) DATA_LEN buf buf_len;
       Some (js\<lparr>js_dt := Ptr (lit ''JSN''), js_start := Ptr buf, js_length := n\<rparr>, buf)
     }
     else do {
       buf \<leftarrow> wr buf 0 NUL;
       Some (js\<lparr>js_dt := Ptr (lit ''STR''), js_start := Ptr buf, js_length := 0\<rparr>, buf)
     }
   }"

definition token_text :: "point_js \<Rightarrow> bytes option" where
  \<comment> \<open>\<open>cnt = MIN(d.length, sizeof(buf) - 1); memcpy(buf, d.start, cnt); buf[cnt] = 0;\<close>
    the initialised part of the 30 byte buffer. Copying nothing reads nothing.\<close>
  "token_text js =
     (let cnt = min (js_length js) 29
      in if cnt = 0 then Some [NUL]
         else do {
           s \<leftarrow> deref (js_start js);
           if cnt \<le> length s then Some (take cnt s @ [NUL]) else None
         })"

definition point_js_to_point :: "point_js \<Rightarrow> point \<Rightarrow> (int \<times> point) option" where
  "point_js_to_point js p = do {
     let p = p\<lparr>p_time := 0\<rparr>;
     if js_t js = Null \<or> js_k js = Null \<or> js_dt js = Null then Some (-1, p)
     else do {
       t \<leftarrow> deref (js_t js);
       ft \<leftarrow> copy_str_field (p_type p) t TYPE_LEN;
       k \<leftarrow> deref (js_k js);
       fk \<leftarrow> copy_str_field (p_key p) k KEY_LEN;
       let p = p\<lparr>p_type := ft, p_key := fk\<rparr>;
       dt \<leftarrow> deref (js_dt js);
       is_flt \<leftarrow> c_strneq 3 dt (lit ''FLT'');
       if is_flt then do {
         buf \<leftarrow> token_text js;
         f \<leftarrow> atof buf;
         Some (0, p\<lparr>p_data_type := POINT_DATA_TYPE_FLOAT,
                    p_data := word_bytes f @ drop 4 (p_data p)\<rparr>)
       }
       else do {
         is_int \<leftarrow> c_strneq 3 dt (lit ''INT'');
         if is_int then do {
           buf \<leftarrow> token_text js;
           i \<leftarrow> atoi buf;
           Some (0, p\<lparr>p_data_type := POINT_DATA_TYPE_INT,
                      p_data := word_bytes (word_of_int i) @ drop 4 (p_data p)\<rparr>)
         }
         else do {
           is_str \<leftarrow> c_strneq 3 dt (lit ''STR'');
           if is_str then do {
             (n, d) \<leftarrow> json_unescape_string (js_start js) (js_length js) (p_data p) DATA_LEN;
             Some (0, p\<lparr>p_data_type := POINT_DATA_TYPE_STRING, p_data := d\<rparr>)
           }
           else do {
             is_jsn \<leftarrow> c_strneq 3 dt (lit ''JSN'');
             if is_jsn then do {
               (n, d) \<leftarrow> json_unescape_string (js_start js) (js_length js) (p_data p) DATA_LEN;
               Some (0, p\<lparr>p_data_type := POINT_DATA_TYPE_JSON, p_data := d\<rparr>)
             }
             else do {
               d \<leftarrow> wr (p_data p) 0 NUL;
               Some (-1, p\<lparr>p_data_type := POINT_DATA_TYPE_UNKNOWN, p_data := d\<rparr>)
             }
           }
         }
       }
     }
   }"

subsection \<open>Encoding and decoding\<close>

text \<open>
  The JSON library is not part of the repository. Its routines are arguments here:
  \<open>json_calc_encoded_len\<close> and \<open>json_obj_encode_buf\<close> on the mirror of one point,
  \<open>json_arr_encode_buf\<close> on an array of them, and the parsers \<open>json_obj_parse\<close> and
  \<open>json_arr_parse\<close>, which fill a mirror they are given.
\<close>

type_synonym obj_encoder = "point_js \<Rightarrow> bytes \<Rightarrow> nat \<Rightarrow> (int \<times> bytes) option"
type_synonym arr_encoder = "point_js_array \<Rightarrow> bytes \<Rightarrow> nat \<Rightarrow> (int \<times> bytes) option"
type_synonym obj_parser = "bytes \<Rightarrow> nat \<Rightarrow> point_js \<Rightarrow> int \<times> point_js"
type_synonym arr_parser = "bytes \<Rightarrow> nat \<Rightarrow> point_js_array \<Rightarrow> int \<times> point_js_array"

definition point_json_encode ::
  "(point_js \<Rightarrow> int) \<Rightarrow> obj_encoder \<Rightarrow> point \<Rightarrow> bytes \<Rightarrow> nat \<Rightarrow> (int \<times> bytes) option" where
  "point_json_encode calc_encoded_len encode_buf p buf len = do {
     (js, data_buf) \<leftarrow> point_to_point_js p (replicate POINT_JSON_DATA_BUF_SIZE NUL)
                        POINT_JSON_DATA_BUF_SIZE;
     let enc_len = calc_encoded_len js;
     if len < size_t_of_int enc_len then Some (- ENOMEM, buf)
     else encode_buf js buf len
   }"

definition point_json_decode :: "obj_parser \<Rightarrow> bytes \<Rightarrow> nat \<Rightarrow> point \<Rightarrow> (int \<times> point) option" where
  "point_json_decode obj_parse json json_len p =
     (let (ret, js) = obj_parse json json_len point_js_zero
      in if ret < 0 then Some (ret, p)
         else if js_t js = Null \<or> js_k js = Null then Some (-200, p)
         else do {
           (r, p) \<leftarrow> point_js_to_point js p;
           Some (0, p)
         })"

fun encode_points_loop ::
  "point list \<Rightarrow> nat \<Rightarrow> point_js list \<Rightarrow> bytes list \<Rightarrow> (point_js list \<times> bytes list) option" where
  \<comment> \<open>the loop over the \<open>n\<close> points still to do; the mirrors filled so far are \<open>out\<close>\<close>
  "encode_points_loop pts 0 out data_buf = Some (out, data_buf)"
| "encode_points_loop [] (Suc n) out data_buf = None"
| "encode_points_loop (p # pts) (Suc n) out data_buf = do {
     c \<leftarrow> rd (p_type p) 0;
     if c = NUL then encode_points_loop pts n out data_buf
     else if bad_data_type p then encode_points_loop pts n out data_buf
     else if length out < POINT_JS_ARRAY_MAX then do {
       row \<leftarrow> rd data_buf (length out);
       (js, row) \<leftarrow> point_to_point_js p row POINT_JSON_DATA_BUF_SIZE;
       data_buf \<leftarrow> wr data_buf (length out) row;
       encode_points_loop pts n (out @ [js]) data_buf
     }
     else None
   }"

definition points_json_encode ::
  "arr_encoder \<Rightarrow> point list \<Rightarrow> int \<Rightarrow> bytes \<Rightarrow> nat \<Rightarrow> bytes list \<Rightarrow> (int \<times> bytes \<times> bytes list) option"
  where
  \<comment> \<open>\<open>data_buf\<close> is the static scratch area, one row per point\<close>
  "points_json_encode arr_encode pts_in count buf len data_buf =
     (if int POINT_JS_ARRAY_MAX < count then Some (- ENOMEM, buf, data_buf)
      else do {
        (out, data_buf) \<leftarrow> encode_points_loop pts_in (nat count) [] data_buf;
        (ret, buf) \<leftarrow> arr_encode
          \<lparr>ja_points = out @ replicate (POINT_JS_ARRAY_MAX - length out) point_js_zero,
           ja_len = length out\<rparr> buf len;
        Some (ret, buf, data_buf)
      })"

function decode_points_loop :: "point_js list \<Rightarrow> nat \<Rightarrow> point list \<Rightarrow> nat \<Rightarrow> point list option" where
  "decode_points_loop js n pts i =
     (if i < n then do {
        j \<leftarrow> rd js i;
        p \<leftarrow> rd pts i;
        (r, p) \<leftarrow> point_js_to_point j p;
        pts \<leftarrow> wr pts i p;
        decode_points_loop js n pts (Suc i)
      }
      else Some pts)"
  by pat_completeness auto
termination
  by (relation "measure (\<lambda>(js, n, pts, i). n - i)") auto

declare decode_points_loop.simps [simp del]

definition points_json_decode ::
  "arr_parser \<Rightarrow> bytes \<Rightarrow> nat \<Rightarrow> point list \<Rightarrow> nat \<Rightarrow> (int \<times> point list) option" where
  \<comment> \<open>the array of mirrors is an uninitialised local\<close>
  "points_json_decode arr_parse json json_len pts p_cnt =
     (let (ret, arr) = arr_parse json json_len
        \<lparr>ja_points = replicate POINT_JS_ARRAY_MAX point_js_uninit, ja_len = 0\<rparr>
      in if ret \<noteq> 0 then Some (ret, pts)
         else do {
           let len = min p_cnt (ja_len arr);
           pts \<leftarrow> decode_points_loop (ja_points arr) len pts 0;
           Some (int len, pts)
         })"

definition handle_sendpoint ::
  "(tm \<Rightarrow> int) \<Rightarrow> bytes list \<Rightarrow> (int \<times> point list) option" where
  \<comment> \<open>the shell command \<open>p\<close>; the list holds the points published\<close>
  "handle_sendpoint timegm argv =
     (if length argv < 5 then Some (-1, [])
      else do {
        n \<leftarrow> c_strlen (argv ! 4);
        let js = \<lparr>js_t = Ptr (argv ! 1), js_k = Ptr (argv ! 2), js_dt = Ptr (argv ! 3),
                  js_start = Ptr (argv ! 4), js_length = n\<rparr>;
        (ret, p) \<leftarrow> point_js_to_point js point_zero;
        if ret \<noteq> 0 then Some (-1, [])
        else if 6 \<le> length argv then do {
          l \<leftarrow> c_strlen (argv ! 5);
          t \<leftarrow> timeconv_epoch_ns_from_rfc3339 timegm (argv ! 5) l;
          if t = 0 then Some (-1, []) else Some (0, [p\<lparr>p_time := t\<rparr>])
        }
        else Some (0, [p])
      })"

subsection \<open>Lemmas: escaping\<close>

definition esc_char :: "char \<Rightarrow> string" where
  "esc_char c = (if c = QUOTE \<or> c = BACKSLASH then [BACKSLASH, c] else [c])"

definition esc :: "string \<Rightarrow> string" where
  "esc s = concat (map esc_char s)"

fun esc_fit :: "nat \<Rightarrow> string \<Rightarrow> string" where
  \<comment> \<open>the escaped text of the longest prefix whose escaped text has at most \<open>n\<close> characters\<close>
  "esc_fit n [] = []"
| "esc_fit n (c # s) =
     (if length (esc_char c) \<le> n then esc_char c @ esc_fit (n - length (esc_char c)) s else [])"

fun unesc :: "string \<Rightarrow> string" where
  \<comment> \<open>what the decoder makes of a token\<close>
  "unesc [] = []"
| "unesc [c] = [c]"
| "unesc (c # d # s) =
     (if c = BACKSLASH
      then decode_escape d # (if decode_escape d \<noteq> BACKSLASH then unesc s else unesc (d # s))
      else c # unesc (d # s))"

lemma BACKSLASH_simps [simp]: "BACKSLASH \<noteq> NUL" "QUOTE \<noteq> NUL" "NUL \<noteq> BACKSLASH" "NUL \<noteq> QUOTE"
    "BACKSLASH \<noteq> QUOTE" "QUOTE \<noteq> BACKSLASH"
  by (simp_all add: BACKSLASH_def QUOTE_def)

lemma esc_simps [simp]: "esc [] = []" "esc (c # s) = esc_char c @ esc s" "esc (s @ t) = esc s @ esc t"
  by (simp_all add: esc_def)

lemma esc_char_length: "length (esc_char c) = (if c = QUOTE \<or> c = BACKSLASH then 2 else 1)"
  by (simp add: esc_char_def)

lemma esc_length: "length (esc s) \<le> 2 * length s"
  by (induction s) (auto simp: esc_char_length)

lemma esc_plain: "NUL \<notin> set s \<Longrightarrow> NUL \<notin> set (esc s)"
  by (induction s) (auto simp: esc_char_def)

lemma esc_fit_all: "length (esc s) \<le> n \<Longrightarrow> esc_fit n s = esc s"
  by (induction s arbitrary: n) auto

lemma esc_fit_length: "length (esc_fit n s) \<le> n"
  by (induction n s rule: esc_fit.induct) auto

lemma esc_fit_prefix: 
  "\<exists>k\<le>length s. esc_fit n s = esc (take k s) \<and> (k < length s \<longrightarrow> n < length (esc (take (Suc k) s)))"
proof (induction n s rule: esc_fit.induct)
  case (2 n c s)
  show ?case
  proof (cases "length (esc_char c) \<le> n")
    case True
    then obtain k where "k \<le> length s" "esc_fit (n - length (esc_char c)) s = esc (take k s)"
      "k < length s \<longrightarrow> n - length (esc_char c) < length (esc (take (Suc k) s))" using 2 by blast
    then show ?thesis using True by (intro exI[of _ "Suc k"]) auto
  next
    case False
    then show ?thesis by (intro exI[of _ 0]) auto
  qed
qed simp

definition span_ok :: "bytes \<Rightarrow> nat \<Rightarrow> bool" where
  \<comment> \<open>reading up to \<open>n\<close> characters or the terminator stays inside the object\<close>
  "span_ok b n = (n \<le> length b \<or> terminated b)"

lemma span_ok_drop: "span_ok b n \<Longrightarrow> si < n \<Longrightarrow> NUL \<notin> set (take si b) \<Longrightarrow> si < length b"
  by (cases "si < length b") (auto simp: span_ok_def terminated_def)

lemma take_drop_Cons: "si < n \<Longrightarrow> si < length b \<Longrightarrow>
  take (n - si) (drop si b) = b ! si # take (n - Suc si) (drop (Suc si) b)"
  by (simp add: Cons_nth_drop_Suc[symmetric] Suc_diff_Suc take_Cons')

lemma escape_step:
  \<comment> \<open>one pass over a character whose escaped form fits\<close>
  assumes "si < n" "si < length src" "src ! si \<noteq> NUL" "length out + length (esc_char (src ! si)) < dst_len"
    and "length xs = length (esc_char (src ! si))"
  shows "escape_loop src n (out @ xs @ rest) dst_len si (length out) =
    escape_loop src n ((out @ esc_char (src ! si)) @ rest) dst_len (Suc si) (length (out @ esc_char (src ! si)))"
proof (cases "src ! si = QUOTE \<or> src ! si = BACKSLASH")
  case True
  then obtain x y where xs: "xs = [x, y]" using assms(5) by (auto simp: esc_char_def length_Suc_conv numeral_2_eq_2)
  have "wr (out @ BACKSLASH # y # rest) (Suc (length out)) (src ! si) = Some (out @ BACKSLASH # (src ! si) # rest)"
    using wr_append'[of "Suc (length out)" "out @ [BACKSLASH]" y rest "src ! si"] by simp
  then show ?thesis using True assms(1-4) xs
    by (subst escape_loop.simps) (auto simp: esc_char_def wr_append Let_def simp del: wr_Some)
next
  case False
  then obtain x where xs: "xs = [x]" using assms(5) by (auto simp: esc_char_def length_Suc_conv)
  then show ?thesis using False assms(1-4)
    by (subst escape_loop.simps) (auto simp: esc_char_def wr_append Let_def simp del: wr_Some)
qed

lemma escape_loop_spec:
  assumes "span_ok src n" "NUL \<notin> set (take si src)" "dst_len \<le> length out + length rest"
    "length out < dst_len"
  shows "escape_loop src n (out @ rest) dst_len si (length out) =
    (let t = esc_fit (dst_len - 1 - length out) (cstr (take (n - si) (drop si src)))
     in Some (length out + length t, out @ t @ drop (length t) rest))"
  using assms
proof (induction "n - si" arbitrary: si out rest)
  case 0
  then show ?case by (simp add: escape_loop.simps)
next
  case (Suc m)
  have si: "si < n" using Suc(2) by simp
  then have len: "si < length src" using span_ok_drop Suc.prems(1,2) by blast
  have td: "take (n - si) (drop si src) = src ! si # take (n - Suc si) (drop (Suc si) src)"
    by (rule take_drop_Cons[OF si len])
  let ?c = "src ! si" and ?e = "esc_char (src ! si)"
  show ?case
  proof (cases "?c = NUL \<or> dst_len \<le> length out + length ?e")
    case True
    then show ?thesis
      using si len td Suc.prems(4)
      by (subst escape_loop.simps) (auto simp: esc_char_length Let_def)
  next
    case False
    have e: "length ?e \<le> length rest" "length out + length ?e < dst_len"
      using False Suc.prems(3) by auto
    have w: "escape_loop src n (out @ rest) dst_len si (length out) =
        escape_loop src n ((out @ ?e) @ drop (length ?e) rest) dst_len (Suc si) (length (out @ ?e))"
      using escape_step[OF si len _ e(2), of "take (length ?e) rest" "drop (length ?e) rest"] False e(1) by simp
    have nul: "NUL \<notin> set (take (Suc si) src)"
      using Suc.prems(2) False len by (auto simp: take_Suc_conv_app_nth)
    have le: "length ?e \<le> dst_len - Suc (length out)" "m = n - Suc si"
      using e(2) Suc(2) by linarith+
    from nul show ?thesis
      using le Suc(1)[of "Suc si" "out @ ?e" "drop (length ?e) rest"] Suc(2) Suc.prems e False
      unfolding w td by (simp add: Let_def ac_simps)
  qed
qed

lemma json_escape_spec:
  assumes "span_ok src n" "0 < dst_len" "dst_len \<le> length dst"
    and "t = esc_fit (dst_len - 1) (cstr (take n src))"
  shows "json_escape_string src n dst dst_len =
    Some (length t, t @ NUL # drop (Suc (length t)) dst)"
proof -
  have "length t < length dst" using assms esc_fit_length[of "dst_len - 1" "cstr (take n src)"] by simp
  then obtain x r where d: "drop (length t) dst = x # r" "drop (Suc (length t)) dst = r"
    by (metis Cons_nth_drop_Suc)
  then show ?thesis
    using assms escape_loop_spec[of src n 0 dst_len "[]" dst]
    by (simp add: json_escape_string_def Let_def wr_append del: wr_Some)
qed

lemma unescape_step:
  \<comment> \<open>one pass over a character that fits: what is written, where the loop goes on, what is left\<close>
  assumes "span_ok src n" "NUL \<notin> set (take si src)" "si < n" "src ! si \<noteq> NUL" "Suc (length out) < dst_len"
  shows "\<exists>d sj. unescape_loop (Ptr src) n (out @ x # r) dst_len si (length out) =
      unescape_loop (Ptr src) n (out @ d # r) dst_len sj (Suc (length out)) \<and>
    unesc (cstr (take (n - si) (drop si src))) = d # unesc (cstr (take (n - sj) (drop sj src))) \<and>
    si < sj \<and> NUL \<notin> set (take sj src)"
proof -
  let ?c = "src ! si" and ?d = "src ! Suc si" and ?rest = "take (n - Suc si) (drop (Suc si) src)"
  have len: "si < length src" using span_ok_drop assms(1-3) by blast
  have nul: "NUL \<notin> set (take (Suc si) src)" using assms(2,4) len by (simp add: take_Suc_conv_app_nth)
  have td: "take (n - si) (drop si src) = ?c # ?rest" by (rule take_drop_Cons[OF assms(3) len])
  have dr: "deref (Ptr src) = Some src" by (simp add: deref_def)
  show ?thesis
  proof (cases "?c = BACKSLASH \<and> Suc si < n")
    case False
    have "unesc (?c # cstr ?rest) = ?c # unesc (cstr ?rest)" using False assms(3) by (cases "cstr ?rest") auto
    moreover have "unescape_loop (Ptr src) n (out @ x # r) dst_len si (length out) =
        unescape_loop (Ptr src) n (out @ ?c # r) dst_len (Suc si) (Suc (length out))"
      using False assms(3-5) len dr by (subst unescape_loop.simps) (auto simp: Let_def wr_append simp del: wr_Some)
    ultimately show ?thesis using assms(4) nul unfolding td by (intro exI[of _ ?c] exI[of _ "Suc si"]) simp
  next
    case True
    let ?sj = "if decode_escape ?d = BACKSLASH then Suc si else si + 2"
    have len2: "Suc si < length src" using span_ok_drop[OF assms(1) _ nul] True by blast
    have td2: "?rest = ?d # take (n - (si + 2)) (drop (si + 2) src)"
      using take_drop_Cons[of "Suc si" n src] True len2 by simp
    have "decode_escape ?d \<noteq> BACKSLASH \<Longrightarrow> ?d \<noteq> NUL" by (auto simp: decode_escape_def QUOTE_def BACKSLASH_def)
    then have "NUL \<notin> set (take ?sj src)" using nul len2 by (auto simp: take_Suc_conv_app_nth)
    moreover have "unescape_loop (Ptr src) n (out @ x # r) dst_len si (length out) =
        unescape_loop (Ptr src) n (out @ decode_escape ?d # r) dst_len ?sj (Suc (length out))"
      using True assms(3-5) len len2 dr by (subst unescape_loop.simps) (auto simp: Let_def wr_append simp del: wr_Some)
    moreover have "unesc (cstr (take (n - si) (drop si src))) =
        decode_escape ?d # unesc (cstr (take (n - ?sj) (drop ?sj src)))"
      using True assms(4) \<open>_ \<Longrightarrow> ?d \<noteq> NUL\<close> unfolding td by (auto simp: td2)
    ultimately show ?thesis by (intro exI[of _ "decode_escape ?d"] exI[of _ ?sj]) simp
  qed
qed

lemma unescape_stop:
  \<comment> \<open>the loop ends at the end of the token, at a NUL or when the buffer is full\<close>
  assumes "span_ok src n" "NUL \<notin> set (take si src)" "length out < dst_len"
    and "n \<le> si \<or> src ! si = NUL \<or> dst_len \<le> Suc (length out)"
  shows "unescape_loop (Ptr src) n (out @ rest) dst_len si (length out) = Some (length out, out @ rest) \<and>
    take (dst_len - 1 - length out) (unesc (cstr (take (n - si) (drop si src)))) = []"
proof (cases "si < n")
  case False
  then show ?thesis by (simp add: unescape_loop.simps)
next
  case si: True
  then have len: "si < length src" using span_ok_drop assms(1,2) by blast
  have td: "take (n - si) (drop si src) = src ! si # take (n - Suc si) (drop (Suc si) src)"
    by (rule take_drop_Cons[OF si len])
  have dr: "deref (Ptr src) = Some src" by (simp add: deref_def)
  show ?thesis
  proof (cases "src ! si = NUL")
    case True
    then show ?thesis using si len td dr by (subst unescape_loop.simps) simp
  next
    case False
    then have "Suc si < n \<Longrightarrow> Suc si < length src"
      using span_ok_drop[OF assms(1), of "Suc si"] assms(2) len by (simp add: take_Suc_conv_app_nth)
    then show ?thesis using False si len dr assms(3,4) by (subst unescape_loop.simps) (simp add: Let_def)
  qed
qed

lemma unescape_loop_spec:
  assumes "span_ok src n" "NUL \<notin> set (take si src)" "dst_len \<le> length out + length rest"
    "length out < dst_len"
  shows "unescape_loop (Ptr src) n (out @ rest) dst_len si (length out) =
    (let t = take (dst_len - 1 - length out) (unesc (cstr (take (n - si) (drop si src))))
     in Some (length out + length t, out @ t @ drop (length t) rest))"
  using assms
proof (induction "n - si" arbitrary: si out rest rule: less_induct)
  case less
  show ?case
  proof (cases "n \<le> si \<or> src ! si = NUL \<or> dst_len \<le> Suc (length out)")
    case True
    from unescape_stop[OF less.prems(1,2,4) True, of rest] show ?thesis by (simp only: Let_def) simp
  next
    case False
    then have f: "si < n" "src ! si \<noteq> NUL" "Suc (length out) < dst_len" by simp_all
    obtain x r where r: "rest = x # r" using f less.prems(3) by (cases rest) auto
    obtain d sj where s: "unescape_loop (Ptr src) n (out @ x # r) dst_len si (length out) =
        unescape_loop (Ptr src) n ((out @ [d]) @ r) dst_len sj (length (out @ [d]))"
      "unesc (cstr (take (n - si) (drop si src))) = d # unesc (cstr (take (n - sj) (drop sj src)))"
      "si < sj" "NUL \<notin> set (take sj src)"
      using unescape_step[OF less.prems(1,2) f, of x r] by auto
    have "n - sj < n - si" using s(3) f(1) by simp
    from less.hyps[OF this less.prems(1) s(4), of "out @ [d]" r] show ?thesis
      using less.prems(3) f(3) unfolding r s(1,2) by (simp add: Let_def take_Cons')
  qed
qed

lemma json_unescape_spec:
  assumes "span_ok src n" "0 < dst_len" "dst_len \<le> length dst"
    and "t = take (dst_len - 1) (unesc (cstr (take n src)))"
  shows "json_unescape_string (Ptr src) n dst dst_len =
    Some (length t, t @ NUL # drop (Suc (length t)) dst)"
proof -
  have "length t < length dst" using assms by auto
  then obtain x r where d: "drop (length t) dst = x # r" "drop (Suc (length t)) dst = r"
    by (metis Cons_nth_drop_Suc)
  then show ?thesis
    using assms(1-3) unescape_loop_spec[of src n 0 dst_len "[]" dst] assms(4)[symmetric] 
      wr_append[of t x r NUL]
    by (simp add: json_unescape_string_def Let_def del: wr_Some length_take)
qed

lemma json_unescape_nothing:
  "0 < dst_len \<Longrightarrow> dst_len \<le> length dst \<Longrightarrow> json_unescape_string c 0 dst dst_len = Some (0, dst[0 := NUL])"
  by (cases dst) (simp_all add: json_unescape_string_def unescape_loop.simps)

lemma unesc_cons_plain: "c \<noteq> BACKSLASH \<Longrightarrow> unesc (c # s) = c # unesc s"
  by (cases s) auto

lemma decode_quote [simp]: "decode_escape QUOTE = QUOTE" "decode_escape BACKSLASH = BACKSLASH"
  by (simp_all add: decode_escape_def)

lemma unesc_esc_append:
  "BACKSLASH \<notin> set s \<Longrightarrow> unesc (esc s @ r) = s @ unesc r"
  by (induction s) (auto simp: esc_char_def unesc_cons_plain)

lemma unesc_esc: "BACKSLASH \<notin> set s \<Longrightarrow> unesc (esc s) = s"
  using unesc_esc_append[of s "[]"] by simp

lemma unesc_backslashes: "unesc (replicate n BACKSLASH) = replicate n BACKSLASH"
proof (induction n)
  case (Suc n)
  then show ?case by (cases n) auto
qed simp

lemma esc_backslashes: "esc (replicate n BACKSLASH) = replicate (2 * n) BACKSLASH"
  by (induction n) (auto simp: esc_char_def)

lemma unesc_esc_backslashes:
  "BACKSLASH \<notin> set s \<Longrightarrow> unesc (esc (s @ replicate n BACKSLASH)) = s @ replicate (2 * n) BACKSLASH"
  by (simp add: unesc_esc_append esc_backslashes unesc_backslashes)

subsection \<open>Lemmas: numbers in tokens\<close>

definition int_text_ok :: "bytes \<Rightarrow> bool" where
  \<comment> \<open>the digits a C string starts with, after a sign, denote an int\<close>
  "int_text_ok b = (int (dec_value 0 (takeWhile is_digit
     (if b \<noteq> [] \<and> hd b = CHR ''-'' then tl b else b))) \<le> INT_MAX)"

lemma atoi_defined:
  assumes "terminated b"
  shows "atoi b \<noteq> None \<longleftrightarrow> int_text_ok b"
proof -
  define neg where "neg = (b \<noteq> [] \<and> hd b = CHR ''-'')"
  define d where "d = (if neg then tl b else b)"
  define s where "s = takeWhile is_digit d"
  have b: "b = (if neg then CHR ''-'' # d else d)" by (cases b) (auto simp: neg_def d_def)
  have td: "terminated d" using assms by (cases b) (auto simp: d_def neg_def terminated_def)
  have "dropWhile is_digit d \<noteq> []"
    using td not_digit_NUL unfolding dropWhile_eq_Nil_conv terminated_def by blast
  then obtain t post where dr: "dropWhile is_digit d = t # post" by (cases "dropWhile is_digit d") auto
  then have t: "\<not> is_digit t" using hd_dropWhile[of is_digit d] by simp
  have ds: "d = s @ t # post" using dr takeWhile_dropWhile_id[of is_digit d] by (simp add: s_def)
  have s: "\<forall>c\<in>set s. is_digit c" by (auto simp: s_def dest: set_takeWhileD)
  have ok: "int_text_ok b \<longleftrightarrow> int (dec_value 0 s) \<le> INT_MAX"
    by (simp add: int_text_ok_def s_def d_def neg_def)
  show ?thesis
  proof (cases "int (dec_value 0 s) \<le> INT_MAX")
    case True
    have "atoi b \<noteq> None"
    proof (cases neg)
      case neg: True
      have "atoi (CHR ''-'' # s @ t # post) \<noteq> None"
      proof (cases "s = [] \<and> t = CHR ''-''")
        case True
        then show ?thesis by (simp add: atoi_def atoi_loop.simps is_digit_def INT_MIN_def INT_MAX_def)
      next
        case False
        then show ?thesis using atoi_digits(2)[OF s t, of post] \<open>int (dec_value 0 s) \<le> INT_MAX\<close> by simp
      qed
      then show ?thesis using b ds neg by simp
    next
      case pos: False
      then have bd: "b = s @ t # post" using b ds by (simp only: if_False)
      have "s = [] \<Longrightarrow> t \<noteq> CHR ''-''" using pos bd by (simp add: neg_def)
      then have "atoi (s @ t # post) = Some (int (dec_value 0 s))"
        using atoi_digits(1)[OF s t _ True] by blast
      then show ?thesis unfolding bd by simp
    qed
    then show ?thesis using True ok by simp
  next
    case False
    then show ?thesis using atoi_overflow[OF s, of "t # post"] b ds ok by (cases neg) auto
  qed
qed

lemma atof_defined:
  assumes "terminated b"
  shows "\<exists>f. atof b = Some f"
proof -
  have loop: "\<exists>f. atof_loop str i r x m = Some f" if "NUL \<in> set (drop i str)" for str i r x m
    using that
  proof (induction str i r x m rule: atof_loop.induct)
    case (1 str i r x m)
    then have i: "i < length str" by (metis drop_all empty_iff leI list.set(1))
    then have "str ! i \<noteq> NUL \<Longrightarrow> NUL \<in> set (drop (Suc i) str)"
      using 1(4) by (auto simp: Cons_nth_drop_Suc[symmetric])
    then show ?case using 1 i by (subst atof_loop.simps) (auto simp: Let_def)
  qed
  obtain c r where b: "b = c # r" using assms by (cases b) (auto simp: terminated_def)
  have "c = CHR ''-'' \<Longrightarrow> NUL \<in> set r" using assms b by (auto simp: terminated_def)
  then have "\<exists>f. atof_loop b (if c = CHR ''-'' then 1 else 0) f32_zero f32_tenth False = Some f"
    using loop[of 1 b] loop[of 0 b] assms b by (cases "c = CHR ''-''") (simp_all add: terminated_def)
  then obtain f where "atof_loop b (if c = CHR ''-'' then 1 else 0) f32_zero f32_tenth False = Some f" ..
  then show ?thesis using b by (simp add: atof_def Let_def)
qed

subsection \<open>Lemmas: from a point to its mirror\<close>

definition type_code :: "8 word \<Rightarrow> string" where
  "type_code t = (if t = POINT_DATA_TYPE_FLOAT then ''FLT'' else if t = POINT_DATA_TYPE_INT then ''INT''
     else if t = POINT_DATA_TYPE_JSON then ''JSN'' else ''STR'')"

definition token_string :: "point \<Rightarrow> string" where
  \<comment> \<open>the text a point's data has in JSON\<close>
  "token_string p =
     (if p_data_type p = POINT_DATA_TYPE_FLOAT then ftoa_text (point_get_float p) 4
      else if p_data_type p = POINT_DATA_TYPE_INT then dec_int (point_get_int p)
      else if p_data_type p = POINT_DATA_TYPE_STRING \<or> p_data_type p = POINT_DATA_TYPE_JSON
      then esc_fit 39 (cstr (p_data p)) else [])"

definition printable :: "point \<Rightarrow> bool" where
  \<comment> \<open>the numbers the number printers are defined on\<close>
  "printable p = ((p_data_type p = POINT_DATA_TYPE_INT \<longrightarrow> INT_MIN < point_get_int p) \<and>
     (p_data_type p = POINT_DATA_TYPE_FLOAT \<longrightarrow> finite_int_range (point_get_float p)))"

lemma take_written:
  assumes "take (Suc (length t)) b = t @ [NUL]" "NUL \<notin> set t" "length t < n" "n \<le> length b"
  shows "cstr b = t" "terminated b" "c_strnlen b n = Some (length t)" "take (length t) b = t"
proof -
  have b: "b = t @ NUL # drop (Suc (length t)) b"
    using assms(1) by (metis append_Cons append_Nil append_assoc append_take_drop_id)
  show "cstr b = t" "terminated b" using assms(2) b
    by (metis cstr_append_NUL, metis in_set_conv_decomp terminated_def)
  show tk: "take (length t) b = t" using b by (metis append_eq_conv_conj)
  have "take n b = t @ NUL # take (n - Suc (length t)) (drop (Suc (length t)) b)"
    using assms(3) by (subst b) (simp add: take_Cons' Suc_diff_Suc)
  then have "cstr (take n b) = t" using assms(2) by simp
  then show "c_strnlen b n = Some (length t)" using assms(4) by (simp add: c_strnlen_def)
qed

lemma esc_fit_plain: "NUL \<notin> set s \<Longrightarrow> NUL \<notin> set (esc_fit n s)"
  using esc_fit_prefix[of s n] esc_plain by (metis in_set_takeD)

lemma ftoa_text_plain: "finite_int_range v \<Longrightarrow> NUL \<notin> set (ftoa_text v p)"
  using ftoa_text_chars[of v NUL p] by auto

lemma token_string_props:
  assumes "printable p"
  shows "NUL \<notin> set (token_string p)" "length (token_string p) < 40"
proof -
  have "length (dec_int (point_get_int p)) \<le> 11"
    using point_get_int_range by (rule length_dec_int)
  then show "NUL \<notin> set (token_string p)" "length (token_string p) < 40"
    using assms esc_fit_length[of 39 "cstr (p_data p)"] ftoa_text_length(1)[of "point_get_float p" 4]
      ftoa_text_plain
    by (auto simp: token_string_def printable_def esc_fit_plain split: if_splits)
qed

lemma number_to_string:
  \<comment> \<open>a number is rendered in full\<close>
  assumes "printable p" "p_data_type p \<in> {1, 2}" "17 \<le> length buf" "n \<noteq> 0"
  shows "\<exists>b. point_data_to_string p buf n = Some (0, b) \<and> length b = length buf \<and>
    take (Suc (length (token_string p))) b = token_string p @ [NUL]"
proof (cases "p_data_type p = 1")
  case True
  then show ?thesis
    using ftoa_spec[of "point_get_float p" 4 buf] assms by (auto simp: printable_def token_string_def point_data_to_string_def)
next
  case False
  let ?t = "dec_int (point_get_int p)"
  have i: "p_data_type p = 2" "INT_MIN < point_get_int p" using False assms(1,2) by (simp_all add: printable_def)
  have "length ?t \<le> 11" using point_get_int_range by (rule length_dec_int)
  then show ?thesis
    using i assms(3,4) itoa_spec[of "point_get_int p" buf] point_get_int_range(2)[of p]
    by (simp add: token_string_def point_data_to_string_def)
qed

lemma point_to_point_js_spec:
  assumes "point_wf p" "printable p" "length buf = 40"
  shows "\<exists>b. point_to_point_js p buf 40 =
      Some (\<lparr>js_t = Ptr (p_type p), js_k = Ptr (p_key p),
        js_dt = Ptr (lit (type_code (p_data_type p))), js_start = Ptr b,
        js_length = length (token_string p)\<rparr>, b) \<and>
    length b = 40 \<and> take (Suc (length (token_string p))) b = token_string p @ [NUL]"
proof -
  note tok = token_string_props[OF assms(2)]
  have dl: "length (p_data p) = 20" using assms(1) by (simp add: point_wf_def)
  have strings: "json_escape_string (p_data p) 20 buf 40 =
      Some (length t, t @ NUL # drop (Suc (length t)) buf)" "length t \<le> 39"
    if "t = esc_fit 39 (cstr (p_data p))" for t
    using json_escape_spec[of "p_data p" 20 40 buf t] that dl assms(3) esc_fit_length[of 39]
    by (simp_all add: span_ok_def)
  consider (num) "p_data_type p \<in> {1, 2}" | (str) "p_data_type p \<in> {3, 4}" | (bad) "p_data_type p \<notin> {1, 2, 3, 4}" by auto
  then show ?thesis
  proof cases
    case num
    then obtain b where b: "point_data_to_string p buf 40 = Some (0, b)" "length b = 40"
      "take (Suc (length (token_string p))) b = token_string p @ [NUL]"
      using number_to_string[OF assms(2) num, of buf 40] assms(3) by auto
    then show ?thesis
      using num take_written(3)[OF b(3) tok] by (auto simp: point_to_point_js_def type_code_def)
  next
    case str
    then show ?thesis using strings[OF refl] assms(3)
      by (auto simp: point_to_point_js_def type_code_def token_string_def Let_def)
  next
    case bad
    then show ?thesis using assms(3)
      by (cases buf) (simp_all add: point_to_point_js_def type_code_def token_string_def Let_def)
  qed
qed

subsection \<open>Lemmas: from a mirror to a point\<close>

definition str_ptr :: "cptr \<Rightarrow> bool" where
  "str_ptr c = (case c of Null \<Rightarrow> True | Wild \<Rightarrow> False | Ptr b \<Rightarrow> terminated b)"

definition js_ok :: "point_js \<Rightarrow> bool" where
  \<comment> \<open>each name is null or a C string, and the token lies inside its object\<close>
  "js_ok js = (str_ptr (js_t js) \<and> str_ptr (js_k js) \<and> str_ptr (js_dt js) \<and>
     (js_length js = 0 \<or> (\<exists>b. js_start js = Ptr b \<and> js_length js \<le> length b)))"

definition js_token :: "point_js \<Rightarrow> string" where
  "js_token js = (case js_start js of Ptr b \<Rightarrow> take (js_length js) b | _ \<Rightarrow> [])"

definition js_complete :: "point_js \<Rightarrow> bool" where
  "js_complete js = (js_t js \<noteq> Null \<and> js_k js \<noteq> Null \<and> js_dt js \<noteq> Null)"

definition cptr_str :: "cptr \<Rightarrow> string" where
  "cptr_str c = (case c of Ptr b \<Rightarrow> cstr b | _ \<Rightarrow> [])"

definition number_text :: "point_js \<Rightarrow> bytes" where
  "number_text js = take 29 (js_token js) @ [NUL]"

definition store_text :: "8 word \<Rightarrow> string \<Rightarrow> point \<Rightarrow> point" where
  "store_text ty s p = (let t = take (DATA_LEN - 1) s
     in p\<lparr>p_data_type := ty, p_data := t @ NUL # drop (Suc (length t)) (p_data p)\<rparr>)"

definition js_decoded :: "point_js \<Rightarrow> point \<Rightarrow> (int \<times> point) option" where
  \<comment> \<open>what decoding a complete mirror gives, in terms of the setters\<close>
  "js_decoded js p =
     (let p1 = p\<lparr>p_time := 0, p_type := field_of TYPE_LEN (cptr_str (js_t js)),
                p_key := field_of KEY_LEN (cptr_str (js_k js))\<rparr>;
          code = take 3 (cptr_str (js_dt js));
          text = unesc (cstr (js_token js))
      in if code = ''FLT'' then map_option (\<lambda>f. (0, point_put_float p1 f)) (atof (number_text js))
         else if code = ''INT'' then map_option (\<lambda>i. (0, point_put_int p1 i)) (atoi (number_text js))
         else if code = ''STR'' then Some (0, store_text POINT_DATA_TYPE_STRING text p1)
         else if code = ''JSN'' then Some (0, store_text POINT_DATA_TYPE_JSON text p1)
         else Some (-1, p1\<lparr>p_data_type := POINT_DATA_TYPE_UNKNOWN, p_data := (p_data p1)[0 := NUL]\<rparr>))"

lemma c_strneq_3:
  assumes "terminated dt" "a \<noteq> NUL" "b \<noteq> NUL" "c \<noteq> NUL"
  shows "c_strneq 3 dt (lit [a, b, c]) = Some (take 3 (cstr dt) = [a, b, c])"
proof -
  have s: "c_strneq 3 = c_strneq (Suc (Suc (Suc 0)))" by (simp add: numeral_3_eq_3)
  obtain x1 r1 where 1: "dt = x1 # r1" using assms(1) by (cases dt) (auto simp: terminated_def)
  show ?thesis
  proof (cases "x1 = NUL")
    case True
    then show ?thesis using assms 1 by (simp add: s lit_def)
  next
    case False
    then have "terminated r1" using assms(1) 1 by (simp add: terminated_def)
    then obtain x2 r2 where 2: "r1 = x2 # r2" by (cases r1) (auto simp: terminated_def)
    show ?thesis
    proof (cases "x2 = NUL")
      case True
      then show ?thesis using assms False 1 2 by (simp add: s lit_def)
    next
      case x2: False
      then have "terminated r2" using \<open>terminated r1\<close> 2 by (simp add: terminated_def)
      then obtain x3 r3 where "r2 = x3 # r3" by (cases r2) (auto simp: terminated_def)
      then show ?thesis using assms False x2 1 2
        by (auto simp: s lit_def numeral_3_eq_3)
    qed
  qed
qed

lemma token_text_ok: "js_ok js \<Longrightarrow> token_text js = Some (number_text js)"
  by (auto simp: token_text_def number_text_def js_token_def js_ok_def deref_def Let_def min_def
    split: cptr.splits)

lemma unescape_ok:
  assumes "js_ok js" "length d = DATA_LEN"
  shows "\<exists>n. json_unescape_string (js_start js) (js_length js) d DATA_LEN =
    Some (n, (let t = take (DATA_LEN - 1) (unesc (cstr (js_token js)))
      in t @ NUL # drop (Suc (length t)) d))"
proof (cases "js_length js = 0")
  case True
  then have t: "js_token js = []" by (simp add: js_token_def split: cptr.splits)
  show ?thesis using assms(2) json_unescape_nothing[of DATA_LEN d] unfolding t True
    by (cases d) auto
next
  case False
  then obtain b where b: "js_start js = Ptr b" "js_length js \<le> length b"
    using assms(1) by (auto simp: js_ok_def)
  have "js_token js = take (js_length js) b" using b(1) by (simp add: js_token_def)
  then show ?thesis
    using json_unescape_spec[of b "js_length js" DATA_LEN d _] b assms(2)
    by (simp add: span_ok_def Let_def)
qed

lemma point_js_to_point_spec:
  assumes "js_ok js" "point_wf p"
  shows "point_js_to_point js p =
    (if js_complete js then js_decoded js p else Some (-1, p\<lparr>p_time := 0\<rparr>))"
proof (cases "js_complete js")
  case False
  then show ?thesis by (auto simp: js_complete_def point_js_to_point_def)
next
  case True
  then obtain t k dt where f: "js_t js = Ptr t" "terminated t" "js_k js = Ptr k" "terminated k"
    "js_dt js = Ptr dt" "terminated dt"
    using assms(1) by (auto simp: js_complete_def js_ok_def str_ptr_def split: cptr.splits)
  note wf = assms(2)[unfolded point_wf_def]
  have ft: "copy_str_field (p_type p) t TYPE_LEN = Some (field_of TYPE_LEN (cstr t))"
    using copy_str_field_spec[of t TYPE_LEN "p_type p"] f(2) wf by simp
  have fk: "copy_str_field (p_key p) k KEY_LEN = Some (field_of KEY_LEN (cstr k))"
    using copy_str_field_spec[of k KEY_LEN "p_key p"] f(4) wf by simp
  obtain n where u: "json_unescape_string (js_start js) (js_length js) (p_data p) DATA_LEN =
    Some (n, (let t = take (DATA_LEN - 1) (unesc (cstr (js_token js)))
      in t @ NUL # drop (Suc (length t)) (p_data p)))"
    using unescape_ok[OF assms(1), of "p_data p"] wf by auto
  have w: "wr (p_data p) 0 NUL = Some ((p_data p)[0 := NUL])" using wf by simp
  have code: "c_strneq 3 dt (lit ''FLT'') = Some (take 3 (cstr dt) = ''FLT'')"
    "c_strneq 3 dt (lit ''INT'') = Some (take 3 (cstr dt) = ''INT'')"
    "c_strneq 3 dt (lit ''STR'') = Some (take 3 (cstr dt) = ''STR'')"
    "c_strneq 3 dt (lit ''JSN'') = Some (take 3 (cstr dt) = ''JSN'')"
    using f(6) by (simp_all add: c_strneq_3)
  have c: "cptr_str (Ptr b) = cstr b" for b by (simp add: cptr_str_def)
  have d: "deref (Ptr b) = Some b" for b by (simp add: deref_def)
  show ?thesis
    using True
    unfolding point_js_to_point_def js_decoded_def Let_def f(1,3,5) c d
    by (simp add: ft[unfolded TYPE_LEN_def] fk[unfolded KEY_LEN_def] u[unfolded DATA_LEN_def]
      code token_text_ok[OF assms(1)] w store_text_def Let_def
      point_put_float_def point_put_int_def bind_map_option map_conv_bind_option comp_def del: wr_Some)
qed

lemma store_text_wf:
  assumes "point_wf p" "NUL \<notin> set s"
  shows "point_wf (store_text ty s p)" "text_wf (store_text ty s p)"
    "cstr (p_data (store_text ty s p)) = take 19 s"
proof -
  have "NUL \<notin> set (take 19 s)" using assms(2) by (meson in_set_takeD)
  then show "point_wf (store_text ty s p)" "text_wf (store_text ty s p)"
    "cstr (p_data (store_text ty s p)) = take 19 s"
    using assms(1) by (auto simp: store_text_def point_wf_def text_wf_def terminated_def Let_def)
qed

lemma decode_escape_plain [simp]: "decode_escape c \<noteq> NUL" "NUL \<noteq> decode_escape c"
  by (auto simp: decode_escape_def QUOTE_def BACKSLASH_def)

lemma unesc_plain: "NUL \<notin> set s \<Longrightarrow> NUL \<notin> set (unesc s)"
  by (induction s rule: unesc.induct) auto

lemma point_js_to_point_defined:
  assumes "js_ok js" "point_wf p"
  shows "point_js_to_point js p \<noteq> None \<longleftrightarrow>
    (js_complete js \<and> take 3 (cptr_str (js_dt js)) = ''INT'' \<longrightarrow> int_text_ok (number_text js))"
proof -
  have t: "terminated (number_text js)" by (simp add: number_text_def terminated_def)
  show ?thesis
    unfolding point_js_to_point_spec[OF assms] js_decoded_def Let_def
    using atoi_defined[OF t] atof_defined[OF t] by auto
qed

lemma js_decoded_wf:
  assumes "point_wf p" "js_decoded js p = Some (r, p')"
  shows "point_wf p' \<and> text_wf p' \<and> (r = 0 \<and> \<not> bad_data_type p' \<or> r = -1 \<and> bad_data_type p') \<and>
    p_type p' = field_of TYPE_LEN (cptr_str (js_t js)) \<and>
    p_key p' = field_of KEY_LEN (cptr_str (js_k js)) \<and> p_time p' = 0"
proof -
  define p1 where "p1 = p\<lparr>p_time := 0, p_type := field_of TYPE_LEN (cptr_str (js_t js)),
    p_key := field_of KEY_LEN (cptr_str (js_k js))\<rparr>"
  let ?text = "unesc (cstr (js_token js))"
  have p1: "point_wf p1" using assms(1) by (simp add: p1_def point_wf_def)
  have plain: "NUL \<notin> set ?text" by (simp add: unesc_plain)
  note st = store_text_wf[OF p1 plain]
  have names: "p_type p1 = field_of TYPE_LEN (cptr_str (js_t js))"
    "p_key p1 = field_of KEY_LEN (cptr_str (js_k js))" "p_time p1 = 0" by (simp_all add: p1_def)
  have fl: "point_wf (point_put_float p1 f)" "text_wf (point_put_float p1 f)"
    "\<not> bad_data_type (point_put_float p1 f)" for f
    using p1 by (simp_all add: point_put_float_def point_wf_def text_wf_def bad_data_type_iff word_bytes_def)
  have it: "point_wf (point_put_int p1 i)" "text_wf (point_put_int p1 i)"
    "\<not> bad_data_type (point_put_int p1 i)" for i
    using p1 by (simp_all add: point_put_int_def point_wf_def text_wf_def bad_data_type_iff word_bytes_def)
  consider f where "r = 0" "p' = point_put_float p1 f" | i where "r = 0" "p' = point_put_int p1 i"
    | "r = 0" "p' = store_text POINT_DATA_TYPE_STRING ?text p1"
    | "r = 0" "p' = store_text POINT_DATA_TYPE_JSON ?text p1"
    | "r = -1" "p' = p1\<lparr>p_data_type := POINT_DATA_TYPE_UNKNOWN, p_data := (p_data p1)[0 := NUL]\<rparr>"
    using assms(2) unfolding js_decoded_def p1_def[symmetric] Let_def
    by (auto split: if_splits)
  then show ?thesis
  proof cases
    case 1
    then show ?thesis using fl names by (simp add: point_put_float_def)
  next
    case 2
    then show ?thesis using it names by (simp add: point_put_int_def)
  next
    case 3
    then show ?thesis using st[of POINT_DATA_TYPE_STRING] names
      by (simp add: store_text_def bad_data_type_iff Let_def)
  next
    case 4
    then show ?thesis using st[of POINT_DATA_TYPE_JSON] names
      by (simp add: store_text_def bad_data_type_iff Let_def)
  next
    case 5
    then show ?thesis using p1 names by (simp add: point_wf_def text_wf_def bad_data_type_def)
  qed
qed

lemma point_js_to_point_wf:
  assumes "js_ok js" "point_wf p" "text_wf p" "point_js_to_point js p = Some (r, p')"
  shows "point_wf p'" "text_wf p'" "p_time p' = 0" "r \<in> {0, -1}" "r = 0 \<Longrightarrow> \<not> bad_data_type p'"
    "r = 0 \<Longrightarrow> js_complete js"
proof -
  consider "js_complete js" "js_decoded js p = Some (r, p')"
    | "\<not> js_complete js" "r = -1" "p' = p\<lparr>p_time := 0\<rparr>"
    using assms(4) unfolding point_js_to_point_spec[OF assms(1,2)] by (auto split: if_splits)
  then have "point_wf p' \<and> text_wf p' \<and> p_time p' = 0 \<and> r \<in> {0, -1} \<and>
    (r = 0 \<longrightarrow> \<not> bad_data_type p' \<and> js_complete js)"
  proof cases
    case 1
    then show ?thesis using js_decoded_wf[OF assms(2) 1(2)] by auto
  next
    case 2
    then show ?thesis using assms(2,3) by (simp add: point_wf_def text_wf_def)
  qed
  then show "point_wf p'" "text_wf p'" "p_time p' = 0" "r \<in> {0, -1}" "r = 0 \<Longrightarrow> \<not> bad_data_type p'"
    "r = 0 \<Longrightarrow> js_complete js" by auto
qed

subsection \<open>Lemmas: the round trip of a point\<close>

lemma esc_fit_data: "length s \<le> 19 \<Longrightarrow> esc_fit 39 s = esc s"
  using esc_length[of s] by (intro esc_fit_all) simp

lemma token_decoded:
  \<comment> \<open>decoding a mirror that carries the names, the type code and the text of a point\<close>
  assumes "point_wf p" "text_wf p" "printable p" "\<not> bad_data_type p"
    and names: "cptr_str (js_t js) = point_type p" "cptr_str (js_k js) = point_key p"
    and code: "cptr_str (js_dt js) = type_code (p_data_type p)" and tk: "js_token js = token_string p"
  shows "js_decoded js q =
      (let q1 = q\<lparr>p_time := 0, p_type := field_of 24 (point_type p), p_key := field_of 23 (point_key p)\<rparr>
       in if p_data_type p = POINT_DATA_TYPE_INT then Some (0, point_put_int q1 (point_get_int p))
          else if p_data_type p = POINT_DATA_TYPE_FLOAT
          then map_option (\<lambda>f. (0, point_put_float q1 f))
            (atof (ftoa_text (point_get_float p) 4 @ [NUL]))
          else Some (0, store_text (p_data_type p) (unesc (esc (cstr (p_data p)))) q1))"
proof -
  have dt: "p_data_type p \<in> {1, 2, 3, 4}" using assms(4) by (simp add: bad_data_type_iff)
  have c3: "take 3 (type_code (p_data_type p)) = type_code (p_data_type p)" by (simp add: type_code_def)
  have cs: "cstr (token_string p) = token_string p" using token_string_props(1)[OF assms(3)] by simp
  have strs: "token_string p = esc (cstr (p_data p))" if "p_data_type p \<in> {3, 4}"
  proof -
    have "terminated (p_data p)" using that assms(2) by (simp add: text_wf_def)
    then have "length (cstr (p_data p)) \<le> 19"
      using length_cstr_less[of "p_data p"] assms(1) by (simp add: point_wf_def)
    then show ?thesis using that esc_fit_data by (auto simp: token_string_def)
  qed
  have num: "number_text js = token_string p @ [NUL]" if "p_data_type p \<in> {1, 2}"
  proof -
    have "length (token_string p) \<le> 29"
      using that assms(3) length_dec_int[OF point_get_int_range[of p]]
        ftoa_text_length(1)[of "point_get_float p" 4]
      by (auto simp: token_string_def printable_def)
    then show ?thesis unfolding number_text_def tk by simp
  qed
  have "atoi (dec_int (point_get_int p) @ [NUL]) = Some (point_get_int p)" if "p_data_type p = 2"
    using atoi_dec_int[of "point_get_int p" "[]"] that assms(3) point_get_int_range
    by (simp add: printable_def)
  then show ?thesis
    using dt num strs cs
    unfolding js_decoded_def Let_def code c3 names tk by (auto simp: type_code_def token_string_def)
qed

lemma point_js_roundtrip:
  assumes "point_wf p" "text_wf p" "printable p" "\<not> bad_data_type p" "length buf = 40" "point_wf q"
  shows "\<exists>js b. point_to_point_js p buf 40 = Some (js, b) \<and> js_ok js \<and> js_complete js \<and>
    js_token js = token_string p \<and>
    point_js_to_point js q =
      (let q1 = q\<lparr>p_time := 0, p_type := field_of 24 (point_type p), p_key := field_of 23 (point_key p)\<rparr>
       in if p_data_type p = POINT_DATA_TYPE_INT then Some (0, point_put_int q1 (point_get_int p))
          else if p_data_type p = POINT_DATA_TYPE_FLOAT
          then map_option (\<lambda>f. (0, point_put_float q1 f))
            (atof (ftoa_text (point_get_float p) 4 @ [NUL]))
          else Some (0, store_text (p_data_type p) (unesc (esc (cstr (p_data p)))) q1))"
proof -
  obtain b where b: "point_to_point_js p buf 40 =
      Some (\<lparr>js_t = Ptr (p_type p), js_k = Ptr (p_key p),
        js_dt = Ptr (lit (type_code (p_data_type p))), js_start = Ptr b,
        js_length = length (token_string p)\<rparr>, b)" (is "_ = Some (?js, b)")
    "length b = 40" "take (Suc (length (token_string p))) b = token_string p @ [NUL]"
    using point_to_point_js_spec[OF assms(1,3,5)] by blast
  note tok = token_string_props[OF assms(3)]
  have tk: "js_token ?js = token_string p"
    using take_written(4)[OF b(3) tok(1), of 40] tok b(2) by (simp add: js_token_def)
  have ok: "js_ok ?js" "js_complete ?js"
    using assms(1) tok b(2) by (auto simp: js_ok_def str_ptr_def js_complete_def point_wf_def)
  have names: "cptr_str (js_t ?js) = point_type p" "cptr_str (js_k ?js) = point_key p"
    "cptr_str (js_dt ?js) = type_code (p_data_type p)"
    by (simp_all add: cptr_str_def point_type_def point_key_def type_code_def)
  show ?thesis
    using b(1) ok tk point_js_to_point_spec[OF ok(1) assms(6)] token_decoded[OF assms(1-4) names tk, of q] by auto
qed

subsection \<open>Lemmas: arrays of points\<close>

definition sendable :: "point \<Rightarrow> bool" where
  "sendable p = (point_type p \<noteq> [] \<and> \<not> bad_data_type p)"

definition js_view :: "point_js \<Rightarrow> cptr \<times> cptr \<times> cptr \<times> string" where
  \<comment> \<open>all an encoder may look at\<close>
  "js_view js = (js_t js, js_k js, js_dt js, js_token js)"

definition point_view :: "point \<Rightarrow> cptr \<times> cptr \<times> cptr \<times> string" where
  "point_view p = (Ptr (p_type p), Ptr (p_key p), Ptr (lit (type_code (p_data_type p))), token_string p)"

lemma point_to_point_js_view:
  assumes "point_wf p" "printable p" "length buf = 40"
  shows "\<exists>js b. point_to_point_js p buf 40 = Some (js, b) \<and> length b = 40 \<and>
    js_view js = point_view p \<and> js_ok js \<and> js_complete js"
proof -
  obtain b where b: "point_to_point_js p buf 40 =
      Some (\<lparr>js_t = Ptr (p_type p), js_k = Ptr (p_key p),
        js_dt = Ptr (lit (type_code (p_data_type p))), js_start = Ptr b,
        js_length = length (token_string p)\<rparr>, b)" (is "_ = Some (?js, b)")
    "length b = 40" "take (Suc (length (token_string p))) b = token_string p @ [NUL]"
    using point_to_point_js_spec[OF assms] by blast
  note tok = token_string_props[OF assms(2)]
  have tk: "js_token ?js = token_string p"
    using take_written(4)[OF b(3) tok(1), of 40] tok b(2) by (simp add: js_token_def)
  have "js_ok ?js" "js_complete ?js"
    using assms(1) tok b(2) by (auto simp: js_ok_def str_ptr_def js_complete_def point_wf_def)
  then show ?thesis using b(1,2) tk by (simp add: js_view_def point_view_def)
qed

definition rows_ok :: "bytes list \<Rightarrow> bool" where
  \<comment> \<open>the static scratch area\<close>
  "rows_ok data_buf = (length data_buf = 47 \<and> (\<forall>r\<in>set data_buf. length r = 40))"

lemma encode_points_loop_spec:
  assumes "n \<le> length pts" "length out + n \<le> 47" "rows_ok data_buf"
    and "\<And>p. p \<in> set (take n pts) \<Longrightarrow> point_wf p \<and> (sendable p \<longrightarrow> printable p)"
  shows "\<exists>out' db. encode_points_loop pts n out data_buf = Some (out @ out', db) \<and> rows_ok db \<and>
    map js_view out' = map point_view (filter sendable (take n pts)) \<and>
    (\<forall>js\<in>set out'. js_ok js \<and> js_complete js)"
  using assms
proof (induction n arbitrary: pts out data_buf)
  case 0
  then show ?case by simp
next
  case (Suc n)
  from Suc.prems(1) obtain p pts' where pts: "pts = p # pts'" by (cases pts) auto
  have wf: "point_wf p" "sendable p \<Longrightarrow> printable p" using Suc.prems(4)[of p] pts by auto
  have wfs: "q \<in> set (take n pts') \<Longrightarrow> point_wf q \<and> (sendable q \<longrightarrow> printable q)" for q
    using Suc.prems(4)[of q] pts by auto
  have le: "n \<le> length pts'" "length out + n \<le> 47" using Suc.prems(1,2) pts by auto
  have "p_type p \<noteq> []" using wf(1) by (auto simp: point_wf_def)
  have t: "rd (p_type p) 0 = Some (p_type p ! 0)" "p_type p ! 0 = NUL \<longleftrightarrow> point_type p = []"
    using \<open>p_type p \<noteq> []\<close> cstr_eq_Nil[of "p_type p"] by (simp_all add: point_type_def)
  show ?case
  proof (cases "sendable p")
    case False
    then have "encode_points_loop pts (Suc n) out data_buf = encode_points_loop pts' n out data_buf"
      using t pts by (auto simp: sendable_def)
    then show ?thesis using Suc.IH[OF le Suc.prems(3) wfs] False pts by simp
  next
    case True
    have "length out < length data_buf" using Suc.prems(2,3) by (simp add: rows_ok_def)
    then have row: "length (data_buf ! length out) = 40" "rd data_buf (length out) = Some (data_buf ! length out)"
      using Suc.prems(3) by (auto simp: rows_ok_def)
    obtain js b where js: "point_to_point_js p (data_buf ! length out) 40 = Some (js, b)"
      "length b = 40" "js_view js = point_view p" "js_ok js" "js_complete js"
      using point_to_point_js_view[OF wf(1) _ row(1)] wf(2) True by blast
    have db: "rows_ok (data_buf[length out := b])" "length (out @ [js]) + n \<le> 47"
      using Suc.prems(1-3) js(2) by (auto simp: rows_ok_def dest!: set_update_subset_insert[THEN subsetD])
    have step: "encode_points_loop pts (Suc n) out data_buf =
      encode_points_loop pts' n (out @ [js]) (data_buf[length out := b])"
      using True t row js(1) Suc.prems(2) \<open>length out < length data_buf\<close> pts by (simp add: sendable_def)
    obtain out' db' where "encode_points_loop pts' n (out @ [js]) (data_buf[length out := b]) =
        Some ((out @ [js]) @ out', db')" "rows_ok db'"
      "map js_view out' = map point_view (filter sendable (take n pts'))"
      "\<forall>js\<in>set out'. js_ok js \<and> js_complete js"
      using Suc.IH[OF le(1) db(2,1) wfs] by blast
    then show ?thesis using True js(3-5) step pts by (intro exI[of _ "js # out'"] exI[of _ db']) simp
  qed
qed

lemma points_json_encode_spec:
  assumes "0 \<le> count" "count \<le> 47" "nat count \<le> length pts" "rows_ok data_buf"
    and "\<And>p. p \<in> set (take (nat count) pts) \<Longrightarrow> point_wf p \<and> (sendable p \<longrightarrow> printable p)"
  shows "\<exists>out db. rows_ok db \<and> map js_view out = map point_view (filter sendable (take (nat count) pts)) \<and>
    (\<forall>js\<in>set out. js_ok js \<and> js_complete js) \<and>
    points_json_encode arr_encode pts count buf len data_buf =
      map_option (\<lambda>(ret, buf). (ret, buf, db))
        (arr_encode \<lparr>ja_points = out @ replicate (47 - length out) point_js_zero,
          ja_len = length out\<rparr> buf len)"
proof -
  obtain out db where "encode_points_loop pts (nat count) [] data_buf = Some (out, db)" "rows_ok db"
    "map js_view out = map point_view (filter sendable (take (nat count) pts))"
    "\<forall>js\<in>set out. js_ok js \<and> js_complete js"
  proof -
    have "length [] + nat count \<le> 47" using assms(1,2) by simp
    from encode_points_loop_spec[OF assms(3) this assms(4,5)] that show thesis by auto
  qed
  then show ?thesis using assms(2)
    by (intro exI[of _ out] exI[of _ db])
      (simp add: points_json_encode_def map_conv_bind_option comp_def case_prod_unfold)
qed

lemma decode_points_loop_spec:
  assumes "i \<le> n" "n \<le> length js" "n \<le> length pts"
    and "\<And>j. i \<le> j \<Longrightarrow> j < n \<Longrightarrow> js_ok (js ! j) \<and> point_js_to_point (js ! j) (pts ! j) \<noteq> None"
    and "\<And>p. p \<in> set pts \<Longrightarrow> point_wf p \<and> text_wf p"
  shows "\<exists>pts'. decode_points_loop js n pts i = Some pts' \<and> length pts' = length pts \<and>
    (\<forall>p\<in>set pts'. point_wf p \<and> text_wf p) \<and>
    (\<forall>j<length pts. if i \<le> j \<and> j < n
      then \<exists>r. point_js_to_point (js ! j) (pts ! j) = Some (r, pts' ! j) else pts' ! j = pts ! j)"
  using assms
proof (induction "n - i" arbitrary: i pts)
  case 0
  then show ?case by (intro exI[of _ pts]) (auto simp: decode_points_loop.simps)
next
  case (Suc m)
  then have i: "i < n" "i < length js" "i < length pts" by auto
  obtain r p where p: "point_js_to_point (js ! i) (pts ! i) = Some (r, p)"
    using Suc.prems(4)[of i] i(1) by auto
  have wf: "point_wf p" "text_wf p"
    using point_js_to_point_wf(1,2)[OF _ _ _ p] Suc.prems(4)[of i] Suc.prems(5)[of "pts ! i"] i by auto
  have step: "decode_points_loop js n pts i = decode_points_loop js n (pts[i := p]) (Suc i)"
    using i p by (subst decode_points_loop.simps) simp
  have "\<exists>pts'. decode_points_loop js n (pts[i := p]) (Suc i) = Some pts' \<and>
    length pts' = length (pts[i := p]) \<and> (\<forall>p\<in>set pts'. point_wf p \<and> text_wf p) \<and>
    (\<forall>j<length (pts[i := p]). if Suc i \<le> j \<and> j < n
      then \<exists>r. point_js_to_point (js ! j) (pts[i := p] ! j) = Some (r, pts' ! j)
      else pts' ! j = pts[i := p] ! j)"
  proof (rule Suc.hyps(1))
    show "m = n - Suc i" "Suc i \<le> n" "n \<le> length js" "n \<le> length (pts[i := p])"
      using Suc.hyps(2) Suc.prems i by auto
    show "js_ok (js ! j) \<and> point_js_to_point (js ! j) (pts[i := p] ! j) \<noteq> None"
      if "Suc i \<le> j" "j < n" for j using Suc.prems(4)[of j] that by simp
    show "point_wf q \<and> text_wf q" if "q \<in> set (pts[i := p])" for q
      using that set_update_subset_insert[of pts i p] Suc.prems(5) wf by auto
  qed
  then obtain pts' where pts': "decode_points_loop js n (pts[i := p]) (Suc i) = Some pts'"
    "length pts' = length pts" "\<forall>p\<in>set pts'. point_wf p \<and> text_wf p"
    "\<And>j. j < length pts \<Longrightarrow> if Suc i \<le> j \<and> j < n
      then \<exists>r. point_js_to_point (js ! j) (pts[i := p] ! j) = Some (r, pts' ! j)
      else pts' ! j = pts[i := p] ! j" by auto
  have "if i \<le> j \<and> j < n then \<exists>r. point_js_to_point (js ! j) (pts ! j) = Some (r, pts' ! j)
    else pts' ! j = pts ! j" if "j < length pts" for j
    using pts'(4)[OF that] p i by (cases "j = i") (auto simp: Suc_le_eq split: if_splits)
  then show ?case using step pts'(1-3) by auto
qed

subsection \<open>Lemmas: the shell command\<close>

lemma js_of_args:
  assumes "terminated t" "terminated k" "terminated dt" "terminated d"
    and "js = \<lparr>js_t = Ptr t, js_k = Ptr k, js_dt = Ptr dt, js_start = Ptr d, js_length = length (cstr d)\<rparr>"
  shows "js_ok js" "js_complete js" "js_token js = cstr d"
proof -
  have "take (length (cstr d)) d = cstr d"
    by (metis append_eq_conv_conj assms(4) terminated_split)
  then show "js_ok js" "js_complete js" "js_token js = cstr d"
    using assms length_cstr_le[of d] by (simp_all add: js_ok_def str_ptr_def js_complete_def js_token_def)
qed

lemma handle_sendpoint_spec:
  assumes "5 \<le> length argv" "\<forall>a\<in>set argv. terminated a"
    and "js = \<lparr>js_t = Ptr (argv ! 1), js_k = Ptr (argv ! 2), js_dt = Ptr (argv ! 3),
      js_start = Ptr (argv ! 4), js_length = length (cstr (argv ! 4))\<rparr>"
  shows "handle_sendpoint timegm argv = do {
    (r, p) \<leftarrow> js_decoded js point_zero;
    if r \<noteq> 0 then Some (-1, [])
    else if length argv < 6 then Some (0, [p])
    else do {
      t \<leftarrow> timeconv_epoch_ns_from_rfc3339 timegm (argv ! 5) (length (cstr (argv ! 5)));
      Some (if t = 0 then (-1, []) else (0, [p\<lparr>p_time := t\<rparr>]))
    }
  }"
proof -
  have t: "terminated (argv ! 1)" "terminated (argv ! 2)" "terminated (argv ! 3)" "terminated (argv ! 4)"
    "6 \<le> length argv \<Longrightarrow> terminated (argv ! 5)"
    using assms(1,2) by auto
  note js = js_of_args[OF t(1-4) assms(3)]
  have d: "point_js_to_point js point_zero = js_decoded js point_zero"
    using point_js_to_point_spec[OF js(1), of point_zero] js(2) by simp
  have l: "c_strlen (argv ! 4) = Some (length (cstr (argv ! 4)))"
    "6 \<le> length argv \<Longrightarrow> c_strlen (argv ! 5) = Some (length (cstr (argv ! 5)))"
    using t by (simp_all add: c_strlen_eq)
  have "handle_sendpoint timegm argv = do {
      (r, p) \<leftarrow> point_js_to_point js point_zero;
      if r \<noteq> 0 then Some (-1, [])
      else if 6 \<le> length argv then do {
        l \<leftarrow> c_strlen (argv ! 5);
        t \<leftarrow> timeconv_epoch_ns_from_rfc3339 timegm (argv ! 5) l;
        if t = 0 then Some (-1, []) else Some (0, [p\<lparr>p_time := t\<rparr>])
      }
      else Some (0, [p])
    }"
    using assms(1) by (simp add: handle_sendpoint_def l(1) assms(3))
  then show ?thesis unfolding d using l(2)
    by (cases "js_decoded js point_zero"; cases "6 \<le> length argv") (auto simp: if_distrib)
qed

subsection \<open>Properties\<close>

lemma field_of_names:
  assumes "point_wf p"
  shows "cstr (field_of 24 (point_type p)) = point_type p" "cstr (field_of 23 (point_key p)) = point_key p"
  using point_wfD[OF assms] length_cstr_less[of "p_type p"] length_cstr_less[of "p_key p"]
  by (simp_all add: field_of_cstr point_type_def point_key_def)

definition json_sample :: "8 word \<Rightarrow> string \<Rightarrow> point" where
  \<comment> \<open>a point with text data, for the witnesses\<close>
  "json_sample ty s = point_zero\<lparr>p_time := 5, p_type := field_of 24 ''description'', p_key := field_of 23 ''A'',
     p_data_type := ty, p_data := field_of 20 s\<rparr>"

lemma json_sample_wf:
  assumes "NUL \<notin> set s" "length s \<le> 19" "ty = POINT_DATA_TYPE_STRING \<or> ty = POINT_DATA_TYPE_JSON"
  shows "point_wf (json_sample ty s)" "text_wf (json_sample ty s)" "printable (json_sample ty s)"
    "cstr (p_data (json_sample ty s)) = s" "p_data_type (json_sample ty s) = ty"
    "point_type (json_sample ty s) = ''description''"
  using assms
  by (auto simp: json_sample_def point_wf_def text_wf_def printable_def field_of_cstr point_type_def)

text \<open>
  C6: A point of type INT, STRING or JSON survives the conversion to its JSON mirror and back.
  Type, key, data type and value of the decoded point are those of the original and its time is
  zero, whatever the point decoded into held before. For text this needs data without a
  backslash; an int must not be INT\_MIN, on which the printer is undefined.
\<close>

theorem point_json_roundtrip:
  assumes "point_wf p" "text_wf p" "printable p" "p_data_type p \<in> {2, 3, 4}" "point_wf q"
    and "p_data_type p \<in> {3, 4} \<Longrightarrow> BACKSLASH \<notin> set (cstr (p_data p))"
  shows "\<exists>js b q'. point_to_point_js p (replicate 40 NUL) 40 = Some (js, b) \<and>
    point_js_to_point js q = Some (0, q') \<and> point_wf q' \<and> text_wf q' \<and> p_time q' = 0 \<and>
    point_type q' = point_type p \<and> point_key q' = point_key p \<and> p_data_type q' = p_data_type p \<and>
    (p_data_type p = 2 \<longrightarrow> point_get_int q' = point_get_int p) \<and>
    (p_data_type p \<in> {3, 4} \<longrightarrow> cstr (p_data q') = cstr (p_data p))"
proof -
  have ok: "\<not> bad_data_type p" using assms(4) by (auto simp: bad_data_type_iff)
  define q1 where "q1 = q\<lparr>p_time := 0, p_type := field_of 24 (point_type p), p_key := field_of 23 (point_key p)\<rparr>"
  have q1: "point_wf q1" "point_type q1 = point_type p" "point_key q1 = point_key p" "p_time q1 = 0"
    using assms(5) field_of_names[OF assms(1)] by (simp_all add: q1_def point_wf_def point_type_def point_key_def)
  obtain js b where js: "point_to_point_js p (replicate 40 NUL) 40 = Some (js, b)"
    "js_ok js" and dec: "point_js_to_point js q =
      (if p_data_type p = POINT_DATA_TYPE_INT then Some (0, point_put_int q1 (point_get_int p))
       else if p_data_type p = POINT_DATA_TYPE_FLOAT
       then map_option (\<lambda>f. (0, point_put_float q1 f)) (atof (ftoa_text (point_get_float p) 4 @ [NUL]))
       else Some (0, store_text (p_data_type p) (unesc (esc (cstr (p_data p)))) q1))"
    using point_js_roundtrip[OF assms(1-3) ok _ assms(5), of "replicate 40 NUL"]
    by (auto simp: q1_def Let_def)
  show ?thesis
  proof (cases "p_data_type p = 2")
    case True
    then have d: "point_js_to_point js q = Some (0, point_put_int q1 (point_get_int p))" using dec by simp
    have "point_get_int (point_put_int q1 (point_get_int p)) = point_get_int p"
      using point_get_int_range[of p] by (intro get_put_int) auto
    then show ?thesis using js d q1 True
      by (intro exI[of _ js] exI[of _ b] exI[of _ "point_put_int q1 (point_get_int p)"])
        (auto simp: point_put_int_def point_wf_def text_wf_def point_type_def point_key_def word_bytes_def)
  next
    case False
    then have t: "p_data_type p \<in> {3, 4}" "BACKSLASH \<notin> set (cstr (p_data p))" using assms(4,6) by auto
    have "length (cstr (p_data p)) \<le> 19"
      using t(1) assms(1,2) length_cstr_less[of "p_data p"] by (auto simp: text_wf_def point_wf_def)
    then have v: "take 19 (cstr (p_data p)) = cstr (p_data p)" by simp
    have d: "point_js_to_point js q = Some (0, store_text (p_data_type p) (cstr (p_data p)) q1)"
      using dec t by (auto simp: unesc_esc)
    note st = store_text_wf[OF q1(1), of "cstr (p_data p)" "p_data_type p"]
    show ?thesis using js d q1 t st v
      by (intro exI[of _ js] exI[of _ b] exI[of _ "store_text (p_data_type p) (cstr (p_data p)) q1"])
        (auto simp: store_text_def point_type_def point_key_def Let_def)
  qed
qed

theorem point_json_roundtrip_witness:
  "\<exists>js b q'. point_to_point_js (json_sample 3 ''say \"hi\"'') (replicate 40 NUL) 40 = Some (js, b) \<and>
    point_js_to_point js point_zero = Some (0, q') \<and> cstr (p_data q') = ''say \"hi\"''"
  using point_json_roundtrip[of "json_sample 3 ''say \"hi\"''" point_zero]
    json_sample_wf[of "''say \"hi\"''" 3] by (auto simp: BACKSLASH_def)

text \<open>
  C2: A backslash does not survive the round trip: text that ends in \<open>n\<close> backslashes (and has no
  other) comes back with \<open>2 * n\<close> of them, cut to the 19 characters of the field. The decoder
  recognises an escaped backslash but does not skip its second character, because the decoded
  character equals the one it compares with.
\<close>

theorem point_json_backslashes_double:
  assumes "point_wf p" "text_wf p" "p_data_type p \<in> {3, 4}" "point_wf q"
    and "cstr (p_data p) = s @ replicate n BACKSLASH" "BACKSLASH \<notin> set s"
  shows "\<exists>js b q'. point_to_point_js p (replicate 40 NUL) 40 = Some (js, b) \<and>
    point_js_to_point js q = Some (0, q') \<and>
    cstr (p_data q') = take 19 (s @ replicate (2 * n) BACKSLASH)"
proof -
  have ok: "\<not> bad_data_type p" "printable p" "p_data_type p \<noteq> 1" "p_data_type p \<noteq> 2"
    using assms(3) by (auto simp: bad_data_type_iff printable_def)
  define q1 where "q1 = q\<lparr>p_time := 0, p_type := field_of 24 (point_type p), p_key := field_of 23 (point_key p)\<rparr>"
  have q1: "point_wf q1" using assms(4) by (simp add: q1_def point_wf_def)
  obtain js b where js: "point_to_point_js p (replicate 40 NUL) 40 = Some (js, b)"
    "point_js_to_point js q =
      Some (0, store_text (p_data_type p) (s @ replicate (2 * n) BACKSLASH) q1)"
    using point_js_roundtrip[OF assms(1,2) ok(2,1) _ assms(4), of "replicate 40 NUL"] ok(3,4)
    unfolding assms(5) unesc_esc_backslashes[OF assms(6)] by (auto simp: q1_def Let_def)
  have "NUL \<notin> set s" using NUL_notin_cstr[of "p_data p"] assms(5) by simp
  then have "NUL \<notin> set (s @ replicate (2 * n) BACKSLASH)" by simp
  from store_text_wf(3)[OF q1 this] js show ?thesis by blast
qed

theorem point_json_backslashes_double_witness:
  "\<exists>js b q'. point_to_point_js (json_sample 3 (''dir'' @ [BACKSLASH])) (replicate 40 NUL) 40 = Some (js, b) \<and>
    point_js_to_point js point_zero = Some (0, q') \<and> cstr (p_data q') = ''dir'' @ [BACKSLASH, BACKSLASH]"
  using point_json_backslashes_double[of "json_sample 3 (''dir'' @ [BACKSLASH])" point_zero "''dir''" 1]
    json_sample_wf[of "''dir'' @ [BACKSLASH]" 3]
  by (auto simp: BACKSLASH_def numeral_2_eq_2)

text \<open>
  C17: Escaping never reads outside the 20 byte data field, even one without a terminator, never
  writes outside the destination, and truncates on a character boundary: the output is the
  escaped text of the longest prefix that fits, followed by the terminator.
\<close>

theorem json_escape_truncates:
  assumes "length src = 20" "0 < dst_len" "dst_len \<le> length dst"
  shows "\<exists>k dst'. json_escape_string src 20 dst dst_len = Some (length (esc (take k (cstr src))), dst') \<and>
    length dst' = length dst \<and> cstr dst' = esc (take k (cstr src)) \<and> k \<le> length (cstr src) \<and>
    length (esc (take k (cstr src))) < dst_len \<and>
    (k < length (cstr src) \<longrightarrow> dst_len \<le> length (esc (take (Suc k) (cstr src))))"
proof -
  let ?s = "cstr src"
  obtain k where k: "k \<le> length ?s" "esc_fit (dst_len - 1) ?s = esc (take k ?s)"
    "k < length ?s \<longrightarrow> dst_len - 1 < length (esc (take (Suc k) ?s))"
    using esc_fit_prefix[of ?s "dst_len - 1"] by blast
  have l: "length (esc (take k ?s)) \<le> dst_len - 1" using esc_fit_length[of "dst_len - 1" ?s] k(2) by simp
  have p: "NUL \<notin> set (esc (take k ?s))" by (meson NUL_notin_cstr esc_plain in_set_takeD)
  have "json_escape_string src 20 dst dst_len = Some (length (esc (take k ?s)),
      esc (take k ?s) @ NUL # drop (Suc (length (esc (take k ?s)))) dst)"
    using json_escape_spec[of src 20 dst_len dst "esc (take k ?s)"] assms k(2) by (simp add: span_ok_def)
  then show ?thesis using k l p assms by (intro exI[of _ k]) auto
qed

theorem json_escape_truncates_witness:
  "\<exists>k dst'. json_escape_string (replicate 20 QUOTE) 20 (replicate 40 NUL) 40 =
     Some (length (esc (take k (cstr (replicate 20 QUOTE)))), dst') \<and> k \<le> length (cstr (replicate 20 QUOTE))"
  using json_escape_truncates[of "replicate 20 QUOTE" 40 "replicate 40 NUL"] by auto

text \<open>
  C9: Decoding a mirror whose names are null or C strings and whose token lies in its object is
  memory safe and gives a well-formed point, exactly when an INT token stays in the range of int.
  The result is 0 only for a complete mirror with a known data type, and the time is reset.
\<close>

theorem point_js_to_point_safe:
  assumes "js_ok js" "point_wf p" "text_wf p"
  shows "if js_complete js \<and> take 3 (cptr_str (js_dt js)) = ''INT'' \<and> \<not> int_text_ok (number_text js)
    then point_js_to_point js p = None
    else \<exists>r p'. point_js_to_point js p = Some (r, p') \<and> point_wf p' \<and> text_wf p' \<and> p_time p' = 0 \<and>
      r \<in> {0, -1} \<and> (r = 0 \<longrightarrow> js_complete js \<and> \<not> bad_data_type p')"
proof (cases "point_js_to_point js p")
  case None
  then show ?thesis using point_js_to_point_defined[OF assms(1,2)] by auto
next
  case (Some rp)
  then obtain r p' where rp: "point_js_to_point js p = Some (r, p')" by (cases rp) auto
  then show ?thesis
    using point_js_to_point_defined[OF assms(1,2)] point_js_to_point_wf[OF assms rp] by auto
qed

theorem point_js_to_point_safe_witness:
  "\<exists>r p'. point_js_to_point \<lparr>js_t = Ptr (lit ''uptime''), js_k = Null, js_dt = Ptr (lit ''INT''),
      js_start = Ptr (lit ''42''), js_length = 2\<rparr> point_zero = Some (r, p') \<and> point_wf p'"
  using point_js_to_point_safe[of "\<lparr>js_t = Ptr (lit ''uptime''), js_k = Null, js_dt = Ptr (lit ''INT''),
      js_start = Ptr (lit ''42''), js_length = 2\<rparr>" point_zero]
  by (auto simp: js_ok_def str_ptr_def js_complete_def lit_def terminated_def)

text \<open>
  C10: Encoding an array gives the JSON encoder the mirrors of exactly the points that have a type
  and a known data type, in order, each complete; neither the array of mirrors nor the static
  scratch rows are exceeded for a count of at most 47, and a larger count is refused.
\<close>

theorem points_json_encode_selects:
  assumes "0 \<le> count" "nat count \<le> length pts" "rows_ok data_buf"
    and "\<And>p. p \<in> set (take (nat count) pts) \<Longrightarrow> point_wf p \<and> (sendable p \<longrightarrow> printable p)"
  shows "if 47 < count then points_json_encode arr_encode pts count buf len data_buf = Some (- ENOMEM, buf, data_buf)
    else \<exists>out db. rows_ok db \<and> map js_view out = map point_view (filter sendable (take (nat count) pts)) \<and>
      (\<forall>js\<in>set out. js_ok js \<and> js_complete js) \<and>
      points_json_encode arr_encode pts count buf len data_buf =
        map_option (\<lambda>(ret, buf). (ret, buf, db))
          (arr_encode \<lparr>ja_points = out @ replicate (47 - length out) point_js_zero,
            ja_len = length out\<rparr> buf len)"
proof (cases "47 < count")
  case False
  then have "count \<le> 47" by simp
  from points_json_encode_spec[OF assms(1) this assms(2-4), of arr_encode buf len] False
  show ?thesis by presburger
qed (simp add: points_json_encode_def)

theorem points_json_encode_selects_witness:
  "\<exists>db. points_json_encode (\<lambda>a b n. Some (int (ja_len a), b)) [point_zero, json_sample 3 ''x''] 2 [] 0
      (replicate 47 (replicate 40 NUL)) = Some (1, [], db)"
proof -
  have s: "sendable (json_sample 3 ''x'')" "\<not> sendable point_zero"
    using json_sample_wf[of "''x''" 3]
    by (auto simp: sendable_def bad_data_type_iff point_type_def point_zero_def cstr_replicate[of _ "[]", simplified])
  have wf: "point_wf (json_sample 3 ''x'')" "printable (json_sample 3 ''x'')"
    using json_sample_wf[of "''x''" 3] by auto
  have all: "p \<in> set (take (nat 2) [point_zero, json_sample 3 ''x'']) \<Longrightarrow>
      point_wf p \<and> (sendable p \<longrightarrow> printable p)" for p
    using s wf by auto
  have rows: "rows_ok (replicate 47 (replicate 40 NUL))" by (simp add: rows_ok_def)
  show ?thesis
    using points_json_encode_selects[of 2 "[point_zero, json_sample 3 ''x'']" "replicate 47 (replicate 40 NUL)"
        "\<lambda>a b n. Some (int (ja_len a), b)" "[]" 0, OF _ _ rows all] s
    by auto
qed

text \<open>
  C6: Decoding an array never writes past the caller's points: with a parser that succeeds and fills
  its entries, the first \<open>min p_cnt len\<close> points are decoded, the others keep their value, all
  stay well-formed and that number is returned.
\<close>

theorem points_json_decode_bounds:
  assumes "arr_parse json json_len
      \<lparr>ja_points = replicate 47 point_js_uninit, ja_len = 0\<rparr> = (0, arr)"
    and "ja_len arr \<le> length (ja_points arr)" "p_cnt \<le> length pts"
    and "\<And>j. j < min p_cnt (ja_len arr) \<Longrightarrow>
      js_ok (ja_points arr ! j) \<and> point_js_to_point (ja_points arr ! j) (pts ! j) \<noteq> None"
    and "\<And>p. p \<in> set pts \<Longrightarrow> point_wf p \<and> text_wf p"
  shows "\<exists>pts'. points_json_decode arr_parse json json_len pts p_cnt =
      Some (int (min p_cnt (ja_len arr)), pts') \<and> length pts' = length pts \<and>
    (\<forall>p\<in>set pts'. point_wf p \<and> text_wf p) \<and>
    (\<forall>j<length pts. if j < min p_cnt (ja_len arr)
      then \<exists>r. point_js_to_point (ja_points arr ! j) (pts ! j) = Some (r, pts' ! j)
      else pts' ! j = pts ! j)"
proof -
  have "min p_cnt (ja_len arr) \<le> length (ja_points arr)" "min p_cnt (ja_len arr) \<le> length pts"
    using assms(2,3) by auto
  from decode_points_loop_spec[OF le0 this, of] assms(4,5) obtain pts' where
    "decode_points_loop (ja_points arr) (min p_cnt (ja_len arr)) pts 0 = Some pts'"
    "length pts' = length pts" "\<forall>p\<in>set pts'. point_wf p \<and> text_wf p"
    "\<forall>j<length pts. if 0 \<le> j \<and> j < min p_cnt (ja_len arr)
      then \<exists>r. point_js_to_point (ja_points arr ! j) (pts ! j) = Some (r, pts' ! j)
      else pts' ! j = pts ! j" by metis
  then show ?thesis using assms(1)
    by (intro exI[of _ pts']) (simp add: points_json_decode_def)
qed

definition sample_mirror :: "cptr \<Rightarrow> point_js" where
  "sample_mirror dt = \<lparr>js_t = Ptr (lit ''uptime''), js_k = Ptr (lit ''0''), js_dt = dt,
     js_start = Ptr (lit ''42''), js_length = 2\<rparr>"

definition sample_parser :: "cptr \<Rightarrow> arr_parser" where
  \<comment> \<open>a parser that reports one object\<close>
  "sample_parser dt json n arr = (0, arr\<lparr>ja_points := (ja_points arr)[0 := sample_mirror dt], ja_len := 1\<rparr>)"

theorem points_json_decode_bounds_witness:
  "\<exists>pts'. points_json_decode (sample_parser (Ptr (lit ''INT''))) [] 0 [point_zero, point_zero] 2 =
    Some (1, pts') \<and> length pts' = 2"
proof -
  let ?js = "sample_mirror (Ptr (lit ''INT''))"
  have ok: "js_ok ?js" by (simp add: sample_mirror_def js_ok_def str_ptr_def lit_def terminated_def)
  have "int_text_ok (number_text ?js)"
    by (simp add: sample_mirror_def number_text_def js_token_def int_text_ok_def is_digit_def lit_def
      digit_val_def INT_MAX_def)
  then have d: "point_js_to_point ?js point_zero \<noteq> None"
    using point_js_to_point_defined[OF ok point_zero_wf(1)] by simp
  have "sample_parser (Ptr (lit ''INT'')) [] 0 \<lparr>ja_points = replicate 47 point_js_uninit, ja_len = 0\<rparr> =
    (0, \<lparr>ja_points = ?js # replicate 46 point_js_uninit, ja_len = 1\<rparr>)"
    by (simp add: sample_parser_def numeral_eq_Suc)
  from points_json_decode_bounds[of "sample_parser (Ptr (lit ''INT''))" "[]" 0
      "\<lparr>ja_points = ?js # replicate 46 point_js_uninit, ja_len = 1\<rparr>" 2 "[point_zero, point_zero]", OF this] ok d
  show ?thesis by auto
qed

text \<open>
  The array of mirrors is not initialised before parsing. When the parser leaves the data type
  of the first entry untouched, as for an object without the field, decoding reads an
  uninitialised pointer; the null test does not catch it. (The decoder of a single point starts
  from a zeroed mirror and refuses the same input.)
\<close>

lemma points_json_decode_uninitialised:
  assumes "arr_parse json json_len
      \<lparr>ja_points = replicate 47 point_js_uninit, ja_len = 0\<rparr> = (0, arr)"
    and "0 < ja_len arr" "0 < p_cnt" "ja_points arr \<noteq> []" "pts \<noteq> []"
    and "js_t (hd (ja_points arr)) = Ptr t" "js_k (hd (ja_points arr)) = Ptr k"
    and "js_dt (hd (ja_points arr)) = js_dt point_js_uninit"
  shows "points_json_decode arr_parse json json_len pts p_cnt = None"
proof -
  have "point_js_to_point (ja_points arr ! 0) p = None" for p
    using assms(4,6,7,8) by (auto simp: point_js_to_point_def hd_conv_nth point_js_uninit_def deref_def
      Let_def split: Option.bind_splits)
  then show ?thesis
    using assms(1-5) by (simp add: points_json_decode_def decode_points_loop.simps[of _ _ _ 0])
qed

lemma points_json_decode_uninitialised_witness:
  "points_json_decode (sample_parser Wild) [] 0 [point_zero] 1 = None"
proof -
  have "sample_parser Wild [] 0 \<lparr>ja_points = replicate 47 point_js_uninit, ja_len = 0\<rparr> =
    (0, \<lparr>ja_points = sample_mirror Wild # replicate 46 point_js_uninit, ja_len = 1\<rparr>)"
    by (simp add: sample_parser_def numeral_eq_Suc)
  from points_json_decode_uninitialised[of "sample_parser Wild" "[]" 0
      "\<lparr>ja_points = sample_mirror Wild # replicate 46 point_js_uninit, ja_len = 1\<rparr>" 1 "[point_zero]", OF this]
  show ?thesis by (simp add: sample_mirror_def point_js_uninit_def)
qed

text \<open>
  C12: The shell command publishes at most one point, and one exactly when it returns 0. With
  fewer than five words, a data type it does not know or a time that does not parse it publishes
  nothing and returns -1.
\<close>

theorem sendpoint_publishes:
  assumes "\<forall>a\<in>set argv. terminated a" "handle_sendpoint timegm argv = Some (ret, pub)"
  shows "ret = 0 \<and> (\<exists>p. pub = [p] \<and> point_wf p \<and> text_wf p \<and> \<not> bad_data_type p \<and>
      p_type p = field_of 24 (cstr (argv ! 1)) \<and> p_key p = field_of 23 (cstr (argv ! 2)) \<and>
      (length argv < 6 \<longrightarrow> p_time p = 0) \<and>
      (6 \<le> length argv \<longrightarrow> p_time p \<noteq> 0 \<and>
        timeconv_epoch_ns_from_rfc3339 timegm (argv ! 5) (length (cstr (argv ! 5))) = Some (p_time p)))
    \<or> ret = -1 \<and> pub = []"
proof (cases "length argv < 5")
  case True
  then show ?thesis using assms(2) by (simp add: handle_sendpoint_def)
next
  case False
  define js where "js = \<lparr>js_t = Ptr (argv ! 1), js_k = Ptr (argv ! 2), js_dt = Ptr (argv ! 3),
      js_start = Ptr (argv ! 4), js_length = length (cstr (argv ! 4))\<rparr>"
  have spec: "handle_sendpoint timegm argv = do {
    (r, p) \<leftarrow> js_decoded js point_zero;
    if r \<noteq> 0 then Some (-1, [])
    else if length argv < 6 then Some (0, [p])
    else do {
      t \<leftarrow> timeconv_epoch_ns_from_rfc3339 timegm (argv ! 5) (length (cstr (argv ! 5)));
      Some (if t = 0 then (-1, []) else (0, [p\<lparr>p_time := t\<rparr>]))
    }
  }"
    using False by (intro handle_sendpoint_spec[OF _ assms(1) js_def]) simp
  obtain r p where rp: "js_decoded js point_zero = Some (r, p)"
    using assms(2) spec by (cases "js_decoded js point_zero") auto
  note wf = js_decoded_wf[OF point_zero_wf(1) rp]
  show ?thesis
    using assms(2) wf unfolding spec rp
    by (auto simp: js_def cptr_str_def point_wf_def text_wf_def bad_data_type_def
      split: if_splits Option.bind_splits)
qed

theorem sendpoint_publishes_witness:
  "\<exists>p. handle_sendpoint calendar_timegm (map lit [''p'', ''description'', ''0'', ''STR'', ''x'']) = Some (0, [p]) \<and>
    p_time p = 0"
proof -
  have "handle_sendpoint calendar_timegm (map lit [''p'', ''description'', ''0'', ''STR'', ''x'']) \<noteq> None \<and>
    fst (the (handle_sendpoint calendar_timegm (map lit [''p'', ''description'', ''0'', ''STR'', ''x'']))) = 0"
    by code_simp
  then obtain pub where "handle_sendpoint calendar_timegm
      (map lit [''p'', ''description'', ''0'', ''STR'', ''x'']) = Some (0, pub)" by auto
  from sendpoint_publishes[OF _ this] this show ?thesis by auto
qed

end
