(* ===== verification/Point_Cache.thy ===== *)
theory Point_Cache
  imports Point_Json
begin


text \<open>
  lib/point-cache.c: the cache of the latest points, its JSON snapshot, the shell commands that dump
  and stream it, and the thread that keeps it current. The cache size is the configuration
  constant \<open>CONFIG_SIOT_POINT_CACHE_SIZE\<close>, at most 47 by the build assertion; the shell commands
  are compiled in. Each operation holds the cache lock for its whole duration, so it is one step.
\<close>

subsection \<open>State\<close>

record cache_state =
  cs_cache :: "point list"
  cs_streaming :: bool
  cs_rows :: "bytes list"
    \<comment> \<open>the static scratch rows of the array encoder in lib/point.c\<close>

definition cache_init :: "nat \<Rightarrow> cache_state" where
  \<comment> \<open>static storage is zeroed\<close>
  "cache_init n = \<lparr>cs_cache = replicate n point_zero, cs_streaming = False,
     cs_rows = replicate POINT_JS_ARRAY_MAX (replicate POINT_JSON_DATA_BUF_SIZE NUL)\<rparr>"

subsection \<open>Operations\<close>

definition point_cache_merge :: "cache_state \<Rightarrow> point \<Rightarrow> (int \<times> cache_state \<times> point) option" where
  "point_cache_merge st p = do {
     (ret, pts, p) \<leftarrow> points_merge (cs_cache st) p;
     Some (ret, st\<lparr>cs_cache := pts\<rparr>, p)
   }"

fun count_loop :: "point list \<Rightarrow> int \<Rightarrow> int option" where
  "count_loop [] count = Some count"
| "count_loop (q # qs) count = do {
     c \<leftarrow> rd (p_type q) 0;
     count_loop qs (if c \<noteq> NUL then count + 1 else count)
   }"

definition point_cache_count :: "cache_state \<Rightarrow> int option" where
  "point_cache_count st = count_loop (cs_cache st) 0"

fun foreach_loop ::
  "(point \<Rightarrow> 'u \<Rightarrow> (int \<times> point \<times> 'u) option) \<Rightarrow> point list \<Rightarrow> 'u \<Rightarrow> int \<Rightarrow> (int \<times> point list \<times> 'u) option"
where
  "foreach_loop cb [] u ret = Some (ret, [], u)"
| "foreach_loop cb (q # qs) u ret = do {
     c \<leftarrow> rd (p_type q) 0;
     if c = NUL then do {
       (ret, qs, u) \<leftarrow> foreach_loop cb qs u ret;
       Some (ret, q # qs, u)
     }
     else do {
       (ret, q, u) \<leftarrow> cb q u;
       if ret \<noteq> 0 then Some (ret, q # qs, u)
       else do {
         (ret, qs, u) \<leftarrow> foreach_loop cb qs u ret;
         Some (ret, q # qs, u)
       }
     }
   }"

definition point_cache_foreach ::
  "(point \<Rightarrow> 'u \<Rightarrow> (int \<times> point \<times> 'u) option) \<Rightarrow> cache_state \<Rightarrow> 'u \<Rightarrow> (int \<times> cache_state \<times> 'u) option"
where
  \<comment> \<open>the callback gets a pointer to the slot and its user data, and may change both\<close>
  "point_cache_foreach cb st u = do {
     (ret, pts, u) \<leftarrow> foreach_loop cb (cs_cache st) u 0;
     Some (ret, st\<lparr>cs_cache := pts\<rparr>, u)
   }"

definition point_cache_json_encode ::
  "arr_encoder \<Rightarrow> cache_state \<Rightarrow> bytes \<Rightarrow> nat \<Rightarrow> (int \<times> bytes \<times> cache_state) option" where
  "point_cache_json_encode arr_encode st buf buf_len = do {
     (ret, buf, rows) \<leftarrow> points_json_encode arr_encode (cs_cache st) (int (length (cs_cache st)))
                          buf buf_len (cs_rows st);
     Some (ret, buf, st\<lparr>cs_rows := rows\<rparr>)
   }"

definition point_cache_streaming :: "cache_state \<Rightarrow> bool" where
  "point_cache_streaming st = cs_streaming st"

subsection \<open>Shell output\<close>

definition quote_char :: "char \<Rightarrow> bool" where
  \<comment> \<open>a character that makes a field need quotes\<close>
  "quote_char c = (c = CHR '' '' \<or> c = QUOTE \<or> c = BACKSLASH \<or> c = CHR 0x09 \<or> c = CHR 0x0D \<or>
     c = CHR 0x0A \<or> (of_char c :: nat) < 0x20)"

function quote_scan :: "bytes \<Rightarrow> nat \<Rightarrow> bool \<Rightarrow> bool option" where
  "quote_scan src i needs =
     (if i < length src then
        (let c = src ! i
         in if c = NUL then Some needs
            else if quote_char c then Some True
            else quote_scan src (Suc i) needs)
      else None)"
  by pat_completeness auto
termination
  by (relation "measure (\<lambda>(src, i, needs). length src - i)") auto

declare quote_scan.simps [simp del]

function copy_loop :: "bytes \<Rightarrow> nat \<Rightarrow> bytes \<Rightarrow> nat \<Rightarrow> nat \<Rightarrow> (int \<times> bytes) option" where
  \<comment> \<open>a field that needs no quotes\<close>
  "copy_loop src i dst dst_len di =
     (if i < length src then
        (let c = src ! i
         in if c = NUL then do { dst \<leftarrow> wr dst di NUL; Some (int di, dst) }
            else if dst_len \<le> di + 1 then Some (-1, dst)
            else do {
              dst \<leftarrow> wr dst di c;
              copy_loop src (Suc i) dst dst_len (Suc di)
            })
      else None)"
  by pat_completeness auto
termination
  by (relation "measure (\<lambda>(src, i, dst, dst_len, di). length src - i)") auto

declare copy_loop.simps [simp del]

definition shell_escape :: "char \<Rightarrow> char" where
  \<comment> \<open>the switch; NUL for a character that is not escaped\<close>
  "shell_escape c = (if c = QUOTE then QUOTE else if c = BACKSLASH then BACKSLASH
     else if c = CHR 0x0D then CHR ''r'' else if c = CHR 0x0A then CHR ''n''
     else if c = CHR 0x09 then CHR ''t'' else NUL)"

function quote_loop :: "bytes \<Rightarrow> nat \<Rightarrow> bytes \<Rightarrow> nat \<Rightarrow> nat \<Rightarrow> (int \<times> bytes) option" where
  \<comment> \<open>the loop over a quoted field and the closing quote after it\<close>
  "quote_loop src i dst dst_len di =
     (if i < length src then
        (let c = src ! i
         in if c = NUL then
              (if dst_len - 1 < di + 2 then Some (-1, dst)
               else do {
                 dst \<leftarrow> wr dst di QUOTE;
                 dst \<leftarrow> wr dst (Suc di) NUL;
                 Some (int (Suc di), dst)
               })
            else if shell_escape c \<noteq> NUL then
              (if dst_len \<le> di + 2 then Some (-1, dst)
               else do {
                 dst \<leftarrow> wr dst di BACKSLASH;
                 dst \<leftarrow> wr dst (Suc di) (shell_escape c);
                 quote_loop src (Suc i) dst dst_len (di + 2)
               })
            else
              (if dst_len \<le> di + 1 then Some (-1, dst)
               else do {
                 dst \<leftarrow> wr dst di c;
                 quote_loop src (Suc i) dst dst_len (Suc di)
               }))
      else None)"
  by pat_completeness auto
termination
  by (relation "measure (\<lambda>(src, i, dst, dst_len, di). length src - i)") auto

declare quote_loop.simps [simp del]

definition quote_field :: "bytes \<Rightarrow> bytes \<Rightarrow> nat \<Rightarrow> (int \<times> bytes) option" where
  "quote_field src dst dst_len = do {
     c0 \<leftarrow> rd src 0;
     needs_quote \<leftarrow> quote_scan src 0 (c0 = NUL);
     if \<not> needs_quote then copy_loop src 0 dst dst_len 0
     else if dst_len \<le> 1 then Some (-1, dst)
     else do {
       dst \<leftarrow> wr dst 0 QUOTE;
       quote_loop src 0 dst dst_len 1
     }
   }"

definition point_emit :: "bool \<Rightarrow> point \<Rightarrow> string list option" where
  \<comment> \<open>the lines printed; the flag says whether the UART shell backend exists\<close>
  "point_emit have_shell p =
     (if \<not> have_shell then Some []
      else if bad_data_type p then Some []
      else do {
        let dt = (if p_data_type p = POINT_DATA_TYPE_FLOAT then ''FLT''
                  else if p_data_type p = POINT_DATA_TYPE_INT then ''INT''
                  else if p_data_type p = POINT_DATA_TYPE_STRING then ''STR'' else ''JSN'');
        (ret, raw) \<leftarrow> point_data_to_string p (replicate (DATA_LEN + 1) NUL) (DATA_LEN + 1);
        if ret \<noteq> 0 then Some []
        else do {
          (nd, data_q) \<leftarrow> quote_field raw (replicate ((DATA_LEN + 1) * 2 + 3) NUL) ((DATA_LEN + 1) * 2 + 3);
          if nd < 0 then Some []
          else do {
            (nt, type_q) \<leftarrow> quote_field (p_type p) (replicate (TYPE_LEN * 2 + 3) NUL) (TYPE_LEN * 2 + 3);
            if nt < 0 then Some []
            else do {
              (nk, key_q) \<leftarrow> quote_field (p_key p) (replicate (KEY_LEN * 2 + 3) NUL) (KEY_LEN * 2 + 3);
              if nk < 0 then Some []
              else do {
                let line = ''pt '' @ cstr type_q @ '' '' @ cstr key_q @ '' '' @ dt @ '' '' @ cstr data_q;
                if POINT_TIME_MIN \<le> p_time p then do {
                  (tr, time_buf) \<leftarrow> timeconv_rfc3339_from_epoch_ns_utc (p_time p)
                                     (replicate RFC3339_MAX_LEN NUL) RFC3339_MAX_LEN;
                  if tr = 0 then Some [line @ '' '' @ cstr time_buf] else Some [line]
                }
                else Some [line]
              }
            }
          }
        }
      })"

definition emit_cb :: "bool \<Rightarrow> point \<Rightarrow> string list \<Rightarrow> (int \<times> point \<times> string list) option" where
  \<comment> \<open>the user data is unused; the console is threaded instead\<close>
  "emit_cb have_shell p console = do {
     lines \<leftarrow> point_emit have_shell p;
     Some (0, p, console @ lines)
   }"

definition cmd_siot_dump :: "bool \<Rightarrow> cache_state \<Rightarrow> (int \<times> cache_state \<times> string list) option" where
  "cmd_siot_dump have_shell st = do {
     (r, st, console) \<leftarrow> point_cache_foreach (emit_cb have_shell) st [];
     Some (0, st, console)
   }"

definition cmd_siot_stream :: "cache_state \<Rightarrow> bytes list \<Rightarrow> (int \<times> cache_state \<times> string list) option" where
  "cmd_siot_stream st argv =
     (if length argv < 2 then
        Some (0, st, [''streaming is '' @ (if cs_streaming st then ''on'' else ''off'')])
      else do {
        is_on \<leftarrow> c_streq (argv ! 1) (lit ''on'');
        if is_on then Some (0, st\<lparr>cs_streaming := True\<rparr>, [])
        else do {
          is_off \<leftarrow> c_streq (argv ! 1) (lit ''off'');
          if is_off then Some (0, st\<lparr>cs_streaming := False\<rparr>, [])
          else Some (-1, st, [''Usage: siot stream <on|off>''])
        }
      })"

definition cmd_siot_status :: "cache_state \<Rightarrow> (int \<times> string list) option" where
  "cmd_siot_status st = do {
     n \<leftarrow> point_cache_count st;
     Some (0, [''points cached: '' @ dec_int n @ '' of '' @ dec_int (int (length (cs_cache st))),
               ''streaming: '' @ (if cs_streaming st then ''on'' else ''off'')])
   }"

subsection \<open>The cache thread\<close>

definition point_cache_step ::
  "bool \<Rightarrow> cache_state \<Rightarrow> bool \<Rightarrow> point \<Rightarrow> (cache_state \<times> string list) option" where
  \<comment> \<open>one message; the flag says whether it came on \<open>point_chan\<close>. What is streamed is the
    thread's copy of the point, in which the merge has replaced an empty key.\<close>
  "point_cache_step have_shell st on_point_chan p =
     (if \<not> on_point_chan then Some (st, [])
      else do {
        (ret, st, p) \<leftarrow> point_cache_merge st p;
        if cs_streaming st then do {
          lines \<leftarrow> point_emit have_shell p;
          Some (st, lines)
        }
        else Some (st, [])
      })"

fun point_cache_thread ::
  "bool \<Rightarrow> cache_state \<Rightarrow> (bool \<times> point) list \<Rightarrow> (cache_state \<times> string list) option" where
  "point_cache_thread have_shell st [] = Some (st, [])"
| "point_cache_thread have_shell st ((on_point_chan, p) # msgs) = do {
     (st, l1) \<leftarrow> point_cache_step have_shell st on_point_chan p;
     (st, l2) \<leftarrow> point_cache_thread have_shell st msgs;
     Some (st, l1 @ l2)
   }"

subsection \<open>The system: the thread, the shell and HTTP readers interleaved\<close>

datatype cache_event =
  Ev_message bool point
| Ev_dump
| Ev_stream "bytes list"
| Ev_status
| Ev_json bytes nat

definition cache_handle ::
  "bool \<Rightarrow> arr_encoder \<Rightarrow> cache_event \<Rightarrow> cache_state \<Rightarrow> (cache_state \<times> string list) option" where
  "cache_handle have_shell enc e st = (case e of
     Ev_message on p \<Rightarrow> point_cache_step have_shell st on p
   | Ev_dump \<Rightarrow> map_option (\<lambda>(r, st, l). (st, l)) (cmd_siot_dump have_shell st)
   | Ev_stream argv \<Rightarrow> map_option (\<lambda>(r, st, l). (st, l)) (cmd_siot_stream st argv)
   | Ev_status \<Rightarrow> map_option (\<lambda>(r, l). (st, l)) (cmd_siot_status st)
   | Ev_json buf n \<Rightarrow> map_option (\<lambda>(r, b, st). (st, [])) (point_cache_json_encode enc st buf n))"

subsection \<open>Lemmas: quoting\<close>

definition needs_quote :: "string \<Rightarrow> bool" where
  "needs_quote s = (s = [] \<or> (\<exists>c\<in>set s. quote_char c))"

definition shell_esc :: "char \<Rightarrow> string" where
  "shell_esc c = (if shell_escape c \<noteq> NUL then [BACKSLASH, shell_escape c] else [c])"

definition shell_escs :: "string \<Rightarrow> string" where
  "shell_escs s = concat (map shell_esc s)"

definition quoted :: "string \<Rightarrow> string" where
  "quoted s = (if needs_quote s then QUOTE # shell_escs s @ [QUOTE] else s)"

lemma shell_escs_simps [simp]: "shell_escs [] = []" "shell_escs (c # s) = shell_esc c @ shell_escs s"
  by (simp_all add: shell_escs_def)

lemma quote_scan_spec:
  assumes "terminated src" "NUL \<notin> set (take i src)"
  shows "quote_scan src i n = Some (n \<or> (\<exists>c\<in>set (cstr (drop i src)). quote_char c))"
  using assms(2)
proof (induction "length src - i" arbitrary: i rule: less_induct)
  case less
  note d = terminated_drop[OF assms(1) less.prems]
  show ?case
  proof (cases "src ! i = NUL \<or> quote_char (src ! i)")
    case True
    then show ?thesis using d by (subst quote_scan.simps) auto
  next
    case False
    then have "quote_scan src i n = quote_scan src (Suc i) n" using d(1) by (subst quote_scan.simps) simp
    also have "\<dots> = Some (n \<or> (\<exists>c\<in>set (cstr (drop (Suc i) src)). quote_char c))"
      using False d(1,5) by (intro less.hyps) auto
    finally show ?thesis using False d(4) by simp
  qed
qed

lemma copy_loop_spec:
  assumes "terminated src" "NUL \<notin> set (take i src)"
    and "length out + length (cstr (drop i src)) < dst_len" "dst_len \<le> length out + length rest"
  shows "copy_loop src i (out @ rest) dst_len (length out) =
    (let t = cstr (drop i src) in Some (int (length out + length t), out @ t @ NUL # drop (Suc (length t)) rest))"
  using assms(2-)
proof (induction "length src - i" arbitrary: i out rest rule: less_induct)
  case less
  note d = terminated_drop[OF assms(1) less.prems(1)]
  obtain x r where r: "rest = x # r" using less.prems(2,3) by (cases rest) auto
  show ?case
  proof (cases "src ! i = NUL")
    case True
    then show ?thesis using d r wr_append[of out x r NUL] by (subst copy_loop.simps) (simp del: wr_Some)
  next
    case False
    then have "copy_loop src i (out @ rest) dst_len (length out) =
        copy_loop src (Suc i) ((out @ [src ! i]) @ r) dst_len (length (out @ [src ! i]))"
      using d r less.prems(2) wr_append[of out x r "src ! i"]
      by (subst copy_loop.simps) (simp add: Let_def del: wr_Some)
    also have "\<dots> = (let t = cstr (drop (Suc i) src) in
        Some (int (length (out @ [src ! i]) + length t), (out @ [src ! i]) @ t @ NUL # drop (Suc (length t)) r))"
      using False d less.prems r by (intro less.hyps) auto
    finally show ?thesis using False d(4) r by (simp add: Let_def)
  qed
qed

lemma quote_loop_spec:
  assumes "terminated src" "NUL \<notin> set (take i src)"
    and "length out + length (shell_escs (cstr (drop i src))) + 3 \<le> dst_len" "dst_len \<le> length out + length rest"
  shows "quote_loop src i (out @ rest) dst_len (length out) =
    (let t = shell_escs (cstr (drop i src)) @ [QUOTE]
     in Some (int (length out + length t), out @ t @ NUL # drop (Suc (length t)) rest))"
  using assms(2-)
proof (induction "length src - i" arbitrary: i out rest rule: less_induct)
  case less
  note d = terminated_drop[OF assms(1) less.prems(1)]
  obtain x y r where r: "rest = x # y # r"
    using less.prems(2,3) by (cases rest; cases "tl rest") auto
  have w2: "wr (out @ a # y # r) (Suc (length out)) b = Some (out @ a # b # r)" for a b
    using wr_append'[of "Suc (length out)" "out @ [a]" y r b] by simp
  consider "src ! i = NUL" | "src ! i \<noteq> NUL" "shell_escape (src ! i) \<noteq> NUL"
    | "src ! i \<noteq> NUL" "shell_escape (src ! i) = NUL" by blast
  then show ?case
  proof cases
    case 1
    then show ?thesis using d r less.prems(2) wr_append[of out x _ QUOTE] w2
      by (subst quote_loop.simps) (simp add: Let_def del: wr_Some)
  next
    case 2
    let ?out = "out @ [BACKSLASH, shell_escape (src ! i)]"
    have "quote_loop src i (out @ rest) dst_len (length out) =
        quote_loop src (Suc i) (?out @ r) dst_len (length ?out)"
      using 2 d r less.prems(2) wr_append[of out x _ BACKSLASH] w2
      by (subst quote_loop.simps) (simp add: Let_def shell_esc_def del: wr_Some)
    also have "\<dots> = (let t = shell_escs (cstr (drop (Suc i) src)) @ [QUOTE]
        in Some (int (length ?out + length t), ?out @ t @ NUL # drop (Suc (length t)) r))"
      using 2 d less.prems r by (intro less.hyps) (auto simp: shell_esc_def)
    finally show ?thesis using 2 d(4) r by (simp add: Let_def shell_esc_def)
  next
    case 3
    let ?out = "out @ [src ! i]"
    have "quote_loop src i (out @ rest) dst_len (length out) =
        quote_loop src (Suc i) (?out @ y # r) dst_len (length ?out)"
      using 3 d r less.prems(2) wr_append[of out x _ "src ! i"]
      by (subst quote_loop.simps) (simp add: Let_def shell_esc_def del: wr_Some)
    also have "\<dots> = (let t = shell_escs (cstr (drop (Suc i) src)) @ [QUOTE]
        in Some (int (length ?out + length t), ?out @ t @ NUL # drop (Suc (length t)) (y # r)))"
      using 3 d less.prems r by (intro less.hyps) (auto simp: shell_esc_def)
    finally show ?thesis using 3 d(4) r by (simp add: Let_def shell_esc_def)
  qed
qed

lemma quote_field_spec:
  assumes "terminated src" "length (quoted (cstr src)) + 2 \<le> dst_len" "dst_len \<le> length dst"
  shows "quote_field src dst dst_len =
    (let t = quoted (cstr src) in Some (int (length t), t @ NUL # drop (Suc (length t)) dst))"
proof -
  obtain c s where src: "src = c # s" using assms(1) by (cases src) (auto simp: terminated_def)
  obtain x r where dst: "dst = x # r" using assms(2,3) by (cases dst) auto
  have scan: "quote_scan src 0 (c = NUL) = Some (needs_quote (cstr src))"
    using quote_scan_spec[OF assms(1), of 0 "c = NUL"] src by (auto simp: needs_quote_def)
  show ?thesis
  proof (cases "needs_quote (cstr src)")
    case False
    then show ?thesis
      using scan src assms copy_loop_spec[OF assms(1), of 0 "[]" dst_len dst]
      by (simp add: quote_field_def quoted_def)
  next
    case True
    then show ?thesis
      using scan src assms dst quote_loop_spec[OF assms(1), of 0 "[QUOTE]" dst_len r]
      by (simp add: quote_field_def quoted_def Let_def)
  qed
qed

lemma shell_escs_length: "length (shell_escs s) \<le> 2 * length s"
  by (induction s) (auto simp: shell_esc_def)

lemma quoted_length: "length (quoted s) \<le> 2 * length s + 2"
  using shell_escs_length[of s] by (simp add: quoted_def)

lemma shell_escs_plain: "NUL \<notin> set s \<Longrightarrow> NUL \<notin> set (shell_escs s)"
  by (induction s) (auto simp: shell_esc_def)

lemma quoted_plain: "NUL \<notin> set s \<Longrightarrow> NUL \<notin> set (quoted s)"
  using shell_escs_plain by (auto simp: quoted_def)

text \<open>What a shell that undoes the quoting makes of a field.\<close>

fun shell_unesc :: "string \<Rightarrow> string" where
  "shell_unesc (a # c # s) =
     (if a = BACKSLASH
      then (if c = CHR ''r'' then CHR 0x0D else if c = CHR ''n'' then CHR 0x0A
            else if c = CHR ''t'' then CHR 0x09 else c) # shell_unesc s
      else a # shell_unesc (c # s))"
| "shell_unesc s = s"

definition unquoted :: "string \<Rightarrow> string" where
  "unquoted s = (if s \<noteq> [] \<and> hd s = QUOTE then shell_unesc (butlast (tl s)) else s)"

lemma shell_unesc_escs: "NUL \<notin> set s \<Longrightarrow> shell_unesc (shell_escs s) = s"
proof (induction s)
  case (Cons c s)
  then show ?case
  proof (cases "shell_escape c = NUL")
    case True
    then have "c \<noteq> BACKSLASH" by (auto simp: shell_escape_def)
    then have "shell_unesc (c # t) = c # shell_unesc t" for t by (cases t) auto
    then show ?thesis using True Cons by (simp add: shell_esc_def)
  next
    case False
    then show ?thesis using Cons
      by (auto simp: shell_esc_def shell_escape_def QUOTE_def BACKSLASH_def split: if_splits)
  qed
qed simp

lemma unquoted_quoted: "NUL \<notin> set s \<Longrightarrow> unquoted (quoted s) = s"
proof (cases "needs_quote s")
  case True
  then show "NUL \<notin> set s \<Longrightarrow> unquoted (quoted s) = s"
    using shell_unesc_escs by (simp add: quoted_def unquoted_def butlast_append)
next
  case False
  then have "s \<noteq> []" "hd s \<noteq> QUOTE" by (auto simp: needs_quote_def quote_char_def)
  then show "unquoted (quoted s) = s" using False by (simp add: quoted_def unquoted_def)
qed

subsection \<open>Lemmas: the emitted line\<close>

definition raw_text :: "point \<Rightarrow> string" where
  "raw_text p =
     (if p_data_type p = POINT_DATA_TYPE_FLOAT then ftoa_text (point_get_float p) 4
      else if p_data_type p = POINT_DATA_TYPE_INT then dec_int (point_get_int p)
      else cstr (p_data p))"

definition report_line :: "point \<Rightarrow> string" where
  "report_line p = ''pt '' @ quoted (point_type p) @ '' '' @ quoted (point_key p) @ '' '' @
     type_code (p_data_type p) @ '' '' @ quoted (raw_text p) @
     (if POINT_TIME_MIN \<le> p_time p then '' '' @ rfc3339_text (p_time p) else [])"

lemma raw_text_props:
  assumes "point_wf p" "printable p"
  shows "NUL \<notin> set (raw_text p)" "length (raw_text p) \<le> 20"
proof -
  have "length (dec_int (point_get_int p)) \<le> 11" using point_get_int_range by (rule length_dec_int)
  moreover have "length (cstr (p_data p)) \<le> 20"
    using length_cstr_le[of "p_data p"] assms(1) by (simp add: point_wf_def)
  ultimately show "NUL \<notin> set (raw_text p)" "length (raw_text p) \<le> 20"
    using assms(2) ftoa_text_length(1)[of "point_get_float p" 4] ftoa_text_plain
    by (auto simp: raw_text_def printable_def split: if_splits)
qed

lemma point_data_to_string_spec:
  assumes "point_wf p" "printable p" "\<not> bad_data_type p"
  shows "\<exists>b. point_data_to_string p (replicate 21 NUL) 21 = Some (0, b) \<and> cstr b = raw_text p \<and> terminated b"
proof -
  note raw = raw_text_props[OF assms(1,2)]
  consider (num) "p_data_type p \<in> {1, 2}" | (str) "p_data_type p \<in> {3, 4}"
    using assms(3) by (auto simp: bad_data_type_iff)
  then show ?thesis
  proof cases
    case num
    then have t: "raw_text p = token_string p" by (auto simp: raw_text_def token_string_def)
    obtain b where b: "point_data_to_string p (replicate 21 NUL) 21 = Some (0, b)" "length b = 21"
      "take (Suc (length (raw_text p))) b = raw_text p @ [NUL]"
      using number_to_string[OF assms(2) num, of "replicate 21 NUL" 21] unfolding t by auto
    then show ?thesis using take_written(1,2)[OF b(3) raw(1), of 21] raw(2) by simp
  next
    case str
    let ?d = "cstr (p_data p)"
    have l: "length ?d \<le> 20" "length (p_data p) = 20"
      using length_cstr_le[of "p_data p"] assms(1) by (auto simp: point_wf_def)
    have c: "c_strncpy (replicate 21 NUL) 0 (p_data p) 20 = Some (take 20 (?d @ replicate 20 NUL) @ [NUL])"
      using l(2) by (subst c_strncpy_0) auto
    have e: "take 20 (?d @ replicate 20 NUL) = ?d @ replicate (20 - length ?d) NUL" using l(1) by simp
    have len: "length (?d @ replicate (20 - length ?d) NUL) = 20" using l(1) by simp
    have "wr ((?d @ replicate (20 - length ?d) NUL) @ [NUL]) 20 NUL =
        Some ((?d @ replicate (20 - length ?d) NUL) @ [NUL])"
      using wr_append'[OF len[symmetric], of NUL "[]" NUL] .
    then show ?thesis
      using str c e by (auto simp: point_data_to_string_def raw_text_def terminated_def
        cstr_append_plain cstr_replicate simp del: wr_Some)
  qed
qed

lemma point_emit_spec:
  assumes "point_wf p" "printable p" "\<not> bad_data_type p"
  shows "point_emit True p = Some [report_line p]"
proof -
  note raw = raw_text_props[OF assms(1,2)]
  note wf = point_wfD[OF assms(1)]
  obtain b where b: "point_data_to_string p (replicate 21 NUL) 21 = Some (0, b)" "cstr b = raw_text p" "terminated b"
    using point_data_to_string_spec[OF assms] by blast
  have q: "quote_field src (replicate n NUL) n = Some (int (length (quoted (cstr src))),
      quoted (cstr src) @ NUL # drop (Suc (length (quoted (cstr src)))) (replicate n NUL))"
    if "terminated src" "2 * length (cstr src) + 4 \<le> n" for src n
    using quote_field_spec[OF that(1), of n "replicate n NUL"] quoted_length[of "cstr src"] that(2)
    by (simp add: Let_def)
  have ql: "cstr (quoted (cstr src) @ NUL # r) = quoted (cstr src)" for src r
    by (intro cstr_append_NUL quoted_plain) simp
  have lens: "length (cstr (p_type p)) \<le> 23" "length (cstr (p_key p)) \<le> 22"
    using length_cstr_less[of "p_type p"] length_cstr_less[of "p_key p"] wf by auto
  have ts: "timeconv_rfc3339_from_epoch_ns_utc (p_time p) (replicate 31 NUL) 31 =
      Some (0, rfc3339_text (p_time p) @ [NUL])"
    using format_spec[of "replicate 31 NUL" 31 "p_time p"] by simp
  have dt: "(if p_data_type p = POINT_DATA_TYPE_FLOAT then ''FLT''
      else if p_data_type p = POINT_DATA_TYPE_INT then ''INT''
      else if p_data_type p = POINT_DATA_TYPE_STRING then ''STR'' else ''JSN'') = type_code (p_data_type p)"
    using assms(3) by (auto simp: type_code_def bad_data_type_iff)
  have q1: "quote_field b (replicate 45 NUL) 45 = Some (int (length (quoted (raw_text p))),
      quoted (raw_text p) @ NUL # drop (Suc (length (quoted (raw_text p)))) (replicate 45 NUL))"
    using q[OF b(3), of 45] raw(2) b(2) by simp
  note q2 = q[OF wf(2), of 51] and q3 = q[OF wf(4), of 49]
  show ?thesis
    unfolding point_emit_def dt Let_def
    using b(1) q1 q2 q3 lens ts assms(3) ql[of "p_type p"] ql[of "p_key p"] ql[of b] b(2)
    by (simp add: RFC3339_MAX_LEN_def report_line_def point_type_def point_key_def)
qed

subsection \<open>Lemmas: the cache as a store\<close>

definition cache_ok :: "nat \<Rightarrow> cache_state \<Rightarrow> bool" where
  "cache_ok n st = (array_ok (cs_cache st) \<and> length (cs_cache st) = n \<and> n \<le> 47 \<and> rows_ok (cs_rows st))"

definition cache_printable :: "cache_state \<Rightarrow> bool" where
  "cache_printable st = (\<forall>q\<in>set (cs_cache st). sendable q \<longrightarrow> printable q)"

definition cache_insert :: "cache_state \<Rightarrow> point \<Rightarrow> (int \<times> cache_state) option" where
  "cache_insert st p = map_option (\<lambda>(r, st, p). (r, st)) (point_cache_merge st p)"

definition cache_view :: "cache_state \<Rightarrow> name \<rightharpoonup> point" where
  "cache_view st = point_map (cs_cache st)"

lemma cache_init_ok: "n \<le> 47 \<Longrightarrow> cache_ok n (cache_init n)"
  using zero_array[of n] by (simp add: cache_ok_def cache_init_def array_ok_def rows_ok_def)

lemma point_cache_merge_spec:
  assumes "cache_ok n st" "point_wf p"
  shows "\<exists>r st'. point_cache_merge st p = Some (r, st', normal_key p) \<and> cache_ok n st' \<and>
    cs_streaming st' = cs_streaming st \<and> cs_rows st' = cs_rows st \<and>
    (if r = 0 then cache_view st' = map_merge (cache_view st) (normal_key p) else r = - ENOMEM \<and> st' = st) \<and>
    set (cs_cache st') \<subseteq> insert (normal_key p) (set (cs_cache st))"
proof -
  obtain r pts' where m: "merge_spec (cs_cache st) (normal_key p) = (r, pts')" by fastforce
  have ok: "names_unique (cs_cache st)" "array_wf (cs_cache st)"
    using assms(1) by (simp_all add: cache_ok_def array_ok_def)
  note c = merge_spec_correct[OF ok normal_key_wf[OF assms(2)] m]
  have "points_merge (cs_cache st) p = Some (r, pts', normal_key p)"
    using points_merge_spec[of "cs_cache st" p] ok assms(2) m by (simp add: array_wf_def)
  moreover have "set pts' \<subseteq> insert (normal_key p) (set (cs_cache st))"
    using m set_update_subset_insert[of "cs_cache st" _ "normal_key p"]
    by (auto simp: merge_spec_def split: option.splits)
  ultimately show ?thesis
    using c assms(1) by (auto simp: point_cache_merge_def cache_ok_def array_ok_def cache_view_def)
qed

interpretation cache: point_store cache_insert cache_view "cache_ok n" for n
proof unfold_locales
  fix s p assume "cache_ok n s" "point_wf p"
  then show "\<exists>r s'. cache_insert s p = Some (r, s') \<and> cache_ok n s' \<and> (r = 0 \<or> r = - ENOMEM)"
    using point_cache_merge_spec[of n s p] by (auto simp: cache_insert_def split: if_splits)
next
  fix s p s' assume "cache_ok n s" "point_wf p" "cache_insert s p = Some (0, s')"
  then show "cache_view s' = map_merge (cache_view s) (normal_key p)"
    using point_cache_merge_spec[of n s p] by (auto simp: cache_insert_def)
next
  fix s p r s' assume "cache_ok n s" "point_wf p" "cache_insert s p = Some (r, s')" "r \<noteq> 0"
  then show "s' = s" using point_cache_merge_spec[of n s p] by (auto simp: cache_insert_def)
qed

lemma count_loop_spec:
  "\<forall>q\<in>set qs. point_wf q \<Longrightarrow> count_loop qs c = Some (c + int (length (filter (\<lambda>q. \<not> slot_free q) qs)))"
  by (induction qs arbitrary: c) (auto simp: type_first)

lemma emit_foreach_spec:
  assumes "\<forall>q\<in>set qs. point_wf q \<and> (sendable q \<longrightarrow> printable q)"
  shows "foreach_loop (emit_cb True) qs console 0 =
    Some (0, qs, console @ map report_line (filter sendable qs))"
  using assms
proof (induction qs arbitrary: console)
  case (Cons q qs)
  have q: "point_wf q" "sendable q \<Longrightarrow> printable q" using Cons.prems by auto
  show ?case
  proof (cases "slot_free q")
    case True
    then have "\<not> sendable q" by (simp add: sendable_def slot_free_def)
    then show ?thesis using True Cons type_first[OF q(1)] by simp
  next
    case False
    have "point_emit True q = Some (if sendable q then [report_line q] else [])"
      using point_emit_spec[of q] q False
      by (auto simp: sendable_def slot_free_def point_emit_def)
    then show ?thesis using False Cons type_first[OF q(1)] by (simp add: emit_cb_def)
  qed
qed simp

subsection \<open>Lemmas: the interleaved system\<close>

definition event_ok :: "cache_event \<Rightarrow> bool" where
  \<comment> \<open>messages carry well-formed points with printable numbers, commands C strings\<close>
  "event_ok e = (case e of
     Ev_message on p \<Rightarrow> point_wf p \<and> (\<not> bad_data_type p \<longrightarrow> printable p)
   | Ev_stream argv \<Rightarrow> \<forall>a\<in>set argv. terminated a
   | _ \<Rightarrow> True)"

inductive cache_reach :: "nat \<Rightarrow> arr_encoder \<Rightarrow> cache_state \<Rightarrow> string list \<Rightarrow> bool" for n enc where
  start: "cache_reach n enc (cache_init n) []"
| step: "cache_reach n enc st out \<Longrightarrow> event_ok e \<Longrightarrow> cache_handle True enc e st = Some (st', l) \<Longrightarrow>
    cache_reach n enc st' (out @ l)"

inductive_cases cache_reach_cases: "cache_reach n enc st out"

lemma sendable_normal_key [simp]: "sendable (normal_key p) = sendable p"
  by (simp add: sendable_def)

lemma printable_normal_key [simp]: "printable (normal_key p) = printable p"
  by (simp add: printable_def normal_key_def point_get_int_def point_get_float_def)

lemma point_cache_step_spec:
  assumes "cache_ok n st" "cache_printable st" "event_ok (Ev_message on p)"
  shows "\<exists>st'. point_cache_step True st on p =
      Some (st', if on \<and> cs_streaming st \<and> \<not> bad_data_type p then [report_line (normal_key p)] else []) \<and>
    cache_ok n st' \<and> cache_printable st' \<and> cs_streaming st' = cs_streaming st"
proof (cases on)
  case False
  then show ?thesis using assms by (simp add: point_cache_step_def)
next
  case True
  have p: "point_wf p" "\<not> bad_data_type p \<Longrightarrow> printable p" using assms(3) by (simp_all add: event_ok_def)
  obtain r st' where m: "point_cache_merge st p = Some (r, st', normal_key p)" "cache_ok n st'"
    "cs_streaming st' = cs_streaming st" "set (cs_cache st') \<subseteq> insert (normal_key p) (set (cs_cache st))"
    using point_cache_merge_spec[OF assms(1) p(1)] by blast
  have pr: "cache_printable st'"
    using m(4) assms(2) p(2) by (auto simp: cache_printable_def sendable_def)
  have "point_emit True (normal_key p) =
      Some (if bad_data_type p then [] else [report_line (normal_key p)])"
    using point_emit_spec[of "normal_key p"] normal_key_wf[OF p(1)] p(2)
    by (auto simp: point_emit_def)
  then show ?thesis using True m pr by (simp add: point_cache_step_def)
qed

lemma cache_handle_ok:
  assumes "cache_ok n st" "cache_printable st" "event_ok e" "\<And>a b m. enc a b m \<noteq> None"
  shows "\<exists>st' l. cache_handle True enc e st = Some (st', l) \<and> cache_ok n st' \<and> cache_printable st'"
proof -
  have wf: "\<forall>q\<in>set (cs_cache st). point_wf q" "length (cs_cache st) = n" "n \<le> 47" "rows_ok (cs_rows st)"
    using assms(1) by (simp_all add: cache_ok_def array_ok_def array_wf_def)
  show ?thesis
  proof (cases e)
    case (Ev_message on p)
    then show ?thesis using point_cache_step_spec[OF assms(1,2)] assms(3)
      by (fastforce simp: cache_handle_def)
  next
    case Ev_dump
    have "foreach_loop (emit_cb True) (cs_cache st) [] 0 =
        Some (0, cs_cache st, [] @ map report_line (filter sendable (cs_cache st)))"
      using wf(1) assms(2) by (intro emit_foreach_spec) (simp add: cache_printable_def)
    then show ?thesis using Ev_dump assms(1,2)
      by (simp add: cache_handle_def cmd_siot_dump_def point_cache_foreach_def)
  next
    case (Ev_stream argv)
    then have "length argv < 2 \<or> terminated (argv ! 1)" using assms(3) nth_mem[of 1 argv] by (fastforce simp: event_ok_def)
    then show ?thesis using Ev_stream assms(1,2)
      by (auto simp: cache_handle_def cmd_siot_stream_def c_streq_eq cache_ok_def cache_printable_def)
  next
    case Ev_status
    then show ?thesis using assms(1,2) wf(1)
      by (simp add: cache_handle_def cmd_siot_status_def point_cache_count_def count_loop_spec)
  next
    case (Ev_json buf m)
    have "\<exists>out db. rows_ok db \<and> map js_view out = map point_view (filter sendable (take (nat (int n)) (cs_cache st))) \<and>
      (\<forall>js\<in>set out. js_ok js \<and> js_complete js) \<and>
      points_json_encode enc (cs_cache st) (int n) buf m (cs_rows st) =
        map_option (\<lambda>(ret, buf). (ret, buf, db))
          (enc \<lparr>ja_points = out @ replicate (47 - length out) point_js_zero, ja_len = length out\<rparr> buf m)"
      using wf assms(2) by (intro points_json_encode_spec) (auto simp: cache_printable_def dest: in_set_takeD)
    then obtain out db where "rows_ok db" "points_json_encode enc (cs_cache st) (int n) buf m (cs_rows st) =
        map_option (\<lambda>(ret, buf). (ret, buf, db))
          (enc \<lparr>ja_points = out @ replicate (47 - length out) point_js_zero, ja_len = length out\<rparr> buf m)"
      by blast
    moreover obtain r b where "enc \<lparr>ja_points = out @ replicate (47 - length out) point_js_zero,
        ja_len = length out\<rparr> buf m = Some (r, b)" using assms(4) by fastforce
    ultimately show ?thesis using Ev_json assms(1,2) wf(2)
      by (simp add: cache_handle_def point_cache_json_encode_def cache_ok_def cache_printable_def)
  qed
qed

lemma point_cache_thread_feed:
  assumes "cache_ok n st" "cache_printable st" "\<forall>(on, p)\<in>set msgs. event_ok (Ev_message on p)"
  shows "\<exists>st' out rs. point_cache_thread True st msgs = Some (st', out) \<and> cache_ok n st' \<and>
    cs_streaming st' = cs_streaming st \<and>
    feed cache_insert st (map snd (filter fst msgs)) = Some (rs, st') \<and>
    out = (if cs_streaming st then map (\<lambda>x. report_line (normal_key (snd x)))
      (filter (\<lambda>x. fst x \<and> \<not> bad_data_type (snd x)) msgs) else [])"
  using assms
proof (induction msgs arbitrary: st)
  case (Cons m msgs)
  obtain on p where m: "m = (on, p)" by (cases m)
  have ev: "event_ok (Ev_message on p)" using Cons.prems(3) m by simp
  then have p: "point_wf p" by (simp add: event_ok_def)
  obtain st1 where 1: "point_cache_step True st on p =
      Some (st1, if on \<and> cs_streaming st \<and> \<not> bad_data_type p then [report_line (normal_key p)] else [])"
    "cache_ok n st1" "cache_printable st1" "cs_streaming st1 = cs_streaming st"
    using point_cache_step_spec[OF Cons.prems(1,2) ev] by blast
  obtain st2 out rs where 2: "point_cache_thread True st1 msgs = Some (st2, out)" "cache_ok n st2"
    "cs_streaming st2 = cs_streaming st1" "feed cache_insert st1 (map snd (filter fst msgs)) = Some (rs, st2)"
    "out = (if cs_streaming st1 then map (\<lambda>x. report_line (normal_key (snd x)))
      (filter (\<lambda>x. fst x \<and> \<not> bad_data_type (snd x)) msgs) else [])"
    using Cons.IH[OF 1(2,3)] Cons.prems(3) by auto
  have "\<exists>rs. feed cache_insert st (map snd (filter fst (m # msgs))) = Some (rs, st2)"
  proof (cases on)
    case True
    then obtain r where "point_cache_merge st p = Some (r, st1, normal_key p)"
      using 1(1) point_cache_merge_spec[OF Cons.prems(1) p]
      by (auto simp: point_cache_step_def split: Option.bind_splits if_splits)
    then show ?thesis using True 2(4) m by (simp add: cache_insert_def)
  next
    case False
    then show ?thesis using 1(1) 2(4) m by (auto simp: point_cache_step_def)
  qed
  then show ?case using 1 2 m by auto
qed simp

subsection \<open>Lemmas: a cache with a slot for every name is never full\<close>

definition occupied_by :: "name set \<Rightarrow> point list \<Rightarrow> bool" where
  "occupied_by ns pts = (\<forall>q\<in>set pts. slot_free q \<or> slot_valid q \<and> point_name q \<in> ns)"

lemma merge_accepts:
  assumes "array_ok pts" "occupied_by ns pts" "finite ns" "card ns \<le> length pts"
    and "slot_valid p" "point_name p \<in> ns"
  shows "fst (merge_spec pts p) = 0 \<and> occupied_by ns (snd (merge_spec pts p))"
proof -
  have upd: "occupied_by ns (pts[i := p])" for i
    using assms(2,5,6) set_update_subset_insert[of pts i p] by (auto simp: occupied_by_def)
  have "find_slot (\<lambda>q. slot_valid q \<and> point_name q = point_name p) pts \<noteq> None \<or> find_slot slot_free pts \<noteq> None"
  proof (rule ccontr)
    assume "\<not> ?thesis"
    then have full: "\<forall>q\<in>set pts. \<not> slot_free q \<and> \<not> (slot_valid q \<and> point_name q = point_name p)"
      by (auto simp: find_slot_None)
    then have sub: "point_name ` set pts \<subseteq> ns - {point_name p}"
      using assms(2) by (fastforce simp: occupied_by_def)
    have "inj_on (\<lambda>i. point_name (pts ! i)) {..<length pts}"
      using assms(1,2) full by (auto simp: inj_on_def array_ok_def names_unique_def occupied_by_def)
    then have "card ((\<lambda>i. point_name (pts ! i)) ` {..<length pts}) = length pts" by (simp add: card_image)
    moreover have "(\<lambda>i. point_name (pts ! i)) ` {..<length pts} = point_name ` set pts"
      by (auto simp: set_conv_nth)
    ultimately have "length pts \<le> card (ns - {point_name p})" using card_mono[OF _ sub] assms(3) by simp
    also have "\<dots> < card ns" using assms(3,6) by (intro psubset_card_mono) auto
    finally show False using assms(4) by simp
  qed
  then show ?thesis using upd by (auto simp: merge_spec_def split: option.splits)
qed

lemma cache_feed_accepts:
  assumes "finite ns" "card ns \<le> n" "\<forall>p\<in>set ps. point_wf p \<and> slot_valid p \<and> point_name (normal_key p) \<in> ns"
    and "cache_ok n st" "occupied_by ns (cs_cache st)"
  shows "\<exists>st'. feed cache_insert st ps = Some (replicate (length ps) 0, st')"
  using assms(3-)
proof (induction ps arbitrary: st)
  case (Cons p ps)
  let ?m = "merge_spec (cs_cache st) (normal_key p)"
  have ok: "array_ok (cs_cache st)" "length (cs_cache st) = n" using Cons.prems(2) by (simp_all add: cache_ok_def)
  then have m: "fst ?m = 0" "occupied_by ns (snd ?m)"
    using merge_accepts[OF ok(1) Cons.prems(3) assms(1)] assms(2) Cons.prems(1) by auto
  have p: "point_wf p" using Cons.prems(1) by simp
  have ins: "cache_insert st p = Some (0, st\<lparr>cs_cache := snd ?m\<rparr>)"
    using points_merge_spec[of "cs_cache st" p] ok p m(1)
    by (cases ?m) (simp add: cache_insert_def point_cache_merge_def array_ok_def array_wf_def)
  have "cache_ok n (st\<lparr>cs_cache := snd ?m\<rparr>)" using cache.ins_ok[OF Cons.prems(2) p ins] .
  then obtain st' where "feed cache_insert (st\<lparr>cs_cache := snd ?m\<rparr>) ps = Some (replicate (length ps) 0, st')"
    using Cons.IH[of "st\<lparr>cs_cache := snd ?m\<rparr>"] Cons.prems(1) m(2) by auto
  then show ?case using ins by simp
qed simp

lemma find_rev: "find P (rev xs) = (if filter P xs = [] then None else Some (last (filter P xs)))"
  by (induction xs rule: rev_induct) auto

lemma cache_thread_quiet:
  assumes "cache_ok n st" "\<not> cs_streaming st" "\<forall>p\<in>set ps. point_wf p" "feed cache_insert st ps = Some (rs, st')"
  shows "point_cache_thread have_shell st (map (Pair True) ps) = Some (st', [])"
  using assms
proof (induction ps arbitrary: st rs)
  case (Cons p ps)
  then have p: "point_wf p" by simp
  obtain r st1 where m: "point_cache_merge st p = Some (r, st1, normal_key p)" "cache_ok n st1"
    "cs_streaming st1 = cs_streaming st"
    using point_cache_merge_spec[OF Cons.prems(1) p] by blast
  obtain rs1 where "feed cache_insert st1 ps = Some (rs1, st')"
  proof -
    have "cache_insert st p = Some (r, st1)" using m(1) by (simp add: cache_insert_def)
    then show thesis using that Cons.prems(4) by (auto split: Option.bind_splits)
  qed
  then show ?case using Cons.IH[OF m(2)] Cons.prems(2,3) m by (simp add: point_cache_step_def)
qed simp

lemma cache_thread_accepts:
  \<comment> \<open>the thread from an empty cache, fed with points whose names all have a slot\<close>
  assumes "finite ns" "card ns \<le> n" "n \<le> 47"
    and "\<forall>p\<in>set ps. point_wf p \<and> slot_valid p \<and> point_name (normal_key p) \<in> ns"
  shows "\<exists>st. point_cache_thread have_shell (cache_init n) (map (Pair True) ps) = Some (st, []) \<and> cache_ok n st \<and>
    (\<forall>k. cache_view st k = (let qs = filter (\<lambda>q. point_name q = k) (map normal_key ps)
      in if qs = [] then None else Some (last qs)))"
proof -
  let ?st = "cache_init n"
  have z: "slot_free point_zero"
    by (simp add: point_zero_def slot_free_def point_type_def cstr_replicate[of _ "[]", simplified])
  have init: "cache_ok n ?st" "occupied_by ns (cs_cache ?st)" "\<not> cs_streaming ?st"
    using cache_init_ok[OF assms(3)] z by (auto simp: cache_init_def occupied_by_def)
  have wf: "\<forall>p\<in>set ps. point_wf p" using assms(4) by blast
  obtain st where f: "feed cache_insert ?st ps = Some (replicate (length ps) 0, st)"
    using cache_feed_accepts[OF assms(1,2,4) init(1,2)] by blast
  have ok: "cache_ok n st" using cache.feed_total[OF init(1) wf] f by auto
  have m: "map (\<lambda>x. normal_key (snd x)) (filter (\<lambda>x. fst x = 0) (zip (replicate (length ps) (0::int)) ps)) = map normal_key ps"
    by (induction ps) simp_all
  have e: "cache_view ?st = (\<lambda>_. None)"
    using z by (auto simp: cache_view_def cache_init_def point_map_None slot_valid_def fun_eq_iff)
  have "cache_view st k = (let qs = filter (\<lambda>q. point_name q = k) (map normal_key ps)
      in if qs = [] then None else Some (last qs))" for k
  proof -
    have v: "slot_valid q" if "q \<in> set (map normal_key ps)" for q using that assms(4) by auto
    have "last qs \<in> set (map normal_key ps)" if "qs = filter (\<lambda>q. point_name q = k) (map normal_key ps)" "qs \<noteq> []" for qs
      using that last_in_set[of qs] by (metis filter_is_subset subsetD)
    then show ?thesis using v
      unfolding cache.feed_view[OF init(1) wf f] m foldl_map_merge find_rev e by (auto simp: Let_def)
  qed
  then show ?thesis using cache_thread_quiet[OF init(1,3) wf f] ok by blast
qed

lemma sample_event: "event_ok (Ev_message on (sample_point t k 7))"
  by (simp add: event_ok_def printable_def INT_MIN_def INT_MAX_def)

subsection \<open>Properties\<close>



text \<open>
  The thread keeps the latest value: after any messages, the cache maps every name to the last
  accepted point of that name received on the point channel (normalised key; nothing if its data
  type is invalid), and names not received keep their value. Other channels are ignored.
\<close>

lemma cache_thread_latest:
  assumes "cache_ok n st" "cache_printable st" "\<forall>(on, p)\<in>set msgs. event_ok (Ev_message on p)"
  shows "\<exists>st' out rs. point_cache_thread True st msgs = Some (st', out) \<and> cache_ok n st' \<and>
    feed cache_insert st (map snd (filter fst msgs)) = Some (rs, st') \<and>
    (\<forall>k. cache_view st' k =
      (case find (\<lambda>p. point_name p = k) (rev (map (\<lambda>x. normal_key (snd x))
          (filter (\<lambda>x. fst x = 0) (zip rs (map snd (filter fst msgs)))))) of
        Some p \<Rightarrow> (if slot_valid p then Some p else None)
      | None \<Rightarrow> cache_view st k))"
proof -
  obtain st' out rs where t: "point_cache_thread True st msgs = Some (st', out)" "cache_ok n st'"
    "feed cache_insert st (map snd (filter fst msgs)) = Some (rs, st')"
    using point_cache_thread_feed[OF assms] by blast
  have "\<forall>p\<in>set (map snd (filter fst msgs)). point_wf p" using assms(3) by (auto simp: event_ok_def)
  from cache.feed_view[OF assms(1) this t(3)] show ?thesis using t
    by (intro exI[of _ st'] exI[of _ out] exI[of _ rs]) (simp add: foldl_map_merge)
qed


lemma cache_thread_latest_witness:
  "\<exists>st' out. point_cache_thread True (cache_init 3)
    [(True, sample_point ''uptime'' '''' 7), (False, sample_point ''temp'' '''' 7)] = Some (st', out) \<and> cache_ok 3 st'"
proof -
  have "cache_printable (cache_init 3)"
    by (auto simp: cache_printable_def cache_init_def sendable_def bad_data_type_iff point_zero_def)
  then show ?thesis
    using cache_thread_latest[OF cache_init_ok, of 3 "[(True, sample_point ''uptime'' '''' 7), (False, sample_point ''temp'' '''' 7)]"]
      sample_event by auto
qed

text \<open>
  C21: A streamed message prints one report line exactly when streaming is on, the message is a point
  of known data type and it came on the point channel, with the empty key shown as 0; this holds
  even when the cache is full and the point was not stored.
\<close>

theorem cache_stream_reports:
  assumes "cache_ok n st" "cache_printable st" "event_ok (Ev_message on p)"
  shows "\<exists>st'. point_cache_step True st on p = Some (st',
      if on \<and> cs_streaming st \<and> \<not> bad_data_type p then [report_line (normal_key p)] else []) \<and>
    cs_streaming st' = cs_streaming st"
  using point_cache_step_spec[OF assms] by blast

theorem cache_stream_reports_witness:
  "\<exists>st'. point_cache_step True ((cache_init 0)\<lparr>cs_streaming := True\<rparr>) True (sample_point ''uptime'' '''' 7) =
    Some (st', [''pt uptime 0 INT 7''])"
proof -
  let ?p = "sample_point ''uptime'' '''' 7"
  have ok: "cache_ok 0 ((cache_init 0)\<lparr>cs_streaming := True\<rparr>)" "cache_printable ((cache_init 0)\<lparr>cs_streaming := True\<rparr>)"
    using cache_init_ok[of 0] by (simp_all add: cache_ok_def cache_printable_def cache_init_def)
  have n: "point_type ?p = ''uptime''" "point_key ?p = []"
    by (simp_all add: sample_point_def point_put_int_def point_type_def point_key_def field_of_cstr point_zero_def)
  have g: "point_get_int (normal_key ?p) = 7"
    using sample_point_data(4)[of 7] by (simp add: point_get_int_def INT_MIN_def INT_MAX_def)
  have "dec_int 7 = ''7''" "\<not> needs_quote ''7''" "\<not> needs_quote ''uptime''" "\<not> needs_quote ''0''"
    by (code_simp, auto simp: needs_quote_def quote_char_def QUOTE_def BACKSLASH_def)
  then have "report_line (normal_key ?p) = ''pt uptime 0 INT 7''"
    using n g by (simp add: report_line_def normal_key_key raw_text_def type_code_def quoted_def POINT_TIME_MIN_def)
  then show ?thesis
    using cache_stream_reports[OF ok sample_event[of True "''uptime''" "''''"]] n
    by (simp add: bad_data_type_iff) blast
qed

text \<open>
  C22: The dump command prints one report line for every slot with a type and a known data type, in
  slot order, and changes nothing; the status command reports the number of occupied slots.
\<close>

theorem cache_dump_complete:
  assumes "cache_ok n st" "cache_printable st"
  shows "cmd_siot_dump True st = Some (0, st, map report_line (filter sendable (cs_cache st))) \<and>
    point_cache_count st = Some (int (length (filter (\<lambda>q. \<not> slot_free q) (cs_cache st))))"
proof -
  have wf: "\<forall>q\<in>set (cs_cache st). point_wf q"
    using assms(1) by (simp add: cache_ok_def array_ok_def array_wf_def)
  then have "foreach_loop (emit_cb True) (cs_cache st) [] 0 =
      Some (0, cs_cache st, [] @ map report_line (filter sendable (cs_cache st)))"
    using assms(2) by (intro emit_foreach_spec) (simp add: cache_printable_def)
  then show ?thesis using wf
    by (simp add: cmd_siot_dump_def point_cache_foreach_def point_cache_count_def count_loop_spec)
qed

theorem cache_dump_complete_witness:
  "cmd_siot_dump True (cache_init 4) = Some (0, cache_init 4, []) \<and> point_cache_count (cache_init 4) = Some 0"
proof -
  have s: "\<not> sendable point_zero" "slot_free point_zero"
    by (simp_all add: sendable_def bad_data_type_iff slot_free_def point_type_def point_zero_def
      cstr_replicate[of _ "[]", simplified])
  then have "cache_printable (cache_init 4)" by (auto simp: cache_printable_def cache_init_def)
  then show ?thesis using cache_dump_complete[OF cache_init_ok, of 4] s
    by (simp add: cache_init_def)
qed

text \<open>
  C23: Iteration calls the callback on the occupied slots in order, stops after the first non-zero
  result and returns it, or returns 0.
\<close>

theorem cache_foreach_stops:
  assumes "\<forall>q\<in>set (cs_cache st). point_wf q"
    and "occ = filter (\<lambda>q. \<not> slot_free q) (cs_cache st)"
  shows "point_cache_foreach (\<lambda>p seen. Some (f p, p, seen @ [p])) st [] =
    (case dropWhile (\<lambda>p. f p = 0) occ of
       [] \<Rightarrow> Some (0, st, occ)
     | q # _ \<Rightarrow> Some (f q, st, takeWhile (\<lambda>p. f p = 0) occ @ [q]))"
proof -
  have "foreach_loop (\<lambda>p seen. Some (f p, p, seen @ [p])) qs u 0 =
    (case dropWhile (\<lambda>p. f p = 0) (filter (\<lambda>q. \<not> slot_free q) qs) of
       [] \<Rightarrow> Some (0, qs, u @ filter (\<lambda>q. \<not> slot_free q) qs)
     | q # _ \<Rightarrow> Some (f q, qs, u @ takeWhile (\<lambda>p. f p = 0) (filter (\<lambda>q. \<not> slot_free q) qs) @ [q]))"
    if "\<forall>q\<in>set qs. point_wf q" for qs u
    using that
  proof (induction qs arbitrary: u)
    case (Cons q qs)
    have t: "rd (p_type q) 0 = Some (p_type q ! 0)" "p_type q ! 0 = NUL \<longleftrightarrow> slot_free q"
      using type_first Cons.prems by auto
    note IH = Cons.IH[OF ballI[OF Cons.prems[rule_format, OF list.set_intros(2)]]]
    show ?case
      using t IH by (cases "slot_free q"; cases "f q = 0"; cases "dropWhile (\<lambda>p. f p = 0) (filter (\<lambda>q. \<not> slot_free q) qs)")
        (simp_all del: dropWhile_eq_Nil_conv)
  qed simp
  from this[OF assms(1), of "[]"] show ?thesis
    unfolding assms(2)
    by (cases "dropWhile (\<lambda>p. f p = 0) (filter (\<lambda>q. \<not> slot_free q) (cs_cache st))")
      (simp_all add: point_cache_foreach_def del: dropWhile_eq_Nil_conv)
qed

theorem cache_foreach_stops_witness:
  "point_cache_foreach (\<lambda>p seen. Some (3, p, seen @ [p]))
    \<lparr>cs_cache = [point_zero, sample_point ''a'' ''0'' 1, sample_point ''b'' ''0'' 2], cs_streaming = False, cs_rows = []\<rparr> [] =
   Some (3, \<lparr>cs_cache = [point_zero, sample_point ''a'' ''0'' 1, sample_point ''b'' ''0'' 2], cs_streaming = False, cs_rows = []\<rparr>,
     [sample_point ''a'' ''0'' 1])"
proof -
  have f: "slot_free point_zero" "\<not> slot_free (sample_point ''a'' ''0'' 1)" "\<not> slot_free (sample_point ''b'' ''0'' 2)"
    by (simp add: slot_free_def point_type_def point_zero_def cstr_replicate[of _ "[]", simplified])
      (simp_all add: slot_free_def sample_point_def point_put_int_def point_type_def field_of_cstr)
  show ?thesis
    using cache_foreach_stops[OF _ refl, of "\<lparr>cs_cache = [point_zero, sample_point ''a'' ''0'' 1,
        sample_point ''b'' ''0'' 2], cs_streaming = False, cs_rows = []\<rparr>" "\<lambda>p. 3"] f by simp
qed

text \<open>
  C24: The JSON snapshot of the cache is never refused for its size and consists of exactly the slots
  that can be sent, in order.
\<close>

theorem cache_json_snapshot:
  assumes "cache_ok n st" "cache_printable st"
  shows "\<exists>out db. map js_view out = map point_view (filter sendable (cs_cache st)) \<and>
    point_cache_json_encode enc st buf len =
      map_option (\<lambda>(ret, buf). (ret, buf, st\<lparr>cs_rows := db\<rparr>))
        (enc \<lparr>ja_points = out @ replicate (47 - length out) point_js_zero, ja_len = length out\<rparr> buf len)"
proof -
  have wf: "\<forall>q\<in>set (cs_cache st). point_wf q" "length (cs_cache st) = n" "n \<le> 47" "rows_ok (cs_rows st)"
    using assms(1) by (simp_all add: cache_ok_def array_ok_def array_wf_def)
  have "\<exists>out db. rows_ok db \<and> map js_view out = map point_view (filter sendable (take (nat (int n)) (cs_cache st))) \<and>
    (\<forall>js\<in>set out. js_ok js \<and> js_complete js) \<and>
    points_json_encode enc (cs_cache st) (int n) buf len (cs_rows st) =
      map_option (\<lambda>(ret, buf). (ret, buf, db))
        (enc \<lparr>ja_points = out @ replicate (47 - length out) point_js_zero, ja_len = length out\<rparr> buf len)"
    using wf assms(2) by (intro points_json_encode_spec) (auto simp: cache_printable_def dest: in_set_takeD)
  then obtain out db where o: "map js_view out = map point_view (filter sendable (cs_cache st))"
    "points_json_encode enc (cs_cache st) (int n) buf len (cs_rows st) =
      map_option (\<lambda>(ret, buf). (ret, buf, db))
        (enc \<lparr>ja_points = out @ replicate (47 - length out) point_js_zero, ja_len = length out\<rparr> buf len)"
    using wf(2) by auto
  show ?thesis
    using o wf(2) by (intro exI[of _ out] exI[of _ db])
      (auto simp: point_cache_json_encode_def map_conv_bind_option comp_def case_prod_unfold)
qed

theorem cache_json_snapshot_witness:
  "point_cache_json_encode (\<lambda>a b m. Some (int (ja_len a), b)) (cache_init 5) [] 0 \<noteq> None"
proof -
  have "cache_printable (cache_init 5)"
    by (auto simp: cache_printable_def cache_init_def sendable_def bad_data_type_iff point_zero_def)
  from cache_json_snapshot[OF cache_init_ok this, of "\<lambda>a b m. Some (int (ja_len a), b)" "[]" 0]
  show ?thesis by auto
qed

lemma replayed_mirror:
  \<comment> \<open>decoding the words of a report\<close>
  assumes "point_wf p" "text_wf p" "printable p" "p_data_type p \<in> {2, 3, 4}"
    and "p_data_type p \<in> {3, 4} \<Longrightarrow> BACKSLASH \<notin> set (cstr (p_data p))"
    and view: "cptr_str (js_t js) = point_type p" "cptr_str (js_k js) = point_key p"
      "cptr_str (js_dt js) = type_code (p_data_type p)" "js_token js = raw_text p"
  shows "\<exists>q. js_decoded js point_zero = Some (0, q) \<and> point_type q = point_type p \<and>
    point_key q = point_key p \<and> p_data_type q = p_data_type p \<and> p_time q = 0 \<and>
    (p_data_type p = 2 \<longrightarrow> point_get_int q = point_get_int p) \<and>
    (p_data_type p \<in> {3, 4} \<longrightarrow> cstr (p_data q) = cstr (p_data p))"
proof -
  note raw = raw_text_props[OF assms(1,3)]
  have tc: "take 3 (type_code (p_data_type p)) = type_code (p_data_type p)" by (simp add: type_code_def)
  define p1 where "p1 = point_zero\<lparr>p_time := 0, p_type := field_of 24 (point_type p), p_key := field_of 23 (point_key p)\<rparr>"
  have p1: "point_wf p1" "point_type p1 = point_type p" "point_key p1 = point_key p"
    using field_of_names[OF assms(1)] point_zero_wf(1) by (simp_all add: p1_def point_wf_def point_type_def point_key_def)
  show ?thesis
  proof (cases "p_data_type p = 2")
    case True
    have r: "raw_text p = dec_int (point_get_int p)" using True by (simp add: raw_text_def)
    have "atoi (number_text js) = Some (point_get_int p)"
      using atoi_dec_int[of "point_get_int p" "[]"] assms(3) True point_get_int_range[of p] raw(2)
      unfolding number_text_def view r by (simp add: printable_def r)
    then have "js_decoded js point_zero = Some (0, point_put_int p1 (point_get_int p))"
      unfolding js_decoded_def view tc by (simp add: type_code_def True p1_def Let_def)
    moreover have "point_get_int (point_put_int p1 (point_get_int p)) = point_get_int p"
      using point_get_int_range[of p] by (intro get_put_int) auto
    ultimately show ?thesis using p1 True
      by (simp add: point_put_int_def point_type_def point_key_def) (simp add: p1_def)
  next
    case False
    then have t: "p_data_type p \<in> {3, 4}" "BACKSLASH \<notin> set (cstr (p_data p))" using assms(4,5) by auto
    have r: "raw_text p = cstr (p_data p)" using t(1) by (auto simp: raw_text_def)
    have u: "unesc s = s" if "BACKSLASH \<notin> set s" for s
      using that by (induction s) (auto simp: unesc_cons_plain)
    have "length (cstr (p_data p)) \<le> 19"
      using t(1) assms(1,2) length_cstr_less[of "p_data p"] by (auto simp: text_wf_def point_wf_def)
    then have v: "take 19 (cstr (p_data p)) = cstr (p_data p)" by simp
    have "js_decoded js point_zero = Some (0, store_text (p_data_type p) (cstr (p_data p)) p1)"
      unfolding js_decoded_def view tc using t u[OF t(2)] 
      by (auto simp: type_code_def p1_def Let_def r)
    then show ?thesis using p1 v False t(1) store_text_wf(3)[OF p1(1), of "cstr (p_data p)" "p_data_type p"]
      by (auto simp: store_text_def point_type_def point_key_def Let_def) (simp_all add: p1_def)
  qed
qed





end
