(* ===== verification/Web.thy ===== *)
theory Web
  imports Point_Cache
begin

text \<open>
  apps/siot-net/src/web.c: the HTTP handler of the API and the thread that mirrors the points of the
  bus into the web server's own array. The server calls the handler once per chunk of a
  request; the handler keeps the body received so far in static storage between the calls. The
  JSON library is a parameter, as in lib/point.c; the HTTP server is the caller.
\<close>

subsection \<open>State and interface\<close>

definition WEB_POINTS :: nat where [simp]: "WEB_POINTS = 40"
definition RECV_LEN :: nat where [simp]: "RECV_LEN = 2048"
definition V1_PAYLOAD_LEN :: nat where [simp]: "V1_PAYLOAD_LEN = 256"
definition POST_POINTS :: nat where [simp]: "POST_POINTS = 5"
definition DUMP_LEN :: nat where [simp]: "DUMP_LEN = 128"

record web_state =
  ws_points :: "point list"
  ws_recv :: bytes
  ws_payload :: bytes
  ws_cursor :: nat
  ws_rows :: "bytes list"
    \<comment> \<open>the static scratch rows of the array encoder in lib/point.c\<close>

definition web_init :: web_state where
  \<comment> \<open>static storage is zeroed\<close>
  "web_init = \<lparr>ws_points = replicate WEB_POINTS point_zero, ws_recv = replicate RECV_LEN NUL,
     ws_payload = replicate V1_PAYLOAD_LEN NUL, ws_cursor = 0,
     ws_rows = replicate POINT_JS_ARRAY_MAX (replicate POINT_JSON_DATA_BUF_SIZE NUL)\<rparr>"

datatype http_method = HTTP_GET | HTTP_POST | HTTP_OTHER

datatype http_status =
  HTTP_SERVER_TRANSACTION_ABORTED
| HTTP_SERVER_REQUEST_DATA_MORE
| HTTP_SERVER_REQUEST_DATA_FINAL

record http_request =
  rq_method :: http_method
  rq_url :: bytes
  rq_status :: http_status
  rq_data :: bytes
  rq_data_len :: nat

record http_response =
  resp_body :: bytes
    \<comment> \<open>what \<open>recv_buffer\<close>, which the body points to, holds when the handler returns\<close>
  resp_body_len :: nat
  resp_final_chunk :: bool

subsection \<open>The handler\<close>

definition v1_store_chunk :: "http_request \<Rightarrow> web_state \<Rightarrow> (bool \<times> web_state) option" where
  \<comment> \<open>the copy of a chunk of a POST; the flag says that the handler returns \<open>-ENOMEM\<close>\<close>
  "v1_store_chunk rq st =
     (if rq_method rq = HTTP_POST then
        (if V1_PAYLOAD_LEN < rq_data_len rq + ws_cursor st then Some (True, st\<lparr>ws_cursor := 0\<rparr>)
         else do {
           buf \<leftarrow> c_memcpy (ws_payload st) (ws_cursor st) (rq_data rq) (rq_data_len rq);
           Some (False, st\<lparr>ws_payload := buf, ws_cursor := ws_cursor st + rq_data_len rq\<rparr>)
         })
      else Some (False, st))"

definition v1_get_points :: "arr_encoder \<Rightarrow> web_state \<Rightarrow> web_state option" where
  \<comment> \<open>an error of the encoder is only logged\<close>
  "v1_get_points arr_encode st = do {
     (ret, recv, rows) \<leftarrow> points_json_encode arr_encode (ws_points st) (int (length (ws_points st)))
                            (ws_recv st) RECV_LEN (ws_rows st);
     Some (st\<lparr>ws_recv := recv, ws_rows := rows\<rparr>)
   }"

fun v1_post_loop :: "point list \<Rightarrow> point list \<Rightarrow> nat \<Rightarrow> (point list \<times> point list) option" where
  \<comment> \<open>merge and publish the first \<open>n\<close> decoded points; the merge normalises the key of what is
    published\<close>
  "v1_post_loop web pts 0 = Some (web, [])"
| "v1_post_loop web [] (Suc n) = None"
| "v1_post_loop web (p # pts) (Suc n) = do {
     (r, web, p) \<leftarrow> points_merge web p;
     (web, pub) \<leftarrow> v1_post_loop web pts n;
     Some (web, p # pub)
   }"

definition v1_post_points :: "arr_parser \<Rightarrow> web_state \<Rightarrow> (web_state \<times> point list) option" where
  \<comment> \<open>the list holds the points published; the buffer of the debug dump is a local, its initial
    content does not matter\<close>
  "v1_post_points arr_parse st = do {
     payload \<leftarrow> wr (ws_payload st) (ws_cursor st) NUL;
     (ret, pts) \<leftarrow> points_json_decode arr_parse payload (ws_cursor st)
                     (replicate POST_POINTS point_zero) POST_POINTS;
     (web, recv, pub) \<leftarrow> (if ret < 0 then do {
         recv \<leftarrow> c_strcpy (ws_recv st) (lit ''{\"error\":\"error decoding data\"}'');
         Some (ws_points st, recv, [])
       }
       else do {
         (cnt, dump) \<leftarrow> points_dump (take (nat ret) pts) (replicate DUMP_LEN NUL) DUMP_LEN;
         (web, pub) \<leftarrow> v1_post_loop (ws_points st) pts (nat ret);
         Some (web, ws_recv st, pub)
       });
     recv \<leftarrow> c_strcpy recv (lit ''{\"error\":\"\"}'');
     Some (st\<lparr>ws_points := web, ws_recv := recv, ws_payload := payload\<rparr>, pub)
   }"

definition v1_reply ::
  "arr_encoder \<Rightarrow> arr_parser \<Rightarrow> bytes \<Rightarrow> http_request \<Rightarrow> web_state \<Rightarrow> (web_state \<times> point list) option"
where
  "v1_reply arr_encode arr_parse board rq st = do {
     is_points \<leftarrow> c_streq (rq_url rq) (lit ''/v1/points'');
     if is_points then
       (if rq_method rq = HTTP_GET then do {
          st \<leftarrow> v1_get_points arr_encode st;
          Some (st, [])
        }
        else v1_post_points arr_parse st)
     else do {
       recv \<leftarrow> c_strcpy (ws_recv st) board;
       Some (st\<lparr>ws_recv := recv\<rparr>, [])
     }
   }"

definition v1_handler ::
  "arr_encoder \<Rightarrow> arr_parser \<Rightarrow> bytes \<Rightarrow> http_request \<Rightarrow> web_state \<Rightarrow>
   (int \<times> web_state \<times> http_response option \<times> point list) option"
where
  \<comment> \<open>the return value, the state, the response if one is set, and the points published;
    \<open>board\<close> is the string \<open>CONFIG_BOARD_TARGET\<close>\<close>
  "v1_handler arr_encode arr_parse board rq st = do {
     (full, st) \<leftarrow> v1_store_chunk rq st;
     if full then Some (- ENOMEM, st, None, [])
     else if rq_status rq = HTTP_SERVER_TRANSACTION_ABORTED
     then Some (0, st\<lparr>ws_cursor := 0\<rparr>, None, [])
     else if rq_status rq = HTTP_SERVER_REQUEST_DATA_FINAL then do {
       (st, pub) \<leftarrow> v1_reply arr_encode arr_parse board rq st;
       n \<leftarrow> c_strlen (ws_recv st);
       Some (0, st\<lparr>ws_cursor := 0\<rparr>,
         Some \<lparr>resp_body = ws_recv st, resp_body_len = n, resp_final_chunk = True\<rparr>, pub)
     }
     else Some (0, st, None, [])
   }"

subsection \<open>The thread\<close>

definition web_step :: "web_state \<Rightarrow> bool \<Rightarrow> point \<Rightarrow> web_state option" where
  \<comment> \<open>one message of \<open>web_sub\<close>; the flag says whether it came on \<open>point_chan\<close>\<close>
  "web_step st on_point_chan p =
     (if \<not> on_point_chan then Some st
      else do {
        (ret, pts, p) \<leftarrow> points_merge (ws_points st) p;
        Some (st\<lparr>ws_points := pts\<rparr>)
      })"

fun web_thread :: "web_state \<Rightarrow> (bool \<times> point) list \<Rightarrow> web_state option" where
  "web_thread st [] = Some st"
| "web_thread st ((on_point_chan, p) # msgs) = do {
     st \<leftarrow> web_step st on_point_chan p;
     web_thread st msgs
   }"

subsection \<open>Lemmas: what a request posts\<close>

definition posted :: "arr_parser \<Rightarrow> bytes \<Rightarrow> nat \<Rightarrow> point list" where
  \<comment> \<open>the points a body decodes to\<close>
  "posted arr_parse json n =
     (let (ret, arr) = arr_parse json n \<lparr>ja_points = replicate POINT_JS_ARRAY_MAX point_js_uninit, ja_len = 0\<rparr>
      in if ret \<noteq> 0 then []
         else map (\<lambda>j. snd (the (point_js_to_point (ja_points arr ! j) point_zero))) [0..<min POST_POINTS (ja_len arr)])"

definition parsed_ok :: "arr_parser \<Rightarrow> bytes \<Rightarrow> nat \<Rightarrow> bool" where
  \<comment> \<open>the parser either refuses the body or fills every entry it reports, with int tokens in range\<close>
  "parsed_ok arr_parse json n =
     (let (ret, arr) = arr_parse json n \<lparr>ja_points = replicate POINT_JS_ARRAY_MAX point_js_uninit, ja_len = 0\<rparr>
      in ret < 0 \<or> ret = 0 \<and> ja_len arr \<le> length (ja_points arr) \<and>
         (\<forall>j<min POST_POINTS (ja_len arr). js_ok (ja_points arr ! j) \<and>
            point_js_to_point (ja_points arr ! j) point_zero \<noteq> None))"

definition refused :: "arr_parser \<Rightarrow> bytes \<Rightarrow> nat \<Rightarrow> bool" where
  "refused arr_parse json n =
     (fst (arr_parse json n \<lparr>ja_points = replicate POINT_JS_ARRAY_MAX point_js_uninit, ja_len = 0\<rparr>) < 0)"

lemma decode_fresh:
  \<comment> \<open>the decoder's loop over \<open>m\<close> mirrors, from an array of zeroed points\<close>
  assumes "m \<le> n" "m \<le> length js"
    and "\<And>j. j < m \<Longrightarrow> js_ok (js ! j) \<and> point_js_to_point (js ! j) point_zero \<noteq> None"
  shows "\<exists>pts. decode_points_loop js m (replicate n point_zero) 0 = Some pts \<and> length pts = n \<and>
    (\<forall>p\<in>set pts. point_wf p \<and> text_wf p) \<and>
    take m pts = map (\<lambda>j. snd (the (point_js_to_point (js ! j) point_zero))) [0..<m]"
proof -
  define zs where "zs = replicate n point_zero"
  have zs: "length zs = n" "\<And>j. j < m \<Longrightarrow> zs ! j = point_zero" "\<And>p. p \<in> set zs \<Longrightarrow> p = point_zero"
    using assms(1) by (auto simp: zs_def)
  have "\<exists>pts'. decode_points_loop js m zs 0 = Some pts' \<and> length pts' = length zs \<and>
    (\<forall>p\<in>set pts'. point_wf p \<and> text_wf p) \<and>
    (\<forall>j<length zs. if 0 \<le> j \<and> j < m then \<exists>r. point_js_to_point (js ! j) (zs ! j) = Some (r, pts' ! j)
      else pts' ! j = zs ! j)"
  proof (rule decode_points_loop_spec)
    show "js_ok (js ! j) \<and> point_js_to_point (js ! j) (zs ! j) \<noteq> None"
      if "j < m" for j using assms(3)[OF that] zs(2)[OF that] by simp
    show "point_wf p \<and> text_wf p" if "p \<in> set zs" for p using zs(3)[OF that] by simp
  qed (use assms(1,2) zs(1) in simp_all)
  then obtain pts where d: "decode_points_loop js m zs 0 = Some pts" "length pts = n" "\<forall>p\<in>set pts. point_wf p \<and> text_wf p"
    "\<forall>j<n. if 0 \<le> j \<and> j < m then \<exists>r. point_js_to_point (js ! j) (zs ! j) = Some (r, pts ! j) else pts ! j = zs ! j"
    unfolding zs(1) by blast
  have "pts ! j = snd (the (point_js_to_point (js ! j) point_zero))" if "j < m" for j
    using d(4)[rule_format, of j] zs that assms(1) by auto
  then have "take m pts = map (\<lambda>j. snd (the (point_js_to_point (js ! j) point_zero))) [0..<m]"
    using d(2) assms(1) by (intro nth_equalityI) auto
  then show ?thesis using d(1-3) unfolding zs_def by blast
qed

lemma posted_spec:
  assumes "parsed_ok arr_parse json n"
  shows "length (posted arr_parse json n) \<le> 5 \<and> (\<forall>p\<in>set (posted arr_parse json n). point_wf p \<and> text_wf p) \<and>
    (if refused arr_parse json n then posted arr_parse json n = [] \<and>
       (\<exists>r. r < 0 \<and> points_json_decode arr_parse json n (replicate 5 point_zero) 5 = Some (r, replicate 5 point_zero))
     else \<exists>rest. points_json_decode arr_parse json n (replicate 5 point_zero) 5 =
       Some (int (length (posted arr_parse json n)), posted arr_parse json n @ rest))"
proof -
  obtain ret arr where pr: "arr_parse json n \<lparr>ja_points = replicate 47 point_js_uninit, ja_len = 0\<rparr> = (ret, arr)"
    by fastforce
  show ?thesis
  proof (cases "ret < 0")
    case True
    then show ?thesis using pr by (simp add: posted_def refused_def points_json_decode_def)
  next
    case False
    define m where "m = min 5 (ja_len arr)"
    have ok: "ret = 0" "m \<le> length (ja_points arr)" "m \<le> 5"
      "\<And>j. j < m \<Longrightarrow> js_ok (ja_points arr ! j) \<and> point_js_to_point (ja_points arr ! j) point_zero \<noteq> None"
      using assms pr False by (auto simp: parsed_ok_def m_def)
    have ps: "posted arr_parse json n = map (\<lambda>j. snd (the (point_js_to_point (ja_points arr ! j) point_zero))) [0..<m]"
      using pr ok(1) by (simp add: posted_def m_def)
    obtain pts where pts: "decode_points_loop (ja_points arr) m (replicate 5 point_zero) 0 = Some pts"
      "\<forall>p\<in>set pts. point_wf p \<and> text_wf p" "take m pts = posted arr_parse json n"
      using decode_fresh[OF ok(3,2,4)] unfolding ps by blast
    have sp: "pts = posted arr_parse json n @ drop m pts" using pts(3) by (metis append_take_drop_id)
    have "points_json_decode arr_parse json n (replicate 5 point_zero) 5 = Some (int m, pts)"
      using pr ok(1) pts(1) by (simp add: points_json_decode_def m_def)
    moreover have "\<forall>p\<in>set (posted arr_parse json n). point_wf p \<and> text_wf p"
      using pts(2) sp by (metis Un_iff set_append)
    moreover have "\<not> refused arr_parse json n" using pr False by (simp add: refused_def)
    ultimately show ?thesis using ok(3) ps sp by (auto intro!: exI[of _ "drop m pts"])
  qed
qed

lemma v1_post_loop_feed:
  assumes "array_ok web" "\<forall>p\<in>set pts. point_wf p"
  shows "\<exists>web' rs. v1_post_loop web (pts @ rest) (length pts) = Some (web', map normal_key pts) \<and>
    feed points_insert web pts = Some (rs, web') \<and> array_ok web' \<and> length web' = length web \<and>
    set web' \<subseteq> set web \<union> set (map normal_key pts)"
  using assms
proof (induction pts arbitrary: web)
  case Nil
  then show ?case by simp
next
  case (Cons p pts)
  have p: "point_wf p" "array_wf web" "names_unique web" using Cons.prems by (simp_all add: array_ok_def)
  obtain r web1 where m: "merge_spec web (normal_key p) = (r, web1)" by fastforce
  have 1: "points_merge web p = Some (r, web1, normal_key p)"
    using points_merge_spec[of web p] p m by (simp add: array_wf_def)
  note c = merge_spec_correct[OF p(3,2) normal_key_wf[OF p(1)] m]
  have s1: "set web1 \<subseteq> insert (normal_key p) (set web)"
    using m set_update_subset_insert[of web _ "normal_key p"] by (auto simp: merge_spec_def split: option.splits)
  obtain web' rs where "v1_post_loop web1 (pts @ rest) (length pts) = Some (web', map normal_key pts)"
    "feed points_insert web1 pts = Some (rs, web')" "array_ok web'" "length web' = length web1"
    "set web' \<subseteq> set web1 \<union> set (map normal_key pts)"
    using Cons.IH[of web1] Cons.prems(2) c(1,2) by (auto simp: array_ok_def)
  moreover have "points_insert web p = Some (r, web1)" using 1 by (simp add: points_insert_def)
  ultimately show ?case using 1 c(3) s1 by auto
qed

subsection \<open>Lemmas: the state of the web server\<close>

definition web_ok :: "web_state \<Rightarrow> bool" where
  "web_ok st = (array_ok (ws_points st) \<and> length (ws_points st) = 40 \<and>
     (\<forall>q\<in>set (ws_points st). sendable q \<longrightarrow> printable q) \<and> rows_ok (ws_rows st) \<and>
     length (ws_recv st) = 2048 \<and> terminated (ws_recv st) \<and> length (ws_payload st) = 256 \<and> ws_cursor st \<le> 256)"

definition encoder_ok :: "arr_encoder \<Rightarrow> bool" where
  \<comment> \<open>the library's encoder writes inside the buffer it is given and leaves a C string in it\<close>
  "encoder_ok enc = (\<forall>a buf. terminated buf \<longrightarrow>
     (\<exists>r buf'. enc a buf (length buf) = Some (r, buf') \<and> length buf' = length buf \<and> terminated buf'))"

definition web_insert :: "web_state \<Rightarrow> point \<Rightarrow> (int \<times> web_state) option" where
  "web_insert st p = map_option (\<lambda>(r, pts, p). (r, st\<lparr>ws_points := pts\<rparr>)) (points_merge (ws_points st) p)"

definition web_view :: "web_state \<Rightarrow> name \<rightharpoonup> point" where
  "web_view st = point_map (ws_points st)"

lemma web_init_ok: "web_ok web_init"
proof -
  have "\<not> sendable point_zero" by (simp add: sendable_def bad_data_type_iff point_zero_def)
  then show ?thesis using zero_array[of 40]
    by (simp add: web_ok_def web_init_def array_ok_def rows_ok_def terminated_def)
qed

lemma v1_store_chunk_spec:
  assumes "length (ws_payload st) = 256" "rq_data_len rq \<le> length (rq_data rq)"
  shows "v1_store_chunk rq st =
    (if rq_method rq \<noteq> HTTP_POST then Some (False, st)
     else if 256 < rq_data_len rq + ws_cursor st then Some (True, st\<lparr>ws_cursor := 0\<rparr>)
     else Some (False, st\<lparr>ws_payload := take (ws_cursor st) (ws_payload st) @ take (rq_data_len rq) (rq_data rq) @
            drop (ws_cursor st + rq_data_len rq) (ws_payload st),
          ws_cursor := ws_cursor st + rq_data_len rq\<rparr>))"
  using assms by (simp add: v1_store_chunk_def c_memcpy_def wr_block_def min_def)

lemma c_strcpy_lit:
  assumes "NUL \<notin> set s" "length s < length buf"
  shows "c_strcpy buf (lit s) = Some (s @ NUL # drop (Suc (length s)) buf)"
  using assms by (simp add: c_strcpy_def wr_block_def)

lemma c_strcpy_some:
  assumes "terminated s" "length (cstr s) < length buf"
  shows "c_strcpy buf s = Some (cstr s @ NUL # drop (Suc (length (cstr s))) buf)"
  using assms by (simp add: c_strcpy_def wr_block_def)

definition V1_DONE :: string where
  "V1_DONE = ''{\"error\":\"\"}''"

definition body_ok :: "arr_parser \<Rightarrow> bytes \<Rightarrow> nat \<Rightarrow> bool" where
  \<comment> \<open>a body the handler copes with: it leaves room for the terminator, its numbers can be printed
    again, and its points fit the buffer of the debug dump\<close>
  "body_ok arr_parse payload n = (n < 256 \<and> parsed_ok arr_parse (payload[n := NUL]) n \<and>
     (\<forall>p\<in>set (posted arr_parse (payload[n := NUL]) n). \<not> bad_data_type p \<longrightarrow> printable p) \<and>
     length (dump_rows (posted arr_parse (payload[n := NUL]) n)) \<le> 125)"

lemma v1_post_loaded:
  \<comment> \<open>the handler once the points are decoded: dumped, merged and published one by one\<close>
  assumes "points_json_decode arr_parse pl n (replicate 5 point_zero) 5 = Some (int (length pts), pts @ rest)"
    and "wr (ws_payload st) n NUL = Some pl" "n = ws_cursor st" "array_ok (ws_points st)" "length (ws_recv st) = 2048"
    and "\<forall>p\<in>set pts. point_wf p \<and> text_wf p" "length (dump_rows pts) \<le> 125"
  shows "\<exists>web' rs. v1_post_points arr_parse st = Some (st\<lparr>ws_points := web',
      ws_recv := V1_DONE @ NUL # drop (Suc (length V1_DONE)) (ws_recv st), ws_payload := pl\<rparr>, map normal_key pts) \<and>
    feed points_insert (ws_points st) pts = Some (rs, web') \<and> array_ok web' \<and> length web' = length (ws_points st) \<and>
    set web' \<subseteq> set (ws_points st) \<union> set (map normal_key pts)"
proof -
  have wf: "\<forall>p\<in>set pts. point_wf p" "\<forall>p\<in>set pts. point_wf p \<and> dump_value p \<noteq> None"
    using assms(6) text_wf_dump by auto
  have "\<exists>buf'. points_dump pts (replicate 128 NUL) (length (replicate 128 NUL)) = Some (int (length (dump_rows pts)), buf') \<and>
      length buf' = length (replicate 128 NUL) \<and> take (Suc (length (dump_rows pts))) buf' = dump_rows pts @ [NUL]"
    by (rule points_dump_fits[OF wf(2)]) (use assms(7) in simp_all)
  then obtain d where d: "points_dump pts (replicate 128 NUL) 128 = Some (int (length (dump_rows pts)), d)" by auto
  have cp: "c_strcpy (ws_recv st) (lit ''{\"error\":\"\"}'') = Some (V1_DONE @ NUL # drop (Suc (length V1_DONE)) (ws_recv st))"
    using c_strcpy_lit[of V1_DONE "ws_recv st"] assms(5) by (simp add: V1_DONE_def)
  obtain web' rs where l: "v1_post_loop (ws_points st) (pts @ rest) (length pts) = Some (web', map normal_key pts)"
    "feed points_insert (ws_points st) pts = Some (rs, web')" "array_ok web'" "length web' = length (ws_points st)"
    "set web' \<subseteq> set (ws_points st) \<union> set (map normal_key pts)"
    using v1_post_loop_feed[OF assms(4) wf(1)] by blast
  then show ?thesis using assms(1,2,3) d cp by (simp add: v1_post_points_def)
qed

lemma v1_post_refused:
  \<comment> \<open>the handler when the decoder refuses: the error text is overwritten by the empty one\<close>
  assumes "points_json_decode arr_parse pl n (replicate 5 point_zero) 5 = Some (r, replicate 5 point_zero)" "r < 0"
    and "wr (ws_payload st) n NUL = Some pl" "n = ws_cursor st" "length (ws_recv st) = 2048"
  shows "\<exists>recv. v1_post_points arr_parse st =
      Some (st\<lparr>ws_recv := V1_DONE @ NUL # recv, ws_payload := pl\<rparr>, []) \<and> length (V1_DONE @ NUL # recv) = 2048"
proof -
  define e where "e = ''{\"error\":\"error decoding data\"}''"
  define recv where "recv = e @ NUL # drop (Suc (length e)) (ws_recv st)"
  have e: "NUL \<notin> set e" "length e < 2048" "NUL \<notin> set V1_DONE" "length V1_DONE < 2048"
    by (simp_all add: e_def V1_DONE_def)
  have 1: "c_strcpy (ws_recv st) (lit e) = Some recv"
    unfolding recv_def by (rule c_strcpy_lit) (use e assms(5) in simp_all)
  have len: "length recv = 2048" using e(2) assms(5) by (simp add: recv_def)
  have "c_strcpy recv (lit V1_DONE) = Some (V1_DONE @ NUL # drop (Suc (length V1_DONE)) recv)"
    by (rule c_strcpy_lit) (use e len in simp_all)
  then have "v1_post_points arr_parse st =
      Some (st\<lparr>ws_recv := V1_DONE @ NUL # drop (Suc (length V1_DONE)) recv, ws_payload := pl\<rparr>, [])"
    using assms(1-4) 1 by (simp add: v1_post_points_def e_def V1_DONE_def)
  then show ?thesis using len e(4) by auto
qed

lemma v1_post_points_spec:
  assumes "web_ok st" "body_ok arr_parse (ws_payload st) (ws_cursor st)"
    and "pts = posted arr_parse ((ws_payload st)[ws_cursor st := NUL]) (ws_cursor st)"
  shows "\<exists>web' recv rs. v1_post_points arr_parse st =
      Some (st\<lparr>ws_points := web', ws_recv := V1_DONE @ NUL # recv,
        ws_payload := (ws_payload st)[ws_cursor st := NUL]\<rparr>, map normal_key pts) \<and>
    feed points_insert (ws_points st) pts = Some (rs, web') \<and> array_ok web' \<and> length web' = 40 \<and>
    (\<forall>q\<in>set web'. sendable q \<longrightarrow> printable q) \<and> length (V1_DONE @ NUL # recv) = 2048"
proof -
  define pl where "pl = (ws_payload st)[ws_cursor st := NUL]"
  define n where "n = ws_cursor st"
  have w: "array_ok (ws_points st)" "length (ws_points st) = 40" "length (ws_recv st) = 2048"
    "\<forall>q\<in>set (ws_points st). sendable q \<longrightarrow> printable q" "wr (ws_payload st) n NUL = Some pl"
    using assms(1,2) by (simp_all add: web_ok_def body_ok_def n_def pl_def)
  have b: "parsed_ok arr_parse pl n" "\<forall>p\<in>set pts. \<not> bad_data_type p \<longrightarrow> printable p" "length (dump_rows pts) \<le> 125"
    using assms(2) by (simp_all add: body_ok_def pl_def n_def assms(3))
  have pts: "posted arr_parse pl n = pts" by (simp add: assms(3) pl_def n_def)
  note ps = posted_spec[OF b(1), unfolded pts]
  have dl: "length V1_DONE < 2048" by (simp add: V1_DONE_def)
  show ?thesis
  proof (cases "refused arr_parse pl n")
    case True
    then obtain r where r: "r < 0" "pts = []"
      "points_json_decode arr_parse pl n (replicate 5 point_zero) 5 = Some (r, replicate 5 point_zero)"
      using ps by auto
    from v1_post_refused[OF r(3,1) w(5) n_def w(3)] obtain recv where
      "v1_post_points arr_parse st = Some (st\<lparr>ws_recv := V1_DONE @ NUL # recv, ws_payload := pl\<rparr>, [])"
      "length (V1_DONE @ NUL # recv) = 2048" by blast
    then show ?thesis using w r(2)
      by (intro exI[of _ "ws_points st"] exI[of _ recv]) (simp add: pl_def)
  next
    case False
    then obtain rest where r: "points_json_decode arr_parse pl n (replicate 5 point_zero) 5 =
        Some (int (length pts), pts @ rest)" using ps by auto
    from ps have "\<forall>p\<in>set pts. point_wf p \<and> text_wf p" by auto
    from v1_post_loaded[OF r w(5) n_def w(1,3) this b(3)] obtain web' rs where
      l: "v1_post_points arr_parse st = Some (st\<lparr>ws_points := web',
        ws_recv := V1_DONE @ NUL # drop (Suc (length V1_DONE)) (ws_recv st), ws_payload := pl\<rparr>, map normal_key pts)"
      "feed points_insert (ws_points st) pts = Some (rs, web')" "array_ok web'" "length web' = length (ws_points st)"
      "set web' \<subseteq> set (ws_points st) \<union> set (map normal_key pts)" by blast
    have "\<forall>q\<in>set web'. sendable q \<longrightarrow> printable q" using l(5) w(4) b(2) by (auto simp: sendable_def)
    then show ?thesis using w l dl
      by (intro exI[of _ web'] exI[of _ "drop (Suc (length V1_DONE)) (ws_recv st)"] exI[of _ rs])
        (simp add: pl_def)
  qed
qed

lemma v1_get_points_spec:
  assumes "web_ok st" "encoder_ok enc"
  shows "\<exists>out db r recv. map js_view out = map point_view (filter sendable (ws_points st)) \<and>
    enc \<lparr>ja_points = out @ replicate (47 - length out) point_js_zero, ja_len = length out\<rparr> (ws_recv st) 2048 =
      Some (r, recv) \<and>
    v1_get_points enc st = Some (st\<lparr>ws_recv := recv, ws_rows := db\<rparr>) \<and> web_ok (st\<lparr>ws_recv := recv, ws_rows := db\<rparr>)"
proof -
  have w: "\<forall>q\<in>set (ws_points st). point_wf q" "length (ws_points st) = 40" "rows_ok (ws_rows st)"
    "\<forall>q\<in>set (ws_points st). sendable q \<longrightarrow> printable q" "length (ws_recv st) = 2048" "terminated (ws_recv st)"
    using assms(1) by (simp_all add: web_ok_def array_ok_def array_wf_def)
  have "\<exists>out db. rows_ok db \<and> map js_view out = map point_view (filter sendable (take (nat (int 40)) (ws_points st))) \<and>
    (\<forall>js\<in>set out. js_ok js \<and> js_complete js) \<and>
    points_json_encode enc (ws_points st) (int 40) (ws_recv st) 2048 (ws_rows st) =
      map_option (\<lambda>(ret, buf). (ret, buf, db))
        (enc \<lparr>ja_points = out @ replicate (47 - length out) point_js_zero, ja_len = length out\<rparr> (ws_recv st) 2048)"
    by (rule points_json_encode_spec) (use w in \<open>auto dest: in_set_takeD\<close>)
  then obtain out db where o: "rows_ok db" "map js_view out = map point_view (filter sendable (ws_points st))"
    "points_json_encode enc (ws_points st) 40 (ws_recv st) 2048 (ws_rows st) =
      map_option (\<lambda>(ret, buf). (ret, buf, db))
        (enc \<lparr>ja_points = out @ replicate (47 - length out) point_js_zero, ja_len = length out\<rparr> (ws_recv st) 2048)"
    using w(2) by auto
  obtain r recv where e: "enc \<lparr>ja_points = out @ replicate (47 - length out) point_js_zero, ja_len = length out\<rparr>
      (ws_recv st) 2048 = Some (r, recv)" "length recv = 2048" "terminated recv"
    using assms(2) w(5,6) unfolding encoder_ok_def by metis
  have "v1_get_points enc st = Some (st\<lparr>ws_recv := recv, ws_rows := db\<rparr>)"
    using o(3) e(1) w(2) by (simp add: v1_get_points_def)
  then show ?thesis using o e assms(1) by (intro exI[of _ out] exI[of _ db] exI[of _ r] exI[of _ recv])
      (simp add: web_ok_def)
qed

subsection \<open>Lemmas: requests and messages\<close>

datatype web_event =
  Web_request http_request
| Web_message bool point

definition request_ok :: "arr_parser \<Rightarrow> http_request \<Rightarrow> web_state \<Rightarrow> bool" where
  \<comment> \<open>the URL is a C string, the data is as long as it says, and a body that this request
    completes for the points resource is one the handler copes with\<close>
  "request_ok arr_parse rq st = (terminated (rq_url rq) \<and> rq_data_len rq \<le> length (rq_data rq) \<and>
     (rq_status rq = HTTP_SERVER_REQUEST_DATA_FINAL \<longrightarrow> cstr (rq_url rq) = ''/v1/points'' \<longrightarrow>
      rq_method rq \<noteq> HTTP_GET \<longrightarrow>
       (case v1_store_chunk rq st of Some (False, st') \<Rightarrow> body_ok arr_parse (ws_payload st') (ws_cursor st')
        | _ \<Rightarrow> True)))"

definition web_handle ::
  "arr_encoder \<Rightarrow> arr_parser \<Rightarrow> bytes \<Rightarrow> web_event \<Rightarrow> web_state \<Rightarrow> (web_state \<times> point list) option" where
  \<comment> \<open>the state and the points published\<close>
  "web_handle enc arr_parse board e st = (case e of
     Web_request rq \<Rightarrow> map_option (\<lambda>(r, st, resp, pub). (st, pub)) (v1_handler enc arr_parse board rq st)
   | Web_message on p \<Rightarrow> map_option (\<lambda>st. (st, [])) (web_step st on p))"

definition web_event_ok :: "arr_parser \<Rightarrow> web_event \<Rightarrow> web_state \<Rightarrow> bool" where
  "web_event_ok arr_parse e st = (case e of
     Web_request rq \<Rightarrow> request_ok arr_parse rq st
   | Web_message on p \<Rightarrow> point_wf p \<and> (\<not> bad_data_type p \<longrightarrow> printable p))"

inductive web_reach :: "arr_encoder \<Rightarrow> arr_parser \<Rightarrow> bytes \<Rightarrow> web_state \<Rightarrow> point list \<Rightarrow> bool"
  for enc arr_parse board where
  start: "web_reach enc arr_parse board web_init []"
| step: "web_reach enc arr_parse board st out \<Longrightarrow> web_event_ok arr_parse e st \<Longrightarrow>
    web_handle enc arr_parse board e st = Some (st', pub) \<Longrightarrow>
    web_reach enc arr_parse board st' (out @ pub)"

lemma web_step_spec:
  assumes "web_ok st" "point_wf p" "\<not> bad_data_type p \<Longrightarrow> printable p"
  shows "\<exists>st' r. web_step st on p = Some st' \<and> web_ok st' \<and>
    (if on then web_insert st p = Some (r, st') else st' = st)"
proof (cases on)
  case False
  then show ?thesis using assms(1) by (simp add: web_step_def)
next
  case True
  have a: "array_ok (ws_points st)" using assms(1) by (simp add: web_ok_def)
  obtain web' rs where "v1_post_loop (ws_points st) ([p] @ []) (length [p]) = Some (web', map normal_key [p])"
    "array_ok web'" "length web' = length (ws_points st)" "set web' \<subseteq> set (ws_points st) \<union> set (map normal_key [p])"
    using v1_post_loop_feed[OF a, of "[p]" "[]"] assms(2) by auto
  moreover from this obtain r where "points_merge (ws_points st) p = Some (r, web', normal_key p)"
    by (auto split: Option.bind_splits)
  ultimately show ?thesis using True assms(1,3)
    by (auto simp: web_step_def web_insert_def web_ok_def sendable_def)
qed

lemma v1_reply_ok:
  \<comment> \<open>a reply, and the points it merges and publishes\<close>
  assumes "web_ok st" "encoder_ok enc" "terminated board" "length (cstr board) < 2048" "terminated (rq_url rq)"
    and body: "cstr (rq_url rq) = ''/v1/points'' \<Longrightarrow> rq_method rq \<noteq> HTTP_GET \<Longrightarrow>
      body_ok arr_parse (ws_payload st) (ws_cursor st)"
  shows "\<exists>st' pts rs. v1_reply enc arr_parse board rq st = Some (st', map normal_key pts) \<and> web_ok st' \<and>
    feed points_insert (ws_points st) pts = Some (rs, ws_points st') \<and>
    (\<forall>p\<in>set pts. point_wf p \<and> text_wf p \<and> (\<not> bad_data_type p \<longrightarrow> printable p))"
proof -
  consider (other) "cstr (rq_url rq) \<noteq> ''/v1/points''"
    | (get) "cstr (rq_url rq) = ''/v1/points''" "rq_method rq = HTTP_GET"
    | (post) "cstr (rq_url rq) = ''/v1/points''" "rq_method rq \<noteq> HTTP_GET" by blast
  then show ?thesis
  proof cases
    case other
    define st' where "st' = st\<lparr>ws_recv := cstr board @ NUL # drop (Suc (length (cstr board))) (ws_recv st)\<rparr>"
    have "web_ok st'" using assms(1,4) by (simp add: st'_def web_ok_def terminated_def)
    moreover have "v1_reply enc arr_parse board rq st = Some (st', [])"
      using other assms(1,3-5) c_strcpy_some[OF assms(3), of "ws_recv st"]
      by (simp add: v1_reply_def c_streq_eq web_ok_def st'_def)
    ultimately show ?thesis by (intro exI[of _ st'] exI[of _ "[]"]) (simp add: st'_def)
  next
    case get
    obtain recv db where "v1_get_points enc st = Some (st\<lparr>ws_recv := recv, ws_rows := db\<rparr>)"
      "web_ok (st\<lparr>ws_recv := recv, ws_rows := db\<rparr>)"
      using v1_get_points_spec[OF assms(1,2)] by blast
    then show ?thesis using get assms(5)
      by (intro exI[of _ "st\<lparr>ws_recv := recv, ws_rows := db\<rparr>"] exI[of _ "[]"]) (simp add: v1_reply_def c_streq_eq)
  next
    case post
    note b = body[OF post]
    define pts where "pts = posted arr_parse ((ws_payload st)[ws_cursor st := NUL]) (ws_cursor st)"
    have ps: "\<forall>p\<in>set pts. point_wf p \<and> text_wf p \<and> (\<not> bad_data_type p \<longrightarrow> printable p)"
      using posted_spec b by (auto simp: body_ok_def pts_def)
    obtain web' recv rs where v: "v1_post_points arr_parse st =
        Some (st\<lparr>ws_points := web', ws_recv := V1_DONE @ NUL # recv,
          ws_payload := (ws_payload st)[ws_cursor st := NUL]\<rparr>, map normal_key pts)"
      "feed points_insert (ws_points st) pts = Some (rs, web')" "array_ok web'" "length web' = 40"
      "\<forall>q\<in>set web'. sendable q \<longrightarrow> printable q" "length (V1_DONE @ NUL # recv) = 2048"
      using v1_post_points_spec[OF assms(1) b pts_def] by blast
    have "web_ok (st\<lparr>ws_points := web', ws_recv := V1_DONE @ NUL # recv, ws_payload := (ws_payload st)[ws_cursor st := NUL]\<rparr>)"
      using v(3-6) assms(1) by (simp add: web_ok_def terminated_def)
    moreover have "v1_reply enc arr_parse board rq st = v1_post_points arr_parse st"
      using post assms(5) by (simp add: v1_reply_def c_streq_eq)
    ultimately show ?thesis using v(1,2) ps by (intro exI[of _ "_ :: web_state"] exI[of _ pts]) auto
  qed
qed

lemma v1_store_chunk_ok:
  assumes "web_ok st" "rq_data_len rq \<le> length (rq_data rq)"
  shows "\<exists>full st'. v1_store_chunk rq st = Some (full, st') \<and> web_ok st' \<and> web_ok (st'\<lparr>ws_cursor := 0\<rparr>) \<and>
    ws_points st' = ws_points st \<and> (full \<longrightarrow> ws_cursor st' = 0)"
  using assms by (auto simp: v1_store_chunk_spec web_ok_def)

lemma v1_handler_ok:
  assumes "web_ok st" "encoder_ok enc" "request_ok arr_parse rq st" "terminated board" "length (cstr board) < 2048"
  shows "\<exists>r st' resp pts rs. v1_handler enc arr_parse board rq st = Some (r, st', resp, map normal_key pts) \<and> web_ok st' \<and>
    (rq_status rq \<noteq> HTTP_SERVER_REQUEST_DATA_MORE \<longrightarrow> ws_cursor st' = 0) \<and>
    feed points_insert (ws_points st) pts = Some (rs, ws_points st') \<and>
    (\<forall>p\<in>set pts. point_wf p \<and> text_wf p \<and> (\<not> bad_data_type p \<longrightarrow> printable p))"
proof -
  have rq: "rq_data_len rq \<le> length (rq_data rq)" "terminated (rq_url rq)"
    using assms(3) by (simp_all add: request_ok_def)
  obtain full st1 where s1: "v1_store_chunk rq st = Some (full, st1)"
    and ok1: "web_ok st1" "web_ok (st1\<lparr>ws_cursor := 0\<rparr>)" "ws_points st1 = ws_points st" "full \<longrightarrow> ws_cursor st1 = 0"
    using v1_store_chunk_ok[OF assms(1) rq(1)] by blast
  show ?thesis
  proof (cases "full \<or> rq_status rq \<noteq> HTTP_SERVER_REQUEST_DATA_FINAL")
    case True
    then obtain r st2 where "v1_handler enc arr_parse board rq st = Some (r, st2, None, [])"
      "st2 = st1 \<or> st2 = st1\<lparr>ws_cursor := 0\<rparr>" "rq_status rq \<noteq> HTTP_SERVER_REQUEST_DATA_MORE \<longrightarrow> ws_cursor st2 = 0"
      using s1 ok1(4) by (cases "rq_status rq"; cases full) (simp_all add: v1_handler_def)
    then show ?thesis using ok1 by (intro exI[of _ r] exI[of _ st2] exI[of _ None] exI[of _ "[]"]) auto
  next
    case False
    then have fin: "\<not> full" "rq_status rq = HTTP_SERVER_REQUEST_DATA_FINAL" by simp_all
    have "body_ok arr_parse (ws_payload st1) (ws_cursor st1)"
      if "cstr (rq_url rq) = ''/v1/points''" "rq_method rq \<noteq> HTTP_GET"
      using assms(3) that fin s1 by (simp add: request_ok_def)
    from v1_reply_ok[OF ok1(1) assms(2,4,5) rq(2) this] obtain st2 pts rs where
      r: "v1_reply enc arr_parse board rq st1 = Some (st2, map normal_key pts)" "web_ok st2"
      "feed points_insert (ws_points st1) pts = Some (rs, ws_points st2)"
      "\<forall>p\<in>set pts. point_wf p \<and> text_wf p \<and> (\<not> bad_data_type p \<longrightarrow> printable p)" by blast
    obtain n where n: "c_strlen (ws_recv st2) = Some n" using r(2) by (simp add: web_ok_def c_strlen_eq)
    have "v1_handler enc arr_parse board rq st = Some (0, st2\<lparr>ws_cursor := 0\<rparr>,
        Some \<lparr>resp_body = ws_recv st2, resp_body_len = n, resp_final_chunk = True\<rparr>, map normal_key pts)"
      using s1 fin r(1) n by (simp add: v1_handler_def)
    moreover have "web_ok (st2\<lparr>ws_cursor := 0\<rparr>)" using r(2) by (simp add: web_ok_def)
    ultimately show ?thesis using r(3,4) ok1(3) by auto
  qed
qed

subsection \<open>Lemmas: a POST, as the rest of the system sees it\<close>

definition posts :: "arr_parser \<Rightarrow> http_request \<Rightarrow> web_state \<Rightarrow> point list \<Rightarrow> bool" where
  \<comment> \<open>the request completes a body for the points resource that decodes to \<open>pts\<close>\<close>
  "posts arr_parse rq st pts = (rq_method rq = HTTP_POST \<and> terminated (rq_url rq) \<and>
     cstr (rq_url rq) = ''/v1/points'' \<and> rq_status rq = HTTP_SERVER_REQUEST_DATA_FINAL \<and>
     rq_data_len rq \<le> length (rq_data rq) \<and>
     (\<exists>st1. v1_store_chunk rq st = Some (False, st1) \<and> body_ok arr_parse (ws_payload st1) (ws_cursor st1) \<and>
       pts = posted arr_parse ((ws_payload st1)[ws_cursor st1 := NUL]) (ws_cursor st1)))"

lemma posts_published:
  assumes "web_ok st" "posts arr_parse rq st pts"
  shows "\<exists>st' resp. v1_handler enc arr_parse board rq st = Some (0, st', Some resp, map normal_key pts) \<and> web_ok st'"
    and "\<forall>p\<in>set pts. point_wf p \<and> text_wf p"
proof -
  obtain st1 where s1: "v1_store_chunk rq st = Some (False, st1)"
    and b: "body_ok arr_parse (ws_payload st1) (ws_cursor st1)"
    and pts: "pts = posted arr_parse ((ws_payload st1)[ws_cursor st1 := NUL]) (ws_cursor st1)"
    using assms(2) by (auto simp: posts_def)
  have w: "length (ws_payload st) = 256" using assms(1) by (simp add: web_ok_def)
  have ok1: "web_ok st1" using s1 assms w by (auto simp: v1_store_chunk_spec posts_def web_ok_def split: if_splits)
  show "\<forall>p\<in>set pts. point_wf p \<and> text_wf p" using b posted_spec by (auto simp: body_ok_def pts)
  obtain web' recv where v: "v1_post_points arr_parse st1 = Some (st1\<lparr>ws_points := web', ws_recv := V1_DONE @ NUL # recv,
        ws_payload := (ws_payload st1)[ws_cursor st1 := NUL]\<rparr>, map normal_key pts)"
    "array_ok web'" "length web' = 40" "\<forall>q\<in>set web'. sendable q \<longrightarrow> printable q" "length (V1_DONE @ NUL # recv) = 2048"
    using v1_post_points_spec[OF ok1 b pts] by blast
  define st2 where "st2 = st1\<lparr>ws_points := web', ws_recv := V1_DONE @ NUL # recv,
        ws_payload := (ws_payload st1)[ws_cursor st1 := NUL]\<rparr>"
  have ok2: "web_ok (st2\<lparr>ws_cursor := 0\<rparr>)"
    using v(2-5) ok1 by (simp add: web_ok_def terminated_def st2_def)
  have "v1_reply enc arr_parse board rq st1 = Some (st2, map normal_key pts)"
    using assms(2) v(1) by (simp add: v1_reply_def c_streq_eq posts_def st2_def)
  moreover have "c_strlen (ws_recv st2) \<noteq> None" by (simp add: c_strlen_eq terminated_def st2_def)
  ultimately show "\<exists>st' resp. v1_handler enc arr_parse board rq st = Some (0, st', Some resp, map normal_key pts) \<and> web_ok st'"
    using s1 ok2 assms(2) by (auto simp: v1_handler_def posts_def)
qed

subsection \<open>Lemmas: bodies in chunks\<close>

abbreviation chunk :: "http_request \<Rightarrow> http_status \<Rightarrow> bytes \<Rightarrow> http_request" where
  "chunk rq s d \<equiv> rq\<lparr>rq_status := s, rq_data := d, rq_data_len := length d\<rparr>"

fun v1_body :: "arr_encoder \<Rightarrow> arr_parser \<Rightarrow> bytes \<Rightarrow> http_request \<Rightarrow> bytes list \<Rightarrow> web_state \<Rightarrow> web_state option"
where
  \<comment> \<open>the calls for all chunks of a body but the last\<close>
  "v1_body enc arr_parse board rq [] st = Some st"
| "v1_body enc arr_parse board rq (d # ds) st = do {
     (ret, st, resp, pub) \<leftarrow> v1_handler enc arr_parse board (chunk rq HTTP_SERVER_REQUEST_DATA_MORE d) st;
     v1_body enc arr_parse board rq ds st
   }"

lemma v1_store_chunk_append:
  assumes "length (ws_payload st) = 256" "rq_method rq = HTTP_POST" "ws_cursor st + length d + length e \<le> 256"
  shows "\<exists>st1. v1_store_chunk (chunk rq s d) st = Some (False, st1) \<and>
    v1_store_chunk (chunk rq s' e) st1 = v1_store_chunk (chunk rq s' (d @ e)) st \<and>
    length (ws_payload st1) = 256 \<and> ws_cursor st1 = ws_cursor st + length d"
proof -
  define st1 where "st1 = st\<lparr>ws_payload := take (ws_cursor st) (ws_payload st) @ d @
    drop (ws_cursor st + length d) (ws_payload st), ws_cursor := ws_cursor st + length d\<rparr>"
  have l: "length (ws_payload st1) = 256" "ws_cursor st1 = ws_cursor st + length d"
    using assms by (simp_all add: st1_def)
  have "v1_store_chunk (chunk rq s d) st = Some (False, st1)"
    using assms by (simp add: v1_store_chunk_spec st1_def)
  moreover have "take (ws_cursor st1) (ws_payload st1) = take (ws_cursor st) (ws_payload st) @ d"
    "drop (ws_cursor st1 + length e) (ws_payload st1) = drop (ws_cursor st + length d + length e) (ws_payload st)"
    using assms by (simp_all add: st1_def ac_simps)
  then have "v1_store_chunk (chunk rq s' e) st1 = v1_store_chunk (chunk rq s' (d @ e)) st"
    using assms by (simp add: v1_store_chunk_spec[OF l(1)] v1_store_chunk_spec[OF assms(1)] l(2))
      (simp add: st1_def add.assoc)
  ultimately show ?thesis using l by simp
qed

lemma v1_handler_final:
  "v1_handler enc arr_parse board (chunk rq HTTP_SERVER_REQUEST_DATA_FINAL d) st =
    Option.bind (v1_store_chunk (chunk rq HTTP_SERVER_REQUEST_DATA_FINAL d) st) (\<lambda>(full, st).
      if full then Some (- ENOMEM, st, None, [])
      else do {
        (st, pub) \<leftarrow> v1_reply enc arr_parse board rq st;
        n \<leftarrow> c_strlen (ws_recv st);
        Some (0, st\<lparr>ws_cursor := 0\<rparr>,
          Some \<lparr>resp_body = ws_recv st, resp_body_len = n, resp_final_chunk = True\<rparr>, pub)
      })"
  by (simp add: v1_handler_def v1_reply_def cong: if_cong)

lemma v1_body_final:
  assumes "length (ws_payload st) = 256" "rq_method rq = HTTP_POST"
    and "ws_cursor st + length (concat ds) + length d \<le> 256"
  shows "Option.bind (v1_body enc arr_parse board rq ds st)
      (v1_handler enc arr_parse board (chunk rq HTTP_SERVER_REQUEST_DATA_FINAL d)) =
    v1_handler enc arr_parse board (chunk rq HTTP_SERVER_REQUEST_DATA_FINAL (concat ds @ d)) st"
  using assms
proof (induction ds arbitrary: st)
  case Nil
  then show ?case by simp
next
  case (Cons c ds)
  have le: "ws_cursor st + length c + length (concat ds @ d) \<le> 256" using Cons.prems(3) by simp
  obtain st1 where 1: "v1_store_chunk (chunk rq HTTP_SERVER_REQUEST_DATA_MORE c) st = Some (False, st1)"
    "v1_store_chunk (chunk rq HTTP_SERVER_REQUEST_DATA_FINAL (concat ds @ d)) st1 =
      v1_store_chunk (chunk rq HTTP_SERVER_REQUEST_DATA_FINAL (c @ concat ds @ d)) st"
    "length (ws_payload st1) = 256" "ws_cursor st1 = ws_cursor st + length c"
    using v1_store_chunk_append[OF Cons.prems(1,2) le] by blast
  have "v1_handler enc arr_parse board (chunk rq HTTP_SERVER_REQUEST_DATA_MORE c) st = Some (0, st1, None, [])"
    using 1(1) by (simp add: v1_handler_def)
  moreover have "Option.bind (v1_body enc arr_parse board rq ds st1)
      (v1_handler enc arr_parse board (chunk rq HTTP_SERVER_REQUEST_DATA_FINAL d)) =
    v1_handler enc arr_parse board (chunk rq HTTP_SERVER_REQUEST_DATA_FINAL (concat ds @ d)) st1"
    using Cons.IH[OF 1(3) Cons.prems(2)] Cons.prems(3) 1(4) by simp
  moreover have "v1_handler enc arr_parse board (chunk rq HTTP_SERVER_REQUEST_DATA_FINAL (concat ds @ d)) st1 =
      v1_handler enc arr_parse board (chunk rq HTTP_SERVER_REQUEST_DATA_FINAL (c @ concat ds @ d)) st"
    by (simp only: v1_handler_final 1(2))
  ultimately show ?case by simp
qed

subsection \<open>The web server's store of points\<close>

definition web_store_ok :: "web_state \<Rightarrow> bool" where
  "web_store_ok st = (array_ok (ws_points st) \<and> length (ws_points st) = 40)"

interpretation web_store: point_store web_insert web_view web_store_ok
proof unfold_locales
  fix s p assume s: "web_store_ok s" "point_wf p"
  then show "\<exists>r s'. web_insert s p = Some (r, s') \<and> web_store_ok s' \<and> (r = 0 \<or> r = - ENOMEM)"
    using arr.ins_total[of "ws_points s" p] merge_spec_correct(3)[of "ws_points s" "normal_key p"]
      points_merge_spec[of "ws_points s" p] normal_key_wf
    by (auto simp: web_insert_def web_store_ok_def points_insert_def array_ok_def array_wf_def split: prod.splits)
next
  fix s p s' assume "web_store_ok s" "point_wf p" "web_insert s p = Some (0, s')"
  then show "web_view s' = map_merge (web_view s) (normal_key p)"
    using arr.ins_view[of "ws_points s" p]
    by (auto simp: web_insert_def web_store_ok_def points_insert_def web_view_def)
next
  fix s p r s' assume "web_store_ok s" "point_wf p" "web_insert s p = Some (r, s')" "r \<noteq> 0"
  then show "s' = s"
    using arr.ins_full[of "ws_points s" p r]
    by (auto simp: web_insert_def web_store_ok_def points_insert_def)
qed

lemma feed_web_insert:
  "feed points_insert (ws_points st) pts = Some (rs, web') \<Longrightarrow>
    feed web_insert st pts = Some (rs, st\<lparr>ws_points := web'\<rparr>)"
proof (induction pts arbitrary: st rs)
  case (Cons p pts)
  then obtain r web1 rs1 where 1: "points_insert (ws_points st) p = Some (r, web1)"
    "feed points_insert web1 pts = Some (rs1, web')" "rs = r # rs1"
    by (auto split: Option.bind_splits)
  then have "web_insert st p = Some (r, st\<lparr>ws_points := web1\<rparr>)"
    by (auto simp: points_insert_def web_insert_def)
  then show ?case using Cons.IH[of "st\<lparr>ws_points := web1\<rparr>"] 1 by simp
qed simp

lemma web_thread_feed:
  assumes "web_ok st" "\<forall>(on, p)\<in>set msgs. web_event_ok arr_parse (Web_message on p) st"
  shows "\<exists>st' rs. web_thread st msgs = Some st' \<and> web_ok st' \<and>
    feed web_insert st (map snd (filter fst msgs)) = Some (rs, st')"
  using assms
proof (induction msgs arbitrary: st)
  case (Cons m msgs)
  obtain on p where m: "m = (on, p)" by (cases m)
  have p: "point_wf p" "\<not> bad_data_type p \<Longrightarrow> printable p"
    using Cons.prems(2) m by (simp_all add: web_event_ok_def)
  obtain st1 r where 1: "web_step st on p = Some st1" "web_ok st1"
    "if on then web_insert st p = Some (r, st1) else st1 = st"
    using web_step_spec[OF Cons.prems(1) p] by blast
  obtain st2 rs where "web_thread st1 msgs = Some st2" "web_ok st2"
    "feed web_insert st1 (map snd (filter fst msgs)) = Some (rs, st2)"
    using Cons.IH[OF 1(2)] Cons.prems(2) by (auto simp: web_event_ok_def)
  then show ?case using 1 m by (cases on) auto
qed simp

subsection \<open>Properties\<close>


text \<open>
  C28: How the server splits a body makes no difference: the calls for any chunks of a POST followed by
  the final one give the same result, state, response and published points as one call with the
  whole body, as long as it fits the payload buffer.
\<close>

theorem v1_chunks_equivalent:
  assumes "length (ws_payload st) = 256" "rq_method rq = HTTP_POST"
    and "ws_cursor st + length (concat ds) + length d \<le> 256"
  shows "Option.bind (v1_body enc arr_parse board rq ds st)
      (v1_handler enc arr_parse board (chunk rq HTTP_SERVER_REQUEST_DATA_FINAL d)) =
    v1_handler enc arr_parse board (chunk rq HTTP_SERVER_REQUEST_DATA_FINAL (concat ds @ d)) st"
  by (rule v1_body_final[OF assms])

definition sample_request :: "http_method \<Rightarrow> bytes \<Rightarrow> http_request" where
  "sample_request m body = \<lparr>rq_method = m, rq_url = lit ''/v1/points'',
     rq_status = HTTP_SERVER_REQUEST_DATA_FINAL, rq_data = body, rq_data_len = length body\<rparr>"

definition null_encoder :: arr_encoder where
  \<comment> \<open>an encoder that writes the empty array\<close>
  "null_encoder a buf n = (if 3 \<le> length buf then Some (0, ''[]'' @ NUL # drop 3 buf) else Some (- ENOMEM, buf))"

lemma null_encoder_ok: "encoder_ok null_encoder"
  by (auto simp: encoder_ok_def null_encoder_def terminated_def)

definition named_parser :: "string \<Rightarrow> arr_parser" where
  \<comment> \<open>a parser that reports one int point of the given type\<close>
  "named_parser t json n arr = (0, arr\<lparr>ja_points :=
     (ja_points arr)[0 := (sample_mirror (Ptr (lit ''INT'')))\<lparr>js_t := Ptr (lit t)\<rparr>], ja_len := 1\<rparr>)"

lemma sample_parser_named: "sample_parser (Ptr (lit ''INT'')) = named_parser ''uptime''"
  by (simp add: fun_eq_iff sample_parser_def named_parser_def sample_mirror_def)

lemma named_parser_posted:
  assumes "NUL \<notin> set t"
  shows "parsed_ok (named_parser t) json n" "posted (named_parser t) json n = [sample_point t ''0'' 42]"
proof -
  define js where "js = (sample_mirror (Ptr (lit ''INT'')))\<lparr>js_t := Ptr (lit t)\<rparr>"
  have js: "js_ok js" "js_complete js"
    by (simp_all add: js_def sample_mirror_def js_ok_def str_ptr_def lit_def terminated_def js_complete_def)
  have v: "cptr_str (js_t js) = t" "cptr_str (js_k js) = ''0''" "cptr_str (js_dt js) = ''INT''"
    "number_text js = lit ''42''"
    using assms by (simp_all add: js_def sample_mirror_def cptr_str_def number_text_def js_token_def lit_def)
  have "atoi (lit ''42'') = Some 42"
    by code_simp
  then have d: "point_js_to_point js point_zero = Some (0, sample_point t ''0'' 42)"
    unfolding point_js_to_point_spec[OF js(1) point_zero_wf(1)]
    using js(2) by (simp add: js_decoded_def v Let_def sample_point_def)
      (simp add: point_put_int_def point_zero_def)
  have p: "named_parser t json n \<lparr>ja_points = replicate 47 point_js_uninit, ja_len = 0\<rparr> =
    (0, \<lparr>ja_points = js # replicate 46 point_js_uninit, ja_len = 1\<rparr>)"
    by (simp add: named_parser_def numeral_eq_Suc js_def)
  show "parsed_ok (named_parser t) json n" using p d js(1) by (simp add: parsed_ok_def)
  show "posted (named_parser t) json n = [sample_point t ''0'' 42]" using p d by (simp add: posted_def)
qed

lemma named_body_ok:
  assumes "NUL \<notin> set t" "length t \<le> 23" "n < 256"
  shows "body_ok (named_parser t) payload n"
proof -
  have "point_type (sample_point t ''0'' 42) = t" "point_key (sample_point t ''0'' 42) = ''0''"
    using assms by (simp_all add: sample_point_def point_put_int_def point_type_def point_key_def field_of_cstr)
  moreover from this have "slot_free (sample_point t ''0'' 42) \<longleftrightarrow> t = []" by (simp add: slot_free_def)
  moreover have "dump_value (sample_point t ''0'' 42) = Some (''INT: '' @ dec_int 42)"
    by (simp add: dump_value_def INT_MIN_def INT_MAX_def)
  moreover have "length (dec_int 42) = 2" by code_simp
  ultimately show ?thesis using assms
    by (simp add: body_ok_def named_parser_posted printable_def dump_line_def dump_sep_def INT_MIN_def INT_MAX_def)
qed

lemmas sample_parser_posted = named_parser_posted[of "''uptime''", folded sample_parser_named, simplified]

lemma sample_body_ok: "n < 256 \<Longrightarrow> body_ok (sample_parser (Ptr (lit ''INT''))) payload n"
  by (simp add: sample_parser_named named_body_ok)

definition long_point :: point where
  "long_point = (sample_point (replicate 23 (CHR ''t'')) (replicate 22 (CHR ''k'')) 0)
     \<lparr>p_data_type := POINT_DATA_TYPE_STRING, p_data := field_of 20 (replicate 19 (CHR ''d''))\<rparr>"

lemma long_points_overflow: "points_dump [long_point, long_point] (replicate 128 NUL) 128 = None"
proof -
  have p: "point_wf long_point" "\<not> slot_free long_point" "length (point_type long_point) = 23"
    "length (dump_sep long_point) = 25" "dump_value long_point = Some (''STR: '' @ replicate 19 (CHR ''d''))"
    by (simp_all add: long_point_def sample_point_def point_put_int_def point_zero_def point_wf_def slot_free_def
      point_type_def point_key_def dump_sep_def dump_value_def field_of_cstr word_bytes_def)
  show ?thesis
    using points_dump_overflow[OF p(1,2,5) p(1,2,5) refl, of "replicate 128 NUL"] p
    by (simp add: dump_line_def)
qed

text \<open>
  C29: A POST to the points resource publishes exactly the points its body decodes to, in order and
  with an empty key normalised, merges each into the web server's points, and answers with the
  same reply whether or not the body could be decoded: the decoding error is overwritten.
\<close>

theorem v1_post_publishes:
  assumes "web_ok st" "rq_method rq = HTTP_POST" "terminated (rq_url rq)" "cstr (rq_url rq) = ''/v1/points''"
    and "rq_status rq = HTTP_SERVER_REQUEST_DATA_FINAL" "rq_data_len rq \<le> length (rq_data rq)"
    and "n = ws_cursor st + rq_data_len rq"
    and "body = take (ws_cursor st) (ws_payload st) @ take (rq_data_len rq) (rq_data rq) @ drop n (ws_payload st)"
    and "body_ok arr_parse body n" "pts = posted arr_parse (body[n := NUL]) n"
  shows "\<exists>st' rest (rs :: int list). v1_handler enc arr_parse board rq st = Some (0, st',
      Some \<lparr>resp_body = ''{\"error\":\"\"}'' @ NUL # rest, resp_body_len = 12, resp_final_chunk = True\<rparr>,
      map normal_key pts) \<and>
    web_ok st' \<and> ws_cursor st' = 0 \<and>
    feed web_insert st pts = Some (rs, st\<lparr>ws_points := ws_points st'\<rparr>) \<and>
    (\<forall>k. web_view st' k =
      (case find (\<lambda>p. point_name p = k) (rev (map (\<lambda>x. normal_key (snd x)) (filter (\<lambda>x. fst x = 0) (zip rs pts)))) of
         Some p \<Rightarrow> (if slot_valid p then Some p else None) | None \<Rightarrow> web_view st k))"
proof -
  have w: "length (ws_payload st) = 256" "n < 256" using assms(1,9) by (simp_all add: web_ok_def body_ok_def)
  define st1 where "st1 = st\<lparr>ws_payload := body, ws_cursor := n\<rparr>"
  have s1: "v1_store_chunk rq st = Some (False, st1)"
    using w assms(2,6,7) by (simp add: v1_store_chunk_spec st1_def assms(8))
  have "length body = 256" using w assms(6,7) by (simp add: assms(8))
  moreover from this have ok1: "web_ok st1" using assms(1) w(2) by (simp add: web_ok_def st1_def)
  have f1: "ws_payload st1 = body" "ws_cursor st1 = n" "ws_points st1 = ws_points st" by (simp_all add: st1_def)
  obtain web' recv rs where v: "v1_post_points arr_parse st1 =
      Some (st1\<lparr>ws_points := web', ws_recv := V1_DONE @ NUL # recv, ws_payload := body[n := NUL]\<rparr>, map normal_key pts)"
    "feed points_insert (ws_points st) pts = Some (rs, web')" "array_ok web'" "length web' = 40"
    "\<forall>q\<in>set web'. sendable q \<longrightarrow> printable q" "length (V1_DONE @ NUL # recv) = 2048"
    using v1_post_points_spec[OF ok1, of arr_parse, unfolded f1, OF assms(9,10)] by blast
  define st2 where "st2 = st1\<lparr>ws_points := web', ws_recv := V1_DONE @ NUL # recv, ws_payload := body[n := NUL]\<rparr>"
  have ok2: "web_ok (st2\<lparr>ws_cursor := 0\<rparr>)"
    using ok1 v(3-6) calculation by (simp add: st2_def web_ok_def terminated_def)
  have "v1_reply enc arr_parse board rq st1 = Some (st2, map normal_key pts)"
    using assms(2-4) v(1) by (simp add: v1_reply_def c_streq_eq st2_def)
  moreover have "c_strlen (ws_recv st2) = Some 12"
    by (simp add: st2_def c_strlen_eq terminated_def) (simp add: V1_DONE_def)
  ultimately have h: "v1_handler enc arr_parse board rq st = Some (0, st2\<lparr>ws_cursor := 0\<rparr>,
      Some \<lparr>resp_body = ''{\"error\":\"\"}'' @ NUL # recv, resp_body_len = 12, resp_final_chunk = True\<rparr>, map normal_key pts)"
    using s1 assms(5) by (simp add: v1_handler_def) (simp add: st2_def V1_DONE_def)
  have "web_store_ok st" "\<forall>p\<in>set pts. point_wf p"
    using assms(1,9,10) posted_spec by (auto simp: web_ok_def web_store_ok_def body_ok_def)
  from web_store.feed_view[OF this feed_web_insert[OF v(2)]]
  have "web_view (st2\<lparr>ws_cursor := 0\<rparr>) = foldl map_merge (web_view st)
      (map (\<lambda>x. normal_key (snd x)) (filter (\<lambda>x. fst x = 0) (zip rs pts)))"
    by (simp add: web_view_def st2_def)
  moreover have "ws_points (st2\<lparr>ws_cursor := 0\<rparr>) = web'" by (simp add: st2_def)
  ultimately show ?thesis using h ok2 feed_web_insert[OF v(2)]
    by (intro exI[of _ "st2\<lparr>ws_cursor := 0\<rparr>"] exI[of _ recv] exI[of _ rs]) (simp add: foldl_map_merge)
qed

text \<open>
  C36: A body of exactly 256 bytes passes the size check, which leaves no room for the terminator: the
  handler then writes it one past the end of the payload buffer. A larger body is refused with
  \<open>-ENOMEM\<close>, publishes nothing and leaves the handler ready for the next request.
\<close>

theorem v1_body_size:
  assumes "web_ok st" "rq_method rq = HTTP_POST" "terminated (rq_url rq)" "cstr (rq_url rq) = ''/v1/points''"
    and "rq_status rq = HTTP_SERVER_REQUEST_DATA_FINAL" "rq_data_len rq \<le> length (rq_data rq)"
  shows "(ws_cursor st + rq_data_len rq = 256 \<longrightarrow> v1_handler enc arr_parse board rq st = None) \<and>
    (256 < ws_cursor st + rq_data_len rq \<longrightarrow>
      v1_handler enc arr_parse board rq st = Some (- ENOMEM, st\<lparr>ws_cursor := 0\<rparr>, None, []))"
proof -
  have "length (ws_payload st) = 256" using assms(1) by (simp add: web_ok_def)
  then show ?thesis using assms(2-6)
    by (simp add: v1_handler_def v1_store_chunk_spec v1_reply_def c_streq_eq v1_post_points_def wr_def)
qed


theorem v1_chunks_equivalent_witness:
  "Option.bind (v1_body null_encoder (sample_parser Wild) (lit ''board'') (sample_request HTTP_POST []) [''a'', ''b''] web_init)
      (v1_handler null_encoder (sample_parser Wild) (lit ''board'')
        (chunk (sample_request HTTP_POST []) HTTP_SERVER_REQUEST_DATA_FINAL ''c'')) =
    v1_handler null_encoder (sample_parser Wild) (lit ''board'')
      (chunk (sample_request HTTP_POST []) HTTP_SERVER_REQUEST_DATA_FINAL ''abc'') web_init"
  using v1_chunks_equivalent[of web_init "sample_request HTTP_POST []" "[''a'', ''b'']" "''c''"]
  by (simp add: sample_request_def web_init_def)

theorem v1_post_publishes_witness:
  "\<exists>st' resp. v1_handler null_encoder (sample_parser (Ptr (lit ''INT''))) (lit ''board'') (sample_request HTTP_POST ''x'') web_init =
    Some (0, st', Some resp, [normal_key (sample_point ''uptime'' ''0'' 42)])"
proof -
  have "rq_method (sample_request HTTP_POST ''x'') = HTTP_POST" "terminated (rq_url (sample_request HTTP_POST ''x''))"
    "cstr (rq_url (sample_request HTTP_POST ''x'')) = ''/v1/points''"
    "rq_status (sample_request HTTP_POST ''x'') = HTTP_SERVER_REQUEST_DATA_FINAL"
    "rq_data_len (sample_request HTTP_POST ''x'') \<le> length (rq_data (sample_request HTTP_POST ''x''))"
    "1 = ws_cursor web_init + rq_data_len (sample_request HTTP_POST ''x'')"
    by (simp_all add: sample_request_def web_init_def)
  from v1_post_publishes[OF web_init_ok this refl sample_body_ok refl, of null_encoder "lit ''board''"]
  show ?thesis by (auto simp: sample_parser_posted)
qed

theorem v1_body_size_witness:
  "v1_handler null_encoder (sample_parser Wild) [] (sample_request HTTP_POST (replicate 256 (CHR ''x''))) web_init = None \<and>
   v1_handler null_encoder (sample_parser Wild) [] (sample_request HTTP_POST (replicate 257 (CHR ''x''))) web_init =
     Some (- ENOMEM, web_init\<lparr>ws_cursor := 0\<rparr>, None, [])"
  using v1_body_size[OF web_init_ok, of "sample_request HTTP_POST (replicate 256 (CHR ''x''))" null_encoder "sample_parser Wild" "[]"]
    v1_body_size[OF web_init_ok, of "sample_request HTTP_POST (replicate 257 (CHR ''x''))" null_encoder "sample_parser Wild" "[]"]
  by (simp add: sample_request_def web_init_def)

end
