(* ===== verification/Nvs_Store.thy ===== *)
theory Nvs_Store
  imports Point
begin

text \<open>
  lib/nvs.c and include/nvs.h: the points that survive a reset. At boot \<open>nvs_init\<close> checks the flash
  partition, reads every point of the application's table and publishes it; afterwards the
  store thread writes each published point of the table back. The flash file system (ZMS) is a
  parameter: \<open>zread fs id n\<close> is the result of \<open>zms_read\<close> and the bytes it places in the
  buffer, \<open>zwrite fs id data\<close> the result of \<open>zms_write\<close> and the new file system.
\<close>

subsection \<open>State and interface\<close>

record nvs_point =
  np_id :: "16 word"
  np_def :: point_def
  np_key :: bytes

type_synonym 'z zreader = "'z \<Rightarrow> nat \<Rightarrow> nat \<Rightarrow> int \<times> bytes"
type_synonym 'z zwriter = "'z \<Rightarrow> nat \<Rightarrow> bytes \<Rightarrow> int \<times> 'z"

record 'z nvs_state =
  nv_fs :: 'z
  nv_pts :: "nvs_point list"
    \<comment> \<open>\<open>nvs_pts\<close> and \<open>nvs_pts_count\<close>; empty until the end of \<open>nvs_init\<close>\<close>

record flash_env =
  fe_ready :: bool
    \<comment> \<open>\<open>device_is_ready\<close>\<close>
  fe_page_rc :: int
    \<comment> \<open>\<open>flash_get_page_info_by_offs\<close>\<close>
  fe_page_size :: "32 word"
  fe_partition_size :: "32 word"
  fe_mount_rc :: int
    \<comment> \<open>\<open>zms_mount\<close>\<close>

subsection \<open>Lookup and store\<close>

fun point_type_key_to_nvs_id :: "nvs_point list \<Rightarrow> bytes \<Rightarrow> bytes \<Rightarrow> int option" where
  "point_type_key_to_nvs_id [] type key = Some (-1)"
| "point_type_key_to_nvs_id (e # pts) type key = do {
     same_type \<leftarrow> c_streq type (pd_type (np_def e));
     same_key \<leftarrow> (if same_type then c_streq key (np_key e) else Some False);
     if same_key then Some (uint (np_id e)) else point_type_key_to_nvs_id pts type key
   }"

definition nvs_store_handle_point :: "'z zwriter \<Rightarrow> 'z nvs_state \<Rightarrow> point \<Rightarrow> 'z nvs_state option" where
  \<comment> \<open>the result of the write only decides what is logged\<close>
  "nvs_store_handle_point zwrite st p = do {
     nvs_id \<leftarrow> point_type_key_to_nvs_id (nv_pts st) (p_type p) (p_key p);
     if nvs_id < 0 then Some st
     else do {
       len \<leftarrow> point_data_len p;
       (cnt, dump) \<leftarrow> point_dump p (replicate 40 NUL) 0 40;
       data \<leftarrow> (if nat len \<le> length (p_data p) then Some (take (nat len) (p_data p)) else None);
       let (cnt, fs) = zwrite (nv_fs st) (nat nvs_id) data;
       Some (st\<lparr>nv_fs := fs\<rparr>)
     }
   }"

definition nvs_store_step :: "'z zwriter \<Rightarrow> 'z nvs_state \<Rightarrow> bool \<Rightarrow> point \<Rightarrow> 'z nvs_state option" where
  \<comment> \<open>one message of the store thread; the flag says whether it came on \<open>point_chan\<close>\<close>
  "nvs_store_step zwrite st on_point_chan p =
     (if on_point_chan then nvs_store_handle_point zwrite st p else Some st)"

fun nvs_store_thread :: "'z zwriter \<Rightarrow> 'z nvs_state \<Rightarrow> (bool \<times> point) list \<Rightarrow> 'z nvs_state option" where
  "nvs_store_thread zwrite st [] = Some st"
| "nvs_store_thread zwrite st ((on_point_chan, p) # msgs) = do {
     st \<leftarrow> nvs_store_step zwrite st on_point_chan p;
     nvs_store_thread zwrite st msgs
   }"

subsection \<open>Restoring at boot\<close>

definition nvs_read_word :: "'z zreader \<Rightarrow> 'z zwriter \<Rightarrow> 'z \<Rightarrow> nat \<Rightarrow> (32 word \<times> 'z) option" where
  \<comment> \<open>the read of a four byte value into a zeroed variable, written back when it fails\<close>
  "nvs_read_word zread zwrite fs nvs_id = do {
     let (rc, data) = zread fs nvs_id 4;
     buf \<leftarrow> wr_block (word_bytes 0) 0 data;
     Some (bytes_word buf, if rc < 0 then snd (zwrite fs nvs_id buf) else fs)
   }"

definition nvs_restore_int ::
  "'z zreader \<Rightarrow> 'z zwriter \<Rightarrow> nvs_point \<Rightarrow> 'z \<Rightarrow> point \<Rightarrow> ('z \<times> point) option" where
  "nvs_restore_int zread zwrite e fs p = do {
     (w, fs) \<leftarrow> nvs_read_word zread zwrite fs (unat (np_id e));
     let p = point_put_int p (sint w);
     is_boot_count \<leftarrow> c_streq (lit ''bootCount'') (pd_type (np_def e));
     Some (if is_boot_count then snd (zwrite fs (unat (np_id e)) (word_bytes (w + 1))) else fs, p)
   }"

definition nvs_restore_string ::
  "'z zreader \<Rightarrow> 'z zwriter \<Rightarrow> nvs_point \<Rightarrow> 'z \<Rightarrow> point \<Rightarrow> bytes \<Rightarrow> ('z \<times> point \<times> bytes) option" where
  "nvs_restore_string zread zwrite e fs p string_buf = do {
     string_buf \<leftarrow> wr string_buf 0 NUL;
     let (rc, data) = zread fs (unat (np_id e)) DATA_LEN;
     string_buf \<leftarrow> wr_block string_buf 0 data;
     (fs, string_buf) \<leftarrow> (if rc < 0 then Some (snd (zwrite fs (unat (np_id e)) [NUL]), string_buf)
        else do {
          string_buf \<leftarrow> wr string_buf (DATA_LEN - 1) NUL;
          Some (fs, string_buf)
        });
     p \<leftarrow> point_put_string p string_buf;
     Some (fs, p, string_buf)
   }"

definition nvs_restore_value ::
  "'z zreader \<Rightarrow> 'z zwriter \<Rightarrow> nvs_point \<Rightarrow> 'z \<Rightarrow> point \<Rightarrow> bytes \<Rightarrow> (bool \<times> 'z \<times> point \<times> bytes) option" where
  \<comment> \<open>the switch; the flag is False for the default case, which goes on with the next entry\<close>
  "nvs_restore_value zread zwrite e fs p string_buf =
     (if pd_data_type (np_def e) = uint POINT_DATA_TYPE_FLOAT then do {
        (w, fs) \<leftarrow> nvs_read_word zread zwrite fs (unat (np_id e));
        Some (True, fs, point_put_float p w, string_buf)
      }
      else if pd_data_type (np_def e) = uint POINT_DATA_TYPE_INT then do {
        (fs, p) \<leftarrow> nvs_restore_int zread zwrite e fs p;
        Some (True, fs, p, string_buf)
      }
      else if pd_data_type (np_def e) = uint POINT_DATA_TYPE_STRING then do {
        (fs, p, string_buf) \<leftarrow> nvs_restore_string zread zwrite e fs p string_buf;
        Some (True, fs, p, string_buf)
      }
      else Some (False, fs, p, string_buf))"

fun nvs_restore_loop ::
  "'z zreader \<Rightarrow> 'z zwriter \<Rightarrow> nvs_point list \<Rightarrow> 'z \<Rightarrow> point \<Rightarrow> bytes \<Rightarrow> ('z \<times> point list) option" where
  \<comment> \<open>the list holds the points published; \<open>p\<close> and \<open>string_buf\<close> are reused by every iteration\<close>
  "nvs_restore_loop zread zwrite [] fs p string_buf = Some (fs, [])"
| "nvs_restore_loop zread zwrite (e # es) fs p string_buf = do {
     (known, fs, p, string_buf) \<leftarrow> nvs_restore_value zread zwrite e fs p string_buf;
     if \<not> known then nvs_restore_loop zread zwrite es fs p string_buf
     else do {
       p \<leftarrow> point_set_type_key p (pd_type (np_def e)) (np_key e);
       (fs, pub) \<leftarrow> nvs_restore_loop zread zwrite es fs p string_buf;
       Some (fs, p # pub)
     }
   }"

definition nvs_init ::
  "'z zreader \<Rightarrow> 'z zwriter \<Rightarrow> flash_env \<Rightarrow> bytes \<Rightarrow> nvs_point list \<Rightarrow> 'z nvs_state \<Rightarrow>
   (int \<times> 'z nvs_state \<times> point list) option" where
  \<comment> \<open>\<open>junk\<close> is the initial content of the local \<open>string_buf\<close>\<close>
  "nvs_init zread zwrite env junk nvs_pts_in st =
     (if \<not> fe_ready env then Some (-1, st, [])
      else if fe_page_rc env \<noteq> 0 then Some (-1, st, [])
      else if fe_page_size env = 0 then None
      else if fe_partition_size env div fe_page_size env < 2 then Some (-1, st, [])
      else if fe_mount_rc env \<noteq> 0 then Some (-1, st, [])
      else do {
        (fs, pub) \<leftarrow> nvs_restore_loop zread zwrite nvs_pts_in (nv_fs st) point_zero junk;
        Some (0, st\<lparr>nv_fs := fs, nv_pts := nvs_pts_in\<rparr>, pub)
      })"

subsection \<open>The tables of the applications\<close>

definition siot_net_nvs_pts :: "nvs_point list" where
  "siot_net_nvs_pts =
     [\<lparr>np_id = 1, np_def = point_def_boot_count, np_key = lit ''0''\<rparr>,
      \<lparr>np_id = 2, np_def = point_def_description, np_key = lit ''0''\<rparr>,
      \<lparr>np_id = 3, np_def = point_def_staticip, np_key = lit ''0''\<rparr>,
      \<lparr>np_id = 4, np_def = point_def_address, np_key = lit ''0''\<rparr>,
      \<lparr>np_id = 5, np_def = point_def_gateway, np_key = lit ''0''\<rparr>,
      \<lparr>np_id = 6, np_def = point_def_netmask, np_key = lit ''0''\<rparr>]"

definition siot_simple_nvs_pts :: "nvs_point list" where
  "siot_simple_nvs_pts = [\<lparr>np_id = 1, np_def = point_def_boot_count, np_key = lit ''0''\<rparr>]"

definition boot_count_listener :: "point \<Rightarrow> int option option" where
  \<comment> \<open>apps/siot-simple: the number reported for a message, if any\<close>
  "boot_count_listener p = do {
     is_boot_count \<leftarrow> c_streq (p_type p) (lit ''bootCount'');
     Some (if is_boot_count then Some (point_get_int p) else None)
   }"

subsection \<open>Lemmas: the flash file system\<close>

definition zms_ok :: "'z zreader \<Rightarrow> 'z zwriter \<Rightarrow> ('z \<Rightarrow> nat \<rightharpoonup> bytes) \<Rightarrow> bool" where
  \<comment> \<open>the documented behaviour of ZMS: a map from ids to records; reading gives as much of the
    record as fits, a missing record is an error; a write replaces the record or, when it
    fails, leaves it; writing nothing deletes it\<close>
  "zms_ok zread zwrite content =
     ((\<forall>z i n. case content z i of
         None \<Rightarrow> fst (zread z i n) < 0 \<and> snd (zread z i n) = []
       | Some d \<Rightarrow> 0 \<le> fst (zread z i n) \<and> snd (zread z i n) = take n d) \<and>
      (\<forall>z i d. content (snd (zwrite z i d)) =
         (if fst (zwrite z i d) < 0 then content z
          else (content z)(i := if d = [] then None else Some d))))"

definition map_read :: "(nat \<rightharpoonup> bytes) zreader" where
  "map_read z i n = (case z i of None \<Rightarrow> (-2, []) | Some d \<Rightarrow> (int (length d), take n d))"

definition map_write :: "(nat \<rightharpoonup> bytes) zwriter" where
  "map_write z i d = (int (length d), z(i := if d = [] then None else Some d))"

lemma map_zms_ok: "zms_ok map_read map_write id"
  by (auto simp: zms_ok_def map_read_def map_write_def split: option.splits)

definition stored_word :: "bytes option \<Rightarrow> 32 word" where
  "stored_word c = bytes_word (case c of None \<Rightarrow> word_bytes 0 | Some d \<Rightarrow> take 4 d @ drop (length d) (word_bytes 0))"

lemma word_bytes_length [simp]: "length (word_bytes w) = 4"
  by (simp add: word_bytes_def)

lemma stored_word_bytes [simp]: "stored_word None = 0" "stored_word (Some (word_bytes w @ r)) = w"
  using bytes_word_bytes[of 0 "[]"] bytes_word_bytes[of w "[]"] by (simp_all add: stored_word_def)

lemma stored_word_bytes' [simp]: "stored_word (Some (word_bytes w)) = w"
  using stored_word_bytes(2)[of w "[]"] by simp

subsection \<open>Lemmas: lookup and store\<close>

definition entry_name :: "nvs_point \<Rightarrow> name" where
  "entry_name e = (cstr (pd_type (np_def e)), cstr (np_key e))"

definition entry_ok :: "nvs_point \<Rightarrow> bool" where
  \<comment> \<open>names short enough for the fields of a point and for the debug dump, a known data type, and a
    boot count that is a number\<close>
  "entry_ok e = (terminated (pd_type (np_def e)) \<and> terminated (np_key e) \<and>
     length (fst (entry_name e)) \<le> 23 \<and> length (snd (entry_name e)) \<le> 22 \<and>
     length (fst (entry_name e)) + length (snd (entry_name e)) \<le> 36 \<and>
     pd_data_type (np_def e) \<in> {1, 2, 3} \<and>
     (fst (entry_name e) = ''bootCount'' \<longrightarrow> pd_data_type (np_def e) = 2))"

definition table_ok :: "nvs_point list \<Rightarrow> bool" where
  "table_ok tbl = (distinct (map np_id tbl) \<and> distinct (map entry_name tbl) \<and> (\<forall>e\<in>set tbl. entry_ok e))"

definition entry_of :: "nvs_point list \<Rightarrow> name \<Rightarrow> nvs_point option" where
  "entry_of tbl n = find (\<lambda>e. entry_name e = n) tbl"

lemma tables_ok: "table_ok siot_net_nvs_pts" "table_ok siot_simple_nvs_pts"
  by (simp_all add: table_ok_def entry_ok_def entry_name_def siot_net_nvs_pts_def siot_simple_nvs_pts_def
    point_def_boot_count_def point_def_description_def point_def_staticip_def point_def_address_def
    point_def_gateway_def point_def_netmask_def)

lemma net_names: "length siot_net_nvs_pts = 6"
  "e \<in> set siot_net_nvs_pts \<Longrightarrow> snd (entry_name e) \<noteq> [] \<and> fst (entry_name e) \<noteq> []"
  by (auto simp: entry_name_def siot_net_nvs_pts_def point_def_boot_count_def point_def_description_def
    point_def_staticip_def point_def_address_def point_def_gateway_def point_def_netmask_def)

lemma nvs_id_spec:
  assumes "\<forall>e\<in>set tbl. entry_ok e" "point_wf p"
  shows "point_type_key_to_nvs_id tbl (p_type p) (p_key p) =
    Some (case entry_of tbl (point_name p) of None \<Rightarrow> -1 | Some e \<Rightarrow> uint (np_id e))"
  using assms(1)
proof (induction tbl)
  case Nil
  then show ?case by (simp add: entry_of_def)
next
  case (Cons e tbl)
  have "terminated (pd_type (np_def e))" "terminated (np_key e)" using Cons.prems by (simp_all add: entry_ok_def)
  then show ?case using Cons point_wfD[OF assms(2)]
    by (auto simp: entry_of_def entry_name_def point_name_def c_streq_eq point_type_def point_key_def)
qed

lemma entry_of_Some:
  "entry_of tbl n = Some e \<Longrightarrow> e \<in> set tbl \<and> entry_name e = n"
  by (auto simp: entry_of_def find_Some_iff)

lemma entry_of_mem:
  assumes "distinct (map entry_name tbl)" "e \<in> set tbl"
  shows "entry_of tbl (entry_name e) = Some e"
  using assms by (induction tbl) (auto simp: entry_of_def)

definition record_of :: "point \<Rightarrow> bytes option" where
  \<comment> \<open>what the store keeps of a point; nothing for data it cannot size\<close>
  "record_of p =
     (if p_data_type p \<in> {POINT_DATA_TYPE_INT, POINT_DATA_TYPE_FLOAT} then Some (take 4 (p_data p))
      else if p_data_type p = POINT_DATA_TYPE_STRING then Some (cstr (p_data p) @ [NUL]) else None)"

definition nvs_update :: "nvs_point list \<Rightarrow> point \<Rightarrow> (nat \<rightharpoonup> bytes) \<Rightarrow> nat \<rightharpoonup> bytes" where
  "nvs_update tbl p m = (case entry_of tbl (point_name p) of None \<Rightarrow> m
     | Some e \<Rightarrow> m(unat (np_id e) := record_of p))"

lemma stored_data:
  \<comment> \<open>the bytes handed to the file system\<close>
  assumes "point_wf p" "text_wf p"
  shows "\<exists>l. point_data_len p = Some l \<and> nat l \<le> 20 \<and>
    take (nat l) (p_data p) = (case record_of p of None \<Rightarrow> [] | Some d \<Rightarrow> d)"
proof -
  have wf: "length (p_data p) = 20" using point_wfD[OF assms(1)] by simp
  show ?thesis
  proof (cases "p_data_type p = POINT_DATA_TYPE_STRING")
    case False
    then show ?thesis using wf by (auto simp: point_data_len_def record_of_def)
  next
    case True
    then have t: "terminated (p_data p)" using assms(2) by (simp add: text_wf_def)
    have l: "length (cstr (p_data p)) \<le> 19" using length_cstr_less[OF t] wf by simp
    have "c_strnlen (p_data p) 19 = Some (length (cstr (p_data p)))"
      using wf cstr_take[OF t l] by (simp add: c_strnlen_def)
    then show ?thesis using True l take_cstr_NUL[OF t] by (simp add: point_data_len_def record_of_def nat_add_distrib)
  qed
qed

lemma nvs_store_spec:
  assumes "\<forall>e\<in>set (nv_pts st). entry_ok e" "point_wf p" "text_wf p"
  shows "nvs_store_handle_point zwrite st p =
    Some (case entry_of (nv_pts st) (point_name p) of None \<Rightarrow> st
      | Some e \<Rightarrow> st\<lparr>nv_fs := snd (zwrite (nv_fs st) (unat (np_id e)) (case record_of p of None \<Rightarrow> [] | Some d \<Rightarrow> d))\<rparr>)"
proof (cases "entry_of (nv_pts st) (point_name p)")
  case None
  then show ?thesis using nvs_id_spec[OF assms(1,2)] by (simp add: nvs_store_handle_point_def)
next
  case (Some e)
  then have e: "entry_ok e" "entry_name e = point_name p" using entry_of_Some assms(1) by auto
  obtain v where v: "dump_value p = Some v" using text_wf_dump[OF assms(3)] by auto
  have "length (point_type p) + length (dump_sep p) < 40"
    using e by (auto simp: entry_ok_def point_name_def dump_sep_def)
  then obtain c d where "point_dump p (replicate 40 NUL) 0 40 = Some (c, d)"
    using point_dump_some[OF assms(2) v, of 40 0 "replicate 40 NUL"] by auto
  moreover have "length (p_data p) = 20" using point_wfD[OF assms(2)] by simp
  ultimately show ?thesis
    using Some nvs_id_spec[OF assms(1,2)] stored_data[OF assms(2,3)]
    by (auto simp: nvs_store_handle_point_def case_prod_unfold nat_uint_eq)
qed

subsection \<open>Lemmas: restoring\<close>

lemma zms_read:
  assumes "zms_ok zread zwrite content"
  shows "content z i = None \<Longrightarrow> fst (zread z i n) < 0 \<and> snd (zread z i n) = []"
    and "content z i = Some d \<Longrightarrow> 0 \<le> fst (zread z i n) \<and> snd (zread z i n) = take n d"
proof -
  have "case content z i of None \<Rightarrow> fst (zread z i n) < 0 \<and> snd (zread z i n) = []
    | Some d \<Rightarrow> 0 \<le> fst (zread z i n) \<and> snd (zread z i n) = take n d"
    using assms unfolding zms_ok_def by blast
  then show "content z i = None \<Longrightarrow> fst (zread z i n) < 0 \<and> snd (zread z i n) = []"
    "content z i = Some d \<Longrightarrow> 0 \<le> fst (zread z i n) \<and> snd (zread z i n) = take n d"
    by simp_all
qed

lemma zms_write:
  assumes "zms_ok zread zwrite content"
  shows "content (snd (zwrite z i d)) =
    (if fst (zwrite z i d) < 0 then content z else (content z)(i := if d = [] then None else Some d))"
  using assms by (simp add: zms_ok_def)

lemma nvs_read_word_spec:
  assumes "zms_ok zread zwrite content"
  shows "\<exists>z'. nvs_read_word zread zwrite z i = Some (stored_word (content z i), z') \<and>
    (\<forall>j. j \<noteq> i \<longrightarrow> content z' j = content z j) \<and>
    (content z' i = content z i \<or> content z i = None \<and> content z' i = Some (word_bytes 0))"
proof (cases "content z i")
  case None
  have "nvs_read_word zread zwrite z i = Some (0, snd (zwrite z i (word_bytes 0)))"
    using zms_read(1)[OF assms None, of 4] bytes_word_bytes[of 0 "[]"]
    by (simp add: nvs_read_word_def case_prod_unfold wr_block_def Let_def)
  then show ?thesis using None zms_write[OF assms, of z i "word_bytes 0"]
    by (auto simp: word_bytes_def)
next
  case (Some d)
  then show ?thesis using zms_read(2)[OF assms Some, of 4]
    by (simp add: nvs_read_word_def case_prod_unfold wr_block_def Let_def stored_word_def min_def)
qed

definition stored_text :: "bytes option \<Rightarrow> string" where
  "stored_text c = (case c of None \<Rightarrow> [] | Some d \<Rightarrow> cstr (take 19 d))"

definition text_record :: "bytes option \<Rightarrow> bool" where
  \<comment> \<open>a record of the store, or an old one that fills the buffer\<close>
  "text_record c = (case c of None \<Rightarrow> True | Some d \<Rightarrow> terminated d \<or> 20 \<le> length d)"

lemma string_buf_text:
  assumes "length sb = 20" "terminated d \<or> 20 \<le> length d"
  shows "cstr ((take 20 d @ drop (length (take 20 d)) sb)[19 := NUL]) = cstr (take 19 d)"
proof -
  let ?b = "take 20 d @ drop (length (take 20 d)) sb"
  have l: "length ?b = 20" using assms(1) by simp
  have "?b[19 := NUL] = take 19 ?b @ [NUL]" using l by (simp add: upd_conv_take_nth_drop)
  then have "cstr (?b[19 := NUL]) = cstr (take 19 ?b)" using cstr_cut by metis
  also have "\<dots> = cstr (take 19 d)"
  proof (cases "19 \<le> length d")
    case True
    then show ?thesis by (simp add: min_def)
  next
    case False
    then have d: "terminated d" "take 20 d = d" "take 19 d = d" using assms(2) by auto
    have "take 19 (d @ drop (length d) sb) = d @ take (19 - length d) (drop (length d) sb)" using False by simp
    then show ?thesis using d cstr_append_terminated[OF d(1)] by simp
  qed
  finally show ?thesis .
qed

lemma nvs_restore_string_spec:
  assumes "zms_ok zread zwrite content" "point_wf p" "length sb = 20" "i = unat (np_id e)"
  shows "\<exists>z' t sb'. nvs_restore_string zread zwrite e z p sb =
      Some (z', p\<lparr>p_data_type := POINT_DATA_TYPE_STRING, p_data := field_of 20 t\<rparr>, sb') \<and> length sb' = 20 \<and>
    length t \<le> 19 \<and> NUL \<notin> set t \<and> (text_record (content z i) \<longrightarrow> t = stored_text (content z i)) \<and>
    (\<forall>j. j \<noteq> i \<longrightarrow> content z' j = content z j) \<and>
    (content z' i = content z i \<or> content z i = None \<and> content z' i = Some [NUL])"
proof (cases "content z i")
  case None
  have "terminated (sb[0 := NUL])" "cstr (sb[0 := NUL]) = []"
    using assms(3) by (cases sb; simp add: terminated_def)+
  then have "nvs_restore_string zread zwrite e z p sb = Some (snd (zwrite z i [NUL]),
      p\<lparr>p_data_type := POINT_DATA_TYPE_STRING, p_data := field_of 20 []\<rparr>, sb[0 := NUL])"
    using zms_read(1)[OF assms(1) None, of 20] assms(2,3) point_put_string_spec[OF assms(2), of "sb[0 := NUL]"]
    by (simp add: nvs_restore_string_def case_prod_unfold wr_block_def assms(4))
  then show ?thesis using None assms(3) zms_write[OF assms(1), of z i "[NUL]"]
    by (auto simp: stored_text_def)
next
  case (Some d)
  define b where "b = (take 20 d @ drop (length (take 20 d)) (sb[0 := NUL]))[19 := NUL]"
  have l: "length b = 20" using assms(3) by (simp add: b_def)
  have "19 < length (take 20 d @ drop (length (take 20 d)) (sb[0 := NUL]))" using l by (simp add: b_def)
  then have "b ! 19 = NUL" unfolding b_def by (rule nth_list_update_eq)
  moreover have "b ! 19 \<in> set b" using l by (intro nth_mem) simp
  ultimately have t: "terminated b" by (simp add: terminated_def)
  have tx: "text_record (content z i) \<longrightarrow> cstr b = stored_text (content z i)"
    using string_buf_text[of "sb[0 := NUL]" d] assms(3) Some by (simp add: b_def text_record_def stored_text_def)
  have "length (take 20 d @ drop (length (take 20 d)) (sb[0 := NUL])) = 20" using assms(3) by simp
  then have "nvs_restore_string zread zwrite e z p sb = Some (z,
      p\<lparr>p_data_type := POINT_DATA_TYPE_STRING, p_data := field_of 20 (cstr b)\<rparr>, b)"
    using zms_read(2)[OF assms(1) Some, of 20] assms(2,3) point_put_string_spec[OF assms(2) t]
    by (simp add: nvs_restore_string_def case_prod_unfold wr_block_def assms(4) b_def)
  then show ?thesis using l t tx length_cstr_less[OF t]
    by (intro exI[of _ z] exI[of _ "cstr b"] exI[of _ b]) simp
qed

definition restored :: "nvs_point \<Rightarrow> bytes option \<Rightarrow> point \<Rightarrow> bool" where
  \<comment> \<open>the point published for an entry whose record is \<open>c\<close>\<close>
  "restored e c q = (point_wf q \<and> text_wf q \<and> point_name q = entry_name e \<and> p_time q = 0 \<and>
     (if pd_data_type (np_def e) = 1 then p_data_type q = POINT_DATA_TYPE_FLOAT \<and> point_get_float q = stored_word c
      else if pd_data_type (np_def e) = 2 then p_data_type q = POINT_DATA_TYPE_INT \<and> point_get_int q = sint (stored_word c)
      else p_data_type q = POINT_DATA_TYPE_STRING \<and> (text_record c \<longrightarrow> cstr (p_data q) = stored_text c)))"

abbreviation boot_entry :: "nvs_point \<Rightarrow> bool" where
  "boot_entry e \<equiv> fst (entry_name e) = ''bootCount''"

definition writes_ok :: "'z zwriter \<Rightarrow> bool" where
  "writes_ok zwrite = (\<forall>z i d. 0 \<le> fst (zwrite z i d))"

definition kept :: "bool \<Rightarrow> nvs_point \<Rightarrow> bytes option \<Rightarrow> bytes option \<Rightarrow> bool" where
  \<comment> \<open>the record of an entry before and after a boot\<close>
  "kept w_ok e c c' =
     (if boot_entry e then w_ok \<longrightarrow> c' = Some (word_bytes (stored_word c + 1))
      else c' = c \<or> c = None \<and> c' = Some (if pd_data_type (np_def e) = 3 then [NUL] else word_bytes 0))"

definition data_for :: "nvs_point \<Rightarrow> bytes option \<Rightarrow> point \<Rightarrow> bool" where
  \<comment> \<open>a point that still lacks its name\<close>
  "data_for e c p = (point_wf p \<and> text_wf p \<and> p_time p = 0 \<and>
     (if pd_data_type (np_def e) = 1 then p_data_type p = POINT_DATA_TYPE_FLOAT \<and> point_get_float p = stored_word c
      else if pd_data_type (np_def e) = 2 then p_data_type p = POINT_DATA_TYPE_INT \<and> point_get_int p = sint (stored_word c)
      else p_data_type p = POINT_DATA_TYPE_STRING \<and> (text_record c \<longrightarrow> cstr (p_data p) = stored_text c)))"

lemma restored_named:
  assumes "entry_ok e" "data_for e c p"
  shows "\<exists>q. point_set_type_key p (pd_type (np_def e)) (np_key e) = Some q \<and> restored e c q"
proof -
  have e: "terminated (pd_type (np_def e))" "terminated (np_key e)"
    "length (cstr (pd_type (np_def e))) \<le> 23" "length (cstr (np_key e)) \<le> 22"
    using assms(1) by (auto simp: entry_ok_def entry_name_def)
  have "point_wf p" using assms(2) by (simp add: data_for_def)
  from point_set_type_key_spec[OF this e(1,2)] show ?thesis
    using assms(2) e(3,4)
    by (auto simp: restored_def data_for_def point_wf_def text_wf_def point_get_float_def point_get_int_def
        point_name_def point_type_def point_key_def entry_name_def field_of_cstr)
qed

lemma nvs_restore_int_spec:
  assumes "zms_ok zread zwrite content" "entry_ok e" "pd_data_type (np_def e) = 2" "point_wf p" "p_time p = 0"
    and "i = unat (np_id e)"
  shows "\<exists>z' p'. nvs_restore_int zread zwrite e z p = Some (z', p') \<and> data_for e (content z i) p' \<and>
    (\<forall>j. j \<noteq> i \<longrightarrow> content z' j = content z j) \<and> kept (writes_ok zwrite) e (content z i) (content z' i)"
proof -
  let ?w = "stored_word (content z i)"
  obtain z1 where w: "nvs_read_word zread zwrite z i = Some (?w, z1)" "\<forall>j. j \<noteq> i \<longrightarrow> content z1 j = content z j"
    "content z1 i = content z i \<or> content z i = None \<and> content z1 i = Some (word_bytes 0)"
    using nvs_read_word_spec[OF assms(1)] by blast
  define p' z2 where "p' = point_put_int p (sint ?w)"
    and "z2 = (if boot_entry e then snd (zwrite z1 i (word_bytes (?w + 1))) else z1)"
  have r: "INT_MIN \<le> sint ?w" "sint ?w \<le> INT_MAX"
    using sint_greater_eq[of ?w] sint_less[of ?w] by (simp_all add: INT_MIN_def INT_MAX_def)
  have "data_for e (content z i) p'"
    using setters_wf(5)[OF assms(4)] assms(3,5) get_put_int[OF r] unfolding p'_def
    by (simp add: data_for_def text_wf_def) (simp add: point_put_int_def)
  moreover have "c_streq (lit ''bootCount'') (pd_type (np_def e)) = Some (boot_entry e)"
    using assms(2) by (auto simp: c_streq_eq entry_name_def entry_ok_def)
  then have "nvs_restore_int zread zwrite e z p = Some (z2, p')"
    using w(1) by (simp add: nvs_restore_int_def p'_def z2_def assms(6))
  moreover have "\<forall>j. j \<noteq> i \<longrightarrow> content z2 j = content z j" using w(2) zms_write[OF assms(1)] by (simp add: z2_def)
  moreover have "word_bytes x \<noteq> []" for x by (simp add: word_bytes_def)
  then have "kept (writes_ok zwrite) e (content z i) (content z2 i)"
    using w(3) zms_write[OF assms(1)] assms(3) by (auto simp: z2_def kept_def writes_ok_def not_less[symmetric])
  ultimately show ?thesis by blast
qed

lemma nvs_restore_value_spec:
  assumes "zms_ok zread zwrite content" "entry_ok e" "point_wf p" "length sb = 20" "p_time p = 0" "i = unat (np_id e)"
  shows "\<exists>z' p' sb' q. nvs_restore_value zread zwrite e z p sb = Some (True, z', p', sb') \<and> length sb' = 20 \<and>
    point_set_type_key p' (pd_type (np_def e)) (np_key e) = Some q \<and> restored e (content z i) q \<and>
    (\<forall>j. j \<noteq> i \<longrightarrow> content z' j = content z j) \<and> kept (writes_ok zwrite) e (content z i) (content z' i)"
proof -
  have "\<exists>z' p' sb'. nvs_restore_value zread zwrite e z p sb = Some (True, z', p', sb') \<and> length sb' = 20 \<and>
    data_for e (content z i) p' \<and>
    (\<forall>j. j \<noteq> i \<longrightarrow> content z' j = content z j) \<and> kept (writes_ok zwrite) e (content z i) (content z' i)"
  proof -
    have e: "boot_entry e \<Longrightarrow> pd_data_type (np_def e) = 2" using assms(2) by (simp add: entry_ok_def)
    consider (f) "pd_data_type (np_def e) = 1" | (i) "pd_data_type (np_def e) = 2" | (s) "pd_data_type (np_def e) = 3"
      using assms(2) by (auto simp: entry_ok_def)
    then show ?thesis
    proof cases
      case f
      obtain z1 where w: "nvs_read_word zread zwrite z i = Some (stored_word (content z i), z1)"
        "\<forall>j. j \<noteq> i \<longrightarrow> content z1 j = content z j"
        "content z1 i = content z i \<or> content z i = None \<and> content z1 i = Some (word_bytes 0)"
        using nvs_read_word_spec[OF assms(1)] by blast
      have "data_for e (content z i) (point_put_float p (stored_word (content z i)))"
        using setters_wf(6)[OF assms(3)] assms(5) get_put_float f
        by (simp add: data_for_def text_wf_def) (simp add: point_put_float_def)
      then show ?thesis using f w e assms(4) by (simp add: nvs_restore_value_def assms(6)) (auto simp: kept_def)
    next
      case i
      then show ?thesis using nvs_restore_int_spec[OF assms(1,2) i assms(3,5,6), of z] assms(4)
        by (auto simp: nvs_restore_value_def)
    next
      case s
      obtain z2 t sb' where t: "nvs_restore_string zread zwrite e z p sb =
          Some (z2, p\<lparr>p_data_type := POINT_DATA_TYPE_STRING, p_data := field_of 20 t\<rparr>, sb')" "length sb' = 20"
        "length t \<le> 19" "NUL \<notin> set t" "text_record (content z i) \<longrightarrow> t = stored_text (content z i)"
        "\<forall>j. j \<noteq> i \<longrightarrow> content z2 j = content z j"
        "content z2 i = content z i \<or> content z i = None \<and> content z2 i = Some [NUL]"
        using nvs_restore_string_spec[OF assms(1,3,4,6)] by blast
      have "cstr (field_of 20 t) = t" using t(3,4) by (simp add: field_of_cstr)
      then have "text_record (content z i) \<longrightarrow> cstr (field_of 20 t) = stored_text (content z i)" using t(5) by metis
      then have "data_for e (content z i) (p\<lparr>p_data_type := POINT_DATA_TYPE_STRING, p_data := field_of 20 t\<rparr>)"
        using assms(3,5) s by (simp add: data_for_def point_wf_def text_wf_def)
      then show ?thesis using s t(1,2,6,7) e by (simp add: nvs_restore_value_def) (auto simp: kept_def)
    qed
  qed
  then show ?thesis using restored_named[OF assms(2)] by metis
qed

lemma nvs_restore_loop_spec:
  assumes "zms_ok zread zwrite content" "\<forall>e\<in>set tbl. entry_ok e" "distinct (map np_id tbl)"
    and "point_wf p" "length sb = 20" "p_time p = 0"
  shows "\<exists>z' pub. nvs_restore_loop zread zwrite tbl z p sb = Some (z', pub) \<and>
    list_all2 (\<lambda>e q. restored e (content z (unat (np_id e))) q) tbl pub \<and>
    (\<forall>e\<in>set tbl. kept (writes_ok zwrite) e (content z (unat (np_id e))) (content z' (unat (np_id e)))) \<and>
    (\<forall>j. j \<notin> (\<lambda>e. unat (np_id e)) ` set tbl \<longrightarrow> content z' j = content z j)"
  using assms(2-6)
proof (induction tbl arbitrary: z p sb)
  case Nil
  then show ?case by simp
next
  case (Cons e tbl)
  let ?i = "unat (np_id e)"
  have e: "entry_ok e" using Cons.prems(1) by simp
  obtain z1 p1 sb1 q where 1: "nvs_restore_value zread zwrite e z p sb = Some (True, z1, p1, sb1)" "length sb1 = 20"
    "point_set_type_key p1 (pd_type (np_def e)) (np_key e) = Some q" "restored e (content z ?i) q"
    "\<forall>j. j \<noteq> ?i \<longrightarrow> content z1 j = content z j" "kept (writes_ok zwrite) e (content z ?i) (content z1 ?i)"
    using nvs_restore_value_spec[OF assms(1) e Cons.prems(3,4,5) refl] by blast
  have q: "point_wf q" "p_time q = 0" using 1(4) by (simp_all add: restored_def)
  have ids: "unat (np_id e') \<noteq> ?i" if "e' \<in> set tbl" for e'
  proof
    assume "unat (np_id e') = unat (np_id e)"
    then have "np_id e' = np_id e" by (rule unsigned_word_eqI)
    moreover have "np_id e' \<in> np_id ` set tbl" using that by simp
    ultimately show False using Cons.prems(2) by simp
  qed
  obtain z2 pub where 2: "nvs_restore_loop zread zwrite tbl z1 q sb1 = Some (z2, pub)"
    "list_all2 (\<lambda>e q. restored e (content z1 (unat (np_id e))) q) tbl pub"
    "\<forall>e\<in>set tbl. kept (writes_ok zwrite) e (content z1 (unat (np_id e))) (content z2 (unat (np_id e)))"
    "\<forall>j. j \<notin> (\<lambda>e. unat (np_id e)) ` set tbl \<longrightarrow> content z2 j = content z1 j"
  proof -
    have "\<forall>e\<in>set tbl. entry_ok e" "distinct (map np_id tbl)" using Cons.prems(1,2) by simp_all
    then show thesis using that Cons.IH[OF _ _ q(1) 1(2) q(2), of z1] by blast
  qed
  have same: "content z1 (unat (np_id e')) = content z (unat (np_id e'))" if "e' \<in> set tbl" for e'
    using ids[OF that] 1(5) by blast
  have "?i \<notin> (\<lambda>e. unat (np_id e)) ` set tbl" using ids by fastforce
  then have "content z2 ?i = content z1 ?i" using 2(4) by blast
  moreover have "list_all2 (\<lambda>e q. restored e (content z (unat (np_id e))) q) tbl pub"
    using 2(2) by (rule list.rel_mono_strong) (simp add: same)
  moreover have "\<forall>e\<in>set tbl. kept (writes_ok zwrite) e (content z (unat (np_id e))) (content z2 (unat (np_id e)))"
    using 2(3) same by simp
  ultimately show ?case using 1 2(1,4) by auto
qed

definition env_ok :: "flash_env \<Rightarrow> bool" where
  "env_ok env = (fe_ready env \<and> fe_page_rc env = 0 \<and> fe_page_size env \<noteq> 0 \<and>
     2 \<le> fe_partition_size env div fe_page_size env \<and> fe_mount_rc env = 0)"

lemma nvs_init_spec:
  assumes "zms_ok zread zwrite content" "table_ok tbl" "env_ok env" "length junk = 20"
  shows "\<exists>z' pub. nvs_init zread zwrite env junk tbl st = Some (0, st\<lparr>nv_fs := z', nv_pts := tbl\<rparr>, pub) \<and>
    list_all2 (\<lambda>e q. restored e (content (nv_fs st) (unat (np_id e))) q) tbl pub \<and>
    (\<forall>e\<in>set tbl. kept (writes_ok zwrite) e (content (nv_fs st) (unat (np_id e))) (content z' (unat (np_id e)))) \<and>
    (\<forall>j. j \<notin> (\<lambda>e. unat (np_id e)) ` set tbl \<longrightarrow> content z' j = content (nv_fs st) j)"
proof -
  have "p_time point_zero = 0" by (simp add: point_zero_def)
  then obtain z' pub where "nvs_restore_loop zread zwrite tbl (nv_fs st) point_zero junk = Some (z', pub)"
    "list_all2 (\<lambda>e q. restored e (content (nv_fs st) (unat (np_id e))) q) tbl pub"
    "\<forall>e\<in>set tbl. kept (writes_ok zwrite) e (content (nv_fs st) (unat (np_id e))) (content z' (unat (np_id e)))"
    "\<forall>j. j \<notin> (\<lambda>e. unat (np_id e)) ` set tbl \<longrightarrow> content z' j = content (nv_fs st) j"
    using nvs_restore_loop_spec[OF assms(1) _ _ point_zero_wf(1) assms(4), of tbl "nv_fs st"] assms(2)
    unfolding table_ok_def by blast
  then show ?thesis using assms(3) by (auto simp: nvs_init_def env_ok_def not_less)
qed

subsection \<open>Lemmas: the store thread\<close>

lemma record_of_not_Nil: "point_wf p \<Longrightarrow> record_of p = Some d \<Longrightarrow> d \<noteq> []"
  by (auto simp: record_of_def point_wf_def split: if_splits)

lemma nvs_thread_spec:
  assumes "zms_ok zread zwrite content" "writes_ok zwrite" "\<forall>e\<in>set (nv_pts st). entry_ok e"
    and "\<forall>(on, p)\<in>set msgs. point_wf p \<and> text_wf p"
  shows "\<exists>st'. nvs_store_thread zwrite st msgs = Some st' \<and> nv_pts st' = nv_pts st \<and>
    content (nv_fs st') = foldl (\<lambda>m p. nvs_update (nv_pts st) p m) (content (nv_fs st)) (map snd (filter fst msgs))"
  using assms(3,4)
proof (induction msgs arbitrary: st)
  case Nil
  then show ?case by simp
next
  case (Cons m msgs)
  obtain on p where m: "m = (on, p)" by (cases m)
  have p: "point_wf p" "text_wf p" using Cons.prems(2) m by auto
  define st1 where "st1 = (if on then (case entry_of (nv_pts st) (point_name p) of None \<Rightarrow> st
      | Some e \<Rightarrow> st\<lparr>nv_fs := snd (zwrite (nv_fs st) (unat (np_id e)) (case record_of p of None \<Rightarrow> [] | Some d \<Rightarrow> d))\<rparr>)
    else st)"
  have 1: "nvs_store_step zwrite st on p = Some st1"
    using nvs_store_spec[OF Cons.prems(1) p, of zwrite] by (simp add: nvs_store_step_def st1_def)
  have pts: "nv_pts st1 = nv_pts st" by (simp add: st1_def split: option.splits)
  have "content (nv_fs st1) = (if on then nvs_update (nv_pts st) p (content (nv_fs st)) else content (nv_fs st))"
    using zms_write[OF assms(1)] assms(2) record_of_not_Nil[OF p(1)]
    by (auto simp: st1_def nvs_update_def writes_ok_def not_less[symmetric] split: option.splits)
  then show ?case using Cons.IH[of st1] Cons.prems pts 1 m by auto
qed

lemma nvs_update_other:
  assumes "table_ok tbl" "e \<in> set tbl" "\<forall>p\<in>set ps. point_name p \<noteq> entry_name e"
  shows "foldl (\<lambda>m p. nvs_update tbl p m) m ps (unat (np_id e)) = m (unat (np_id e))"
  using assms(3)
proof (induction ps arbitrary: m)
  case (Cons p ps)
  have "nvs_update tbl p m (unat (np_id e)) = m (unat (np_id e))"
  proof (cases "entry_of tbl (point_name p)")
    case (Some e')
    then have e': "e' \<in> set tbl" "e' \<noteq> e" using entry_of_Some[OF Some] Cons.prems by auto
    have "np_id e' \<noteq> np_id e"
      using assms(1,2) e' by (auto simp: table_ok_def distinct_map dest: inj_onD)
    then have "unat (np_id e') \<noteq> unat (np_id e)" using unsigned_word_eqI by blast
    then show ?thesis using Some by (simp add: nvs_update_def)
  qed (simp add: nvs_update_def)
  then show ?case using Cons by simp
qed simp

lemma persisted_record:
  \<comment> \<open>after any messages, the record of an entry is that of the last point of its name\<close>
  assumes "zms_ok zread zwrite content" "writes_ok zwrite" "table_ok (nv_pts st)"
    and "\<forall>(on, q)\<in>set msgs. point_wf q \<and> text_wf q" "e \<in> set (nv_pts st)"
    and "map snd (filter fst msgs) = before @ p # later"
    and "point_name p = entry_name e" "\<forall>q\<in>set later. point_name q \<noteq> entry_name e"
  shows "\<exists>st'. nvs_store_thread zwrite st msgs = Some st' \<and> nv_pts st' = nv_pts st \<and>
    content (nv_fs st') (unat (np_id e)) = record_of p"
proof -
  obtain st' where st': "nvs_store_thread zwrite st msgs = Some st'" "nv_pts st' = nv_pts st"
    "content (nv_fs st') = foldl (\<lambda>m p. nvs_update (nv_pts st) p m) (content (nv_fs st)) (map snd (filter fst msgs))"
    using nvs_thread_spec[OF assms(1,2) _ assms(4)] assms(3) by (auto simp: table_ok_def)
  have "entry_of (nv_pts st) (point_name p) = Some e"
    using entry_of_mem[OF _ assms(5)] assms(3,7) by (simp add: table_ok_def)
  then have "content (nv_fs st') (unat (np_id e)) = record_of p"
    unfolding st'(3) assms(6) using nvs_update_other[OF assms(3,5,8)] by (simp add: nvs_update_def)
  then show ?thesis using st'(1,2) by blast
qed

definition same_value :: "point \<Rightarrow> point \<Rightarrow> bool" where
  "same_value p q = (p_data_type q = p_data_type p \<and>
     (if p_data_type p = POINT_DATA_TYPE_STRING then cstr (p_data q) = cstr (p_data p)
      else if p_data_type p = POINT_DATA_TYPE_INT then point_get_int q = point_get_int p
      else point_get_float q = point_get_float p))"

lemma restored_record:
  assumes "point_wf p" "text_wf p" "uint (p_data_type p) = pd_data_type (np_def e)" "entry_ok e"
    and "restored e (record_of p) q"
  shows "same_value p q"
proof -
  have w: "stored_word (Some (take 4 (p_data p))) = bytes_word (p_data p)"
    using point_wfD[OF assms(1)] by (simp add: stored_word_def bytes_word_def)
  consider "p_data_type p = 1" | "p_data_type p = 2" | "p_data_type p = 3"
  proof -
    have "p_data_type p = word_of_int (pd_data_type (np_def e))" using assms(3)[symmetric] by simp
    then show thesis using assms(4) that by (auto simp: entry_ok_def)
  qed
  then show ?thesis
  proof cases
    case 1
    then show ?thesis using assms(3,5) w by (simp add: restored_def same_value_def record_of_def point_get_float_def)
  next
    case 2
    then show ?thesis using assms(3,5) w by (simp add: restored_def same_value_def record_of_def point_get_int_def)
  next
    case 3
    then have t: "terminated (p_data p)" using assms(2) by (simp add: text_wf_def)
    have "length (cstr (p_data p)) \<le> 19" using length_cstr_less[OF t] point_wfD[OF assms(1)] by simp
    then have "stored_text (Some (cstr (p_data p) @ [NUL])) = cstr (p_data p)"
      by (simp add: stored_text_def take_Cons')
    then show ?thesis using 3 assms(3,5)
      by (simp add: restored_def same_value_def record_of_def text_record_def terminated_def)
  qed
qed

fun nvs_boots ::
  "'z zreader \<Rightarrow> 'z zwriter \<Rightarrow> flash_env \<Rightarrow> bytes \<Rightarrow> nvs_point list \<Rightarrow> nat \<Rightarrow> 'z \<Rightarrow> ('z \<times> point list list) option" where
  \<comment> \<open>resets: each boot starts with empty memory and the flash of the one before\<close>
  "nvs_boots zread zwrite env junk tbl 0 z = Some (z, [])"
| "nvs_boots zread zwrite env junk tbl (Suc k) z = do {
     (r, st, pub) \<leftarrow> nvs_init zread zwrite env junk tbl \<lparr>nv_fs = z, nv_pts = []\<rparr>;
     (z, pubs) \<leftarrow> nvs_boots zread zwrite env junk tbl k (nv_fs st);
     Some (z, pub # pubs)
   }"

lemma nvs_boots_spec:
  assumes "zms_ok zread zwrite content" "writes_ok zwrite" "table_ok tbl" "env_ok env" "length junk = 20"
    and "i < length tbl" "boot_entry (tbl ! i)"
  shows "\<exists>z' pubs. nvs_boots zread zwrite env junk tbl k z = Some (z', pubs) \<and> length pubs = k \<and>
    (\<forall>j<k. length (pubs ! j) = length tbl \<and> point_name (pubs ! j ! i) = entry_name (tbl ! i) \<and>
      point_get_int (pubs ! j ! i) = sint (stored_word (content z (unat (np_id (tbl ! i)))) + of_nat j)) \<and>
    stored_word (content z' (unat (np_id (tbl ! i)))) = stored_word (content z (unat (np_id (tbl ! i)))) + of_nat k"
proof (induction k arbitrary: z)
  case 0
  then show ?case by simp
next
  case (Suc k)
  let ?e = "tbl ! i"
  let ?id = "unat (np_id ?e)"
  have e: "?e \<in> set tbl" "pd_data_type (np_def ?e) = 2"
    using assms(3,6,7) by (auto simp: table_ok_def entry_ok_def)
  define st0 where "st0 = \<lparr>nv_fs = z, nv_pts = []\<rparr>"
  obtain z1 pub where 1: "nvs_init zread zwrite env junk tbl st0 = Some (0, st0\<lparr>nv_fs := z1, nv_pts := tbl\<rparr>, pub)"
    "list_all2 (\<lambda>e q. restored e (content z (unat (np_id e))) q) tbl pub"
    "kept (writes_ok zwrite) ?e (content z ?id) (content z1 ?id)"
    using nvs_init_spec[OF assms(1,3,4,5), of st0] e(1) by (auto simp: st0_def)
  have q: "restored ?e (content z ?id) (pub ! i)" "length pub = length tbl"
    using 1(2) assms(6) by (auto simp: list_all2_conv_all_nth)
  have w: "stored_word (content z1 ?id) = stored_word (content z ?id) + 1"
    using 1(3) assms(2,7) by (simp add: kept_def)
  obtain z' pubs where 2: "nvs_boots zread zwrite env junk tbl k z1 = Some (z', pubs)" "length pubs = k"
    "\<forall>j<k. length (pubs ! j) = length tbl \<and> point_name (pubs ! j ! i) = entry_name ?e \<and>
      point_get_int (pubs ! j ! i) = sint (stored_word (content z1 ?id) + of_nat j)"
    "stored_word (content z' ?id) = stored_word (content z1 ?id) + of_nat k"
    using Suc.IH[of z1] by blast
  have "nvs_boots zread zwrite env junk tbl (Suc k) z = Some (z', pub # pubs)"
    using 1(1) 2(1) by (simp add: st0_def)
  moreover have "length ((pub # pubs) ! j) = length tbl \<and> point_name ((pub # pubs) ! j ! i) = entry_name ?e \<and>
      point_get_int ((pub # pubs) ! j ! i) = sint (stored_word (content z ?id) + of_nat j)" if "j < Suc k" for j
  proof (cases j)
    case 0
    then show ?thesis using q e(2) by (simp add: restored_def)
  next
    case (Suc j')
    then show ?thesis using 2(3) w that by (simp add: ac_simps)
  qed
  ultimately show ?case using 2(2,4) w by (intro exI[of _ z'] exI[of _ "pub # pubs"]) (simp add: ac_simps)
qed

lemma boot_count_echo:
  \<comment> \<open>a boot count published at boot and delivered to the store after it takes the increment back\<close>
  assumes "zms_ok zread zwrite content" "writes_ok zwrite" "table_ok (nv_pts st)" "e \<in> set (nv_pts st)" "boot_entry e"
    and "restored e c q" "text_record c"
  shows "\<exists>st'. nvs_store_handle_point zwrite st q = Some st' \<and>
    stored_word (content (nv_fs st') (unat (np_id e))) = stored_word c"
proof -
  have e: "entry_of (nv_pts st) (point_name q) = Some e" "pd_data_type (np_def e) = 2" "\<forall>e\<in>set (nv_pts st). entry_ok e"
    using assms(3-6) entry_of_mem[of "nv_pts st" e] by (auto simp: table_ok_def entry_ok_def restored_def)
  have q: "point_wf q" "text_wf q" "p_data_type q = 2" "point_get_int q = sint (stored_word c)"
    using assms(6) e(2) by (simp_all add: restored_def)
  obtain st' where "nvs_store_thread zwrite st [(True, q)] = Some st'"
    "content (nv_fs st') = nvs_update (nv_pts st) q (content (nv_fs st))"
    using nvs_thread_spec[OF assms(1,2) e(3), of "[(True, q)]"] q(1,2) by auto
  moreover have "stored_word (Some (take 4 (p_data q))) = bytes_word (p_data q)"
    using point_wfD[OF q(1)] by (simp add: stored_word_def bytes_word_def)
  moreover have "bytes_word (p_data q) = stored_word c" using q(4) by (intro signed_word_eqI) (simp add: point_get_int_def)
  ultimately show ?thesis using e(1) q(3)
    by (auto simp: nvs_update_def record_of_def nvs_store_step_def split: Option.bind_splits)
qed

subsection \<open>Properties\<close>

definition sample_env :: flash_env where
  \<comment> \<open>a partition of four 4 kB pages\<close>
  "sample_env = \<lparr>fe_ready = True, fe_page_rc = 0, fe_page_size = 4096, fe_partition_size = 16384, fe_mount_rc = 0\<rparr>"

lemma sample_env_ok: "env_ok sample_env"
  by (simp add: env_ok_def sample_env_def word_le_nat_alt unat_div)

lemma map_writes_ok: "writes_ok map_write"
  by (simp add: writes_ok_def map_write_def)

text \<open>
  C31: The store thread refines a map from ids to records: each message on the point channel whose name is
  in the table replaces the record of its entry (or deletes it, when the data type is not an
  int, float or string), any other message changes nothing, and no access leaves an object.
\<close>

theorem nvs_store_refines_map:
  assumes "zms_ok zread zwrite content" "writes_ok zwrite" "table_ok (nv_pts st)"
    and "\<forall>(on, p)\<in>set msgs. point_wf p \<and> text_wf p"
  shows "\<exists>st'. nvs_store_thread zwrite st msgs = Some st' \<and> nv_pts st' = nv_pts st \<and>
    content (nv_fs st') = foldl (\<lambda>m p. nvs_update (nv_pts st) p m) (content (nv_fs st)) (map snd (filter fst msgs))"
  using assms by (intro nvs_thread_spec) (auto simp: table_ok_def)

text \<open>
  C32: What is persisted survives a reset: after any messages, the next boot publishes for every entry of
  the table whose last message had the entry's data type a point with the same name and value.
\<close>

theorem nvs_persist_restore:
  assumes "zms_ok zread zwrite content" "writes_ok zwrite" "table_ok (nv_pts st)" "env_ok env" "length junk = 20"
    and "\<forall>(on, p)\<in>set (pre @ (True, p) # post). point_wf p \<and> text_wf p"
    and "e \<in> set (nv_pts st)" "point_name p = entry_name e" "uint (p_data_type p) = pd_data_type (np_def e)"
    and "\<forall>q\<in>set (map snd (filter fst post)). point_name q \<noteq> entry_name e"
  shows "\<exists>st1 st2 pub. nvs_store_thread zwrite st (pre @ (True, p) # post) = Some st1 \<and>
    nvs_init zread zwrite env junk (nv_pts st) \<lparr>nv_fs = nv_fs st1, nv_pts = []\<rparr> = Some (0, st2, pub) \<and>
    length pub = length (nv_pts st) \<and> (\<exists>q\<in>set pub. point_name q = point_name p \<and> same_value p q)"
proof -
  let ?tbl = "nv_pts st"
  have ok: "\<forall>e\<in>set ?tbl. entry_ok e" using assms(3) by (simp add: table_ok_def)
  obtain st1 where 1: "nvs_store_thread zwrite st (pre @ (True, p) # post) = Some st1"
    and c: "content (nv_fs st1) (unat (np_id e)) = record_of p"
    using persisted_record[OF assms(1-3,6,7) _ assms(8,10), of "map snd (filter fst pre)"] by auto
  obtain z' pub where 2: "nvs_init zread zwrite env junk ?tbl \<lparr>nv_fs = nv_fs st1, nv_pts = []\<rparr> =
      Some (0, \<lparr>nv_fs = z', nv_pts = ?tbl\<rparr>, pub)"
    "list_all2 (\<lambda>e q. restored e (content (nv_fs st1) (unat (np_id e))) q) ?tbl pub"
    using nvs_init_spec[OF assms(1,3,4,5), of "\<lparr>nv_fs = nv_fs st1, nv_pts = []\<rparr>"] by auto
  obtain i where i: "i < length ?tbl" "?tbl ! i = e" using assms(7) by (meson in_set_conv_nth)
  have r: "restored e (record_of p) (pub ! i)" "length pub = length ?tbl"
    using 2(2) i c by (auto simp: list_all2_conv_all_nth)
  have "same_value p (pub ! i)"
    using restored_record[OF _ _ assms(9) _ r(1)] assms(6,7) ok by auto
  moreover have "point_name (pub ! i) = point_name p" using r(1) assms(8) by (simp add: restored_def)
  moreover have "pub ! i \<in> set pub" using i r(2) by simp
  ultimately show ?thesis using 1 2(1) r(2) by blast
qed

text \<open>
  C33: The boot counter: boot number \<open>j\<close> after a state in which the counter stands at \<open>w\<close> publishes
  \<open>w + j\<close>, as a 32 bit number that wraps and is shown signed, and after \<open>k\<close> boots it stands at
  \<open>w + k\<close>.
\<close>

theorem nvs_boot_count:
  assumes "zms_ok zread zwrite content" "writes_ok zwrite" "table_ok tbl" "env_ok env" "length junk = 20"
    and "i < length tbl" "boot_entry (tbl ! i)" "w = stored_word (content z (unat (np_id (tbl ! i))))"
  shows "\<exists>z' pubs. nvs_boots zread zwrite env junk tbl k z = Some (z', pubs) \<and> length pubs = k \<and>
    (\<forall>j<k. length (pubs ! j) = length tbl \<and> point_name (pubs ! j ! i) = entry_name (tbl ! i) \<and>
      point_get_int (pubs ! j ! i) = sint (w + of_nat j)) \<and>
    stored_word (content z' (unat (np_id (tbl ! i)))) = w + of_nat k"
  unfolding assms(8) by (rule nvs_boots_spec[OF assms(1-7)])

text \<open>
  C34: Initialisation fails with -1 exactly when the flash device, its page layout or the mount fails or the
  partition holds fewer than two erase pages; then it touches neither the flash nor the table,
  so nothing is persisted, and publishes nothing. Otherwise it publishes one point per entry.
\<close>

theorem nvs_init_guards:
  assumes "zms_ok zread zwrite content" "table_ok tbl" "length junk = 20" "fe_page_size env \<noteq> 0"
  shows "(if env_ok env then \<exists>st' pub. nvs_init zread zwrite env junk tbl st = Some (0, st', pub) \<and>
      nv_pts st' = tbl \<and> length pub = length tbl
    else nvs_init zread zwrite env junk tbl st = Some (-1, st, [])) \<and>
    (unat (fe_partition_size env) < 2 * unat (fe_page_size env) \<longrightarrow> \<not> env_ok env)"
proof -
  have "\<not> env_ok env \<Longrightarrow> nvs_init zread zwrite env junk tbl st = Some (-1, st, [])"
    using assms(4) by (auto simp: nvs_init_def env_ok_def not_le)
  moreover have "\<not> env_ok env" if "unat (fe_partition_size env) < 2 * unat (fe_page_size env)"
  proof -
    have "unat (fe_partition_size env div fe_page_size env) < 2"
      using that by (simp add: unat_div less_mult_imp_div_less)
    then have "fe_partition_size env div fe_page_size env < 2" by (simp add: word_less_nat_alt)
    then show ?thesis by (simp add: env_ok_def not_le)
  qed
  moreover have "\<exists>st' pub. nvs_init zread zwrite env junk tbl st = Some (0, st', pub) \<and>
      nv_pts st' = tbl \<and> length pub = length tbl" if env: "env_ok env"
  proof -
    obtain z' pub where i: "nvs_init zread zwrite env junk tbl st = Some (0, st\<lparr>nv_fs := z', nv_pts := tbl\<rparr>, pub)"
      "list_all2 (\<lambda>e q. restored e (content (nv_fs st) (unat (np_id e))) q) tbl pub"
      using nvs_init_spec[OF assms(1,2) env assms(3), of st] by blast
    then show ?thesis using list_all2_lengthD[OF i(2)] by simp
  qed
  ultimately show ?thesis by simp
qed

theorem nvs_store_refines_map_witness:
  "\<exists>st'. nvs_store_thread map_write \<lparr>nv_fs = Map.empty, nv_pts = siot_net_nvs_pts\<rparr>
      [(True, sample_point ''staticIP'' ''0'' 1), (True, sample_point ''uptime'' ''0'' 7)] = Some st' \<and>
    nv_fs st' = [3 \<mapsto> word_bytes 1]"
proof -
  let ?st = "\<lparr>nv_fs = Map.empty, nv_pts = siot_net_nvs_pts\<rparr> :: (nat \<rightharpoonup> bytes) nvs_state"
  let ?msgs = "[(True, sample_point ''staticIP'' ''0'' 1), (True, sample_point ''uptime'' ''0'' 7)]"
  have "text_wf (sample_point t k v)" for t k v by (simp add: text_wf_def)
  then have "\<forall>(on, p)\<in>set ?msgs. point_wf p \<and> text_wf p" by simp
  moreover have "table_ok (nv_pts ?st)" using tables_ok(1) by simp
  ultimately obtain st' where st': "nvs_store_thread map_write ?st ?msgs = Some st'"
    "id (nv_fs st') = foldl (\<lambda>m p. nvs_update siot_net_nvs_pts p m) (id Map.empty) (map snd (filter fst ?msgs))"
    using nvs_store_refines_map[OF map_zms_ok map_writes_ok, of ?st ?msgs] by auto
  have n: "point_name (sample_point ''staticIP'' ''0'' v) = (''staticIP'', ''0'')"
    "point_name (sample_point ''uptime'' ''0'' v) = (''uptime'', ''0'')" for v
    by (simp_all add: sample_point_def point_put_int_def point_name_def point_type_def point_key_def field_of_cstr)
  have r: "record_of (sample_point t k 1) = Some (word_bytes 1)" for t k
    by (simp add: record_of_def) (simp add: sample_point_def point_put_int_def)
  have "foldl (\<lambda>m p. nvs_update siot_net_nvs_pts p m) Map.empty (map snd (filter fst ?msgs)) = [3 \<mapsto> word_bytes 1]"
    by (simp add: nvs_update_def n r entry_of_def siot_net_nvs_pts_def entry_name_def
      point_def_boot_count_def point_def_description_def point_def_staticip_def point_def_address_def
      point_def_gateway_def point_def_netmask_def)
  then show ?thesis using st' by auto
qed

theorem nvs_persist_restore_witness:
  "\<exists>st1 st2 pub. nvs_store_thread map_write \<lparr>nv_fs = Map.empty, nv_pts = siot_net_nvs_pts\<rparr>
      [(True, sample_point ''staticIP'' ''0'' 1)] = Some st1 \<and>
    nvs_init map_read map_write sample_env (replicate 20 NUL) siot_net_nvs_pts
      \<lparr>nv_fs = nv_fs st1, nv_pts = []\<rparr> = Some (0, st2, pub) \<and>
    (\<exists>q\<in>set pub. point_name q = (''staticIP'', ''0'') \<and> point_get_int q = 1)"
proof -
  let ?p = "sample_point ''staticIP'' ''0'' 1"
  let ?st = "\<lparr>nv_fs = Map.empty, nv_pts = siot_net_nvs_pts\<rparr> :: (nat \<rightharpoonup> bytes) nvs_state"
  let ?e = "\<lparr>np_id = 3, np_def = point_def_staticip, np_key = lit ''0''\<rparr>"
  have p: "\<forall>(on, p)\<in>set ([] @ (True, ?p) # []). point_wf p \<and> text_wf p" by (simp add: text_wf_def)
  have n: "point_name ?p = (''staticIP'', ''0'')" "entry_name ?e = (''staticIP'', ''0'')"
    by (simp_all add: sample_point_def point_put_int_def point_name_def point_type_def point_key_def field_of_cstr
      entry_name_def point_def_staticip_def)
  have e: "?e \<in> set (nv_pts ?st)" "point_name ?p = entry_name ?e" "uint (p_data_type ?p) = pd_data_type (np_def ?e)"
    using n by (simp_all add: siot_net_nvs_pts_def point_def_staticip_def)
  have t: "table_ok (nv_pts ?st)" "length (replicate 20 NUL) = 20" using tables_ok(1) by simp_all
  obtain st1 st2 pub q where "nvs_store_thread map_write ?st [(True, ?p)] = Some st1"
    "nvs_init map_read map_write sample_env (replicate 20 NUL) siot_net_nvs_pts
      \<lparr>nv_fs = nv_fs st1, nv_pts = []\<rparr> = Some (0, st2, pub)"
    "q \<in> set pub" "point_name q = point_name ?p" "same_value ?p q"
    using nvs_persist_restore[OF map_zms_ok map_writes_ok t(1) sample_env_ok t(2) p e] by auto
  then show ?thesis using n(1) by (auto simp: same_value_def INT_MIN_def INT_MAX_def)
qed

theorem nvs_boot_count_witness:
  "\<exists>z' pubs. nvs_boots map_read map_write sample_env (replicate 20 NUL) siot_simple_nvs_pts 3 Map.empty =
      Some (z', pubs) \<and> point_get_int (pubs ! 2 ! 0) = 2"
proof -
  have "boot_entry (siot_simple_nvs_pts ! 0)" "0 < length siot_simple_nvs_pts" "length (replicate 20 NUL) = 20"
    by (simp_all add: siot_simple_nvs_pts_def entry_name_def point_def_boot_count_def)
  from nvs_boot_count[OF map_zms_ok map_writes_ok tables_ok(2) sample_env_ok this(3,2,1) refl, of 3 Map.empty]
  obtain z' pubs where "nvs_boots map_read map_write sample_env (replicate 20 NUL) siot_simple_nvs_pts 3 Map.empty =
      Some (z', pubs)" "\<forall>j<3. point_get_int (pubs ! j ! 0) = sint ((0 :: 32 word) + of_nat j)" by auto
  then have "point_get_int (pubs ! 2 ! 0) = sint (2 :: 32 word)" by simp
  then show ?thesis using \<open>nvs_boots _ _ _ _ _ _ _ = _\<close> by simp
qed

theorem nvs_init_guards_witness:
  "nvs_init map_read map_write \<lparr>fe_ready = True, fe_page_rc = 0, fe_page_size = 131072,
      fe_partition_size = 131072, fe_mount_rc = 0\<rparr> (replicate 20 NUL) siot_net_nvs_pts
      \<lparr>nv_fs = Map.empty, nv_pts = []\<rparr> = Some (-1, \<lparr>nv_fs = Map.empty, nv_pts = []\<rparr>, [])"
  using nvs_init_guards[OF map_zms_ok tables_ok(1), of "replicate 20 NUL"
      "\<lparr>fe_ready = True, fe_page_rc = 0, fe_page_size = 131072, fe_partition_size = 131072, fe_mount_rc = 0\<rparr>"
      "\<lparr>nv_fs = Map.empty, nv_pts = []\<rparr>"]
  by simp

end
