(* ===== verification/Telemetry.thy ===== *)
theory Telemetry
  imports Point_Cache
begin

text \<open>
  lib/zbus.c and lib/metrics.c: what the firmware itself reports on \<open>point_chan\<close>, the board and the
  version at boot and the load and the uptime every second, and the ticker. The functions yield the points
  handed to \<open>zbus_chan_pub\<close>, in order; its result is ignored by the code.
\<close>

subsection \<open>Boot report (lib/zbus.c)\<close>

fun str_occurs :: "string \<Rightarrow> string \<Rightarrow> bool" where
  "str_occurs s [] = (s = [])"
| "str_occurs s (c # h) = (take (length s) (c # h) = s \<or> str_occurs s h)"

definition c_strstr :: "bytes \<Rightarrow> bytes \<Rightarrow> bool option" where
  \<comment> \<open>whether \<open>strstr\<close> finds the second string in the first\<close>
  "c_strstr h s = (if terminated h \<and> terminated s then Some (str_occurs (cstr s) (cstr h)) else None)"

definition bus_init :: "bytes \<Rightarrow> bytes \<Rightarrow> bytes \<Rightarrow> point list option" where
  \<comment> \<open>the arguments are CONFIG_BOARD, APP_VERSION_STRING and APP_VERSION_EXTENDED_STRING\<close>
  "bus_init board version extended = do {
     p \<leftarrow> point_set_type_key point_zero (lit ''board'') (lit ''0'');
     p \<leftarrow> point_put_string p board;
     dev \<leftarrow> c_strstr extended (lit ''dev'');
     q \<leftarrow> point_set_type_key p (lit ''versionFW'') (lit ''0'');
     q \<leftarrow> point_put_string q (if dev then extended else version);
     Some [p, q]
   }"

datatype ticker_call =
  Timer_start nat nat
    \<comment> \<open>\<open>k_timer_start\<close>, the delay and the period in milliseconds\<close>
| Timer_sync
    \<comment> \<open>\<open>k_timer_status_sync\<close>: wait for the next expiry\<close>
| Ticker_pub "8 word"

definition ticker_thread :: "nat \<Rightarrow> ticker_call list" where
  \<comment> \<open>the calls of the first \<open>n\<close> passes of the loop\<close>
  "ticker_thread n = Timer_start 500 500 # concat (replicate n [Timer_sync, Ticker_pub 0])"

subsection \<open>Metrics (lib/metrics.c)\<close>

definition DBL_UNITS :: rat where
  \<comment> \<open>how many of the smallest positive double make one\<close>
  "DBL_UNITS = 2 ^ 1074"

definition dbl_round :: "rat \<Rightarrow> rat" where
  \<comment> \<open>rounding of a number that is not negative to a finite C double, to nearest, ties to even\<close>
  "dbl_round r =
     (let x = r * DBL_UNITS; q = bit_len \<lfloor>x\<rfloor> - 53
      in of_int (rne (x / 2 ^ q)) * 2 ^ q / DBL_UNITS)"

definition cpu_usage :: "64 word \<Rightarrow> 64 word \<Rightarrow> f32" where
  \<comment> \<open>\<open>float cpu_usage = (double)total_cycles * 100 / execution_cycles\<close>\<close>
  "cpu_usage busy execution =
     (let n = dbl_round (dbl_round (of_nat (unat busy)) * 100);
          d = dbl_round (of_nat (unat execution))
      in if d = 0 then (if n = 0 then f32_nan else f32_make False (255 * 2 ^ 23))
         else f32_round False (dbl_round (n / d)))"

record runtime_sample =
  rs_rc :: int
  rs_total :: "64 word"
  rs_execution :: "64 word"
  rs_uptime :: "32 word"

definition metrics_step :: "runtime_sample \<Rightarrow> point list option" where
  \<comment> \<open>one pass of the loop of \<open>siot_metrics_thread\<close>, with what the kernel reported\<close>
  "metrics_step s =
     (if rs_rc s \<noteq> 0 then Some []
      else do {
        p \<leftarrow> point_set_type_key point_zero (lit ''metricSysCPUPercent'') (lit '''');
        let p = point_put_float p (cpu_usage (rs_total s) (rs_execution s));
        q \<leftarrow> point_set_type_key p (lit ''uptime'') (lit '''');
        let q = point_put_int q (sint (rs_uptime s));
        Some [p, q]
      })"

fun siot_metrics_thread :: "runtime_sample list \<Rightarrow> point list option" where
  "siot_metrics_thread [] = Some []"
| "siot_metrics_thread (s # ss) = do {
     ps \<leftarrow> metrics_step s;
     qs \<leftarrow> siot_metrics_thread ss;
     Some (ps @ qs)
   }"

subsection \<open>Lemmas: rounding to double\<close>

lemma DBL_UNITS: "0 < DBL_UNITS" "1 / 2 ^ 1022 * DBL_UNITS = 2 ^ 52"
  by (simp_all add: DBL_UNITS_def)

lemma dbl_round_error:
  assumes "1 / 2 ^ 1022 \<le> r"
  shows "\<bar>dbl_round r - r\<bar> \<le> r / 2 ^ 53"
proof -
  define u where "u = DBL_UNITS"
  define x where "x = r * u"
  define q where "q = bit_len \<lfloor>x\<rfloor> - 53"
  define m :: rat where "m = of_int (rne (x / 2 ^ q))"
  have u: "0 < u" using DBL_UNITS by (simp add: u_def)
  have "1 / 2 ^ 1022 * u \<le> x" unfolding x_def using assms u by (intro mult_right_mono) auto
  then have "2 ^ 52 \<le> x" unfolding u_def DBL_UNITS(2) .
  then have f: "2 ^ 52 \<le> \<lfloor>x\<rfloor>" by (simp add: le_floor_iff)
  then have "\<not> bit_len \<lfloor>x\<rfloor> \<le> 52" using bit_len_le[of "\<lfloor>x\<rfloor>" 52] by simp
  then have l: "bit_len \<lfloor>x\<rfloor> - 1 = 52 + q" by (simp add: q_def)
  have "2 ^ (52 + q) \<le> \<lfloor>x\<rfloor>" using bit_len_bounds(2)[of "\<lfloor>x\<rfloor>"] f unfolding l by simp
  then have big: "2 ^ 52 * 2 ^ q \<le> x" unfolding le_floor_iff by (simp add: power_add)
  have "\<bar>m - x / 2 ^ q\<bar> \<le> 1 / 2" using rne_bounds[of "x / 2 ^ q"] unfolding m_def by linarith
  then have "\<bar>(m - x / 2 ^ q) * 2 ^ q\<bar> \<le> 1 / 2 * 2 ^ q" unfolding abs_mult by (intro mult_mono) auto
  then have "\<bar>m * 2 ^ q - x\<bar> \<le> 2 ^ q / 2" by (simp add: left_diff_distrib)
  also have "\<dots> \<le> x / 2 ^ 53" using big by simp
  finally have "\<bar>m * 2 ^ q - x\<bar> / u \<le> x / 2 ^ 53 / u" using u by (intro divide_right_mono) auto
  moreover have "dbl_round r = m * 2 ^ q / u"
    by (simp only: dbl_round_def Let_def u_def[symmetric] x_def[symmetric] q_def[symmetric] m_def[symmetric])
  moreover have "r = x / u" using u by (simp add: x_def)
  ultimately show ?thesis using u by (simp add: diff_divide_distrib[symmetric] abs_divide)
qed

lemma dbl_round_0 [simp]: "dbl_round 0 = 0"
  by (simp add: dbl_round_def rne_def)

lemma rne_less: "x < of_int n + 1 / 2 \<Longrightarrow> rne x \<le> n"
proof -
  assume x: "x < of_int n + 1 / 2"
  show "rne x \<le> n"
  proof (cases "x \<le> of_int n")
    case False
    then have "\<lfloor>x\<rfloor> = n" using x by (intro floor_unique) auto
    then show ?thesis using x by (simp add: rne_def)
  qed (rule rne_mono_int)
qed

text \<open>A number that exceeds 100 by less than half the distance to the next float is rounded to 100.\<close>

lemma round_below_100:
  assumes "0 \<le> r" "r < 100 + 1 / 2 ^ 20"
  shows "\<exists>N\<le>100 * 2 ^ 149. f32_rep (f32_round False r) N"
proof (cases "r \<le> 100")
  case True
  have "fits24 (100 * 2 ^ 149)" by (rule fits24I) simp_all
  from round_le[OF _ _ this, of "r * 2 ^ 149"] True assms(1) show ?thesis by simp
next
  case False
  define x where "x = r * 2 ^ 149"
  have b: "of_int (100 * 2 ^ 149) \<le> x" "x < of_int (100 * 2 ^ 149 + 2 ^ 129)"
    using False assms(2) by (simp_all add: x_def)
  then have "100 * 2 ^ 149 \<le> \<lfloor>x\<rfloor>" "\<lfloor>x\<rfloor> < 100 * 2 ^ 149 + 2 ^ 129"
    by (simp_all only: le_floor_iff floor_less_iff)
  then have "bit_len \<lfloor>x\<rfloor> \<le> 156" "\<not> bit_len \<lfloor>x\<rfloor> \<le> 155" using bit_len_le[of "\<lfloor>x\<rfloor>"] by simp_all
  then have "bit_len \<lfloor>x\<rfloor> - 24 = 132" by simp
  then have s: "round_scaled x = (132, rne (x / 2 ^ 132))" by (simp add: round_scaled_def)
  have "rne (x / 2 ^ 132) \<le> 100 * 2 ^ 17" using b(2) by (intro rne_less) simp
  then have le: "rne (x / 2 ^ 132) * 2 ^ 132 \<le> 100 * 2 ^ 149" by simp
  have "0 \<le> x" using assms(1) by (simp add: x_def)
  from round_rep[OF this s] le show ?thesis
    by (intro exI[of _ "rne (x / 2 ^ 132) * 2 ^ 132"]) (simp add: x_def)
qed

lemma dbl_round_bounds:
  \<comment> \<open>away from the subnormals, rounding moves a quotient by a relative \<open>2\<^sup>-\<^sup>5\<^sup>3\<close> at most\<close>
  fixes r :: rat
  assumes "1 / 2 ^ 70 \<le> r"
  shows "(1 - 1 / 2 ^ 53) * r \<le> dbl_round r" "dbl_round r \<le> (1 + 1 / 2 ^ 53) * r"
    "r / 2 \<le> dbl_round r" "dbl_round r \<le> 2 * r"
proof -
  have "(1 :: rat) / 2 ^ 1022 \<le> 1 / 2 ^ 70" by (intro divide_left_mono power_increasing) auto
  then have "1 / 2 ^ 1022 \<le> r" using assms by (rule order_trans)
  then have "\<bar>dbl_round r - r\<bar> \<le> (1 / 2 ^ 53) * r" using dbl_round_error by simp
  moreover have "(1 - e) * r \<le> x \<and> x \<le> (1 + e) * r" if "\<bar>x - r\<bar> \<le> e * r" for x e :: rat
    using that by (simp add: algebra_simps abs_le_iff)
  ultimately show err: "(1 - 1 / 2 ^ 53) * r \<le> dbl_round r" "dbl_round r \<le> (1 + 1 / 2 ^ 53) * r" by blast+
  have r: "0 \<le> r" by (rule order_trans[OF _ assms]) simp
  have "1 / 2 * r \<le> (1 - 1 / 2 ^ 53) * r" "(1 + 1 / 2 ^ 53) * r \<le> 2 * r"
    using r by (intro mult_right_mono; simp)+
  then show "r / 2 \<le> dbl_round r" "dbl_round r \<le> 2 * r" using err by linarith+
qed

lemma cpu_quotient:
  fixes t e :: rat
  assumes "t = 0 \<or> 1 \<le> t" "t \<le> e" "1 \<le> e" "e \<le> 2 ^ 64"
  shows "dbl_round e \<noteq> 0"
    "0 \<le> dbl_round (dbl_round (dbl_round t * 100) / dbl_round e)"
    "dbl_round (dbl_round (dbl_round t * 100) / dbl_round e) < 100 + 1 / 2 ^ 20"
proof -
  define T N D where "T = dbl_round t" and "N = dbl_round (T * 100)" and "D = dbl_round e"
  define eps :: rat where "eps = 1 / 2 ^ 53"
  note err = dbl_round_bounds(1,2)[folded eps_def] and low = dbl_round_bounds(3,4)
  have eps: "1 / 2 \<le> 1 - eps" by (simp add: eps_def)
  have D: "e / 2 \<le> D" "(1 - eps) * e \<le> D" "D \<le> 2 * e"
    unfolding D_def using assms(3) by (intro low err; simp)+
  then show "dbl_round e \<noteq> 0" using assms(3) unfolding D_def by linarith
  have "0 \<le> dbl_round (N / D) \<and> dbl_round (N / D) < 100 + 1 / 2 ^ 20"
  proof (cases "t = 0")
    case True
    then show ?thesis by (simp add: N_def T_def)
  next
    case False
    then have t: "1 \<le> t" using assms(1) by simp
    have T: "t / 2 \<le> T" "T \<le> (1 + eps) * t" unfolding T_def using t by (intro low err; simp)+
    have T1: "1 / 2 ^ 70 \<le> T * 100" using T(1) t by simp
    have N: "T * 50 \<le> N" "N \<le> (1 + eps) * (T * 100)"
      unfolding N_def using low(1)[OF T1] err(2)[OF T1] by simp_all
    have pos: "0 < D" "0 < N" "0 < e" using D N T t assms by linarith+
    have e1: "0 \<le> 1 + eps" by (simp add: eps_def)
    have "T * 100 \<le> (1 + eps) * e * 100" using T(2) mult_left_mono[OF assms(2) e1] by linarith
    then have "(1 + eps) * (T * 100) \<le> (1 + eps) * ((1 + eps) * e * 100)" using e1 by (rule mult_left_mono)
    then have n: "N \<le> 100 * (1 + eps) ^ 2 * e" using N(2) by (simp add: power2_eq_square mult_ac)
    moreover have "100 * (1 + eps) ^ 2 * e / ((1 - eps) * e) = 100 * (1 + eps) ^ 2 / (1 - eps)"
      using pos by simp
    moreover have "N / D \<le> N / ((1 - eps) * e)" using D(2) pos eps by (intro divide_left_mono) auto
    moreover have "N / ((1 - eps) * e) \<le> 100 * (1 + eps) ^ 2 * e / ((1 - eps) * e)"
      using n pos eps by (intro divide_right_mono) auto
    ultimately have q: "N / D \<le> 100 * (1 + eps) ^ 2 / (1 - eps)" by linarith
    have "25 / (2 * 2 ^ 64) \<le> N / D"
      using N(1) T(1) t D(3) assms(4) pos by (intro frac_le) linarith+
    then have l: "1 / 2 ^ 70 \<le> N / D" by (rule order_trans[rotated]) simp
    have "dbl_round (N / D) \<le> (1 + eps) * (100 * (1 + eps) ^ 2 / (1 - eps))"
      using err(2)[OF l] mult_left_mono[OF q e1] by (rule order_trans)
    also have "\<dots> < 100 + 1 / 2 ^ 20" by (simp add: eps_def power2_eq_square)
    finally show ?thesis using low(1)[OF l] pos by (simp add: order_trans[rotated])
  qed
  then show "0 \<le> dbl_round (dbl_round (dbl_round t * 100) / dbl_round e)"
    "dbl_round (dbl_round (dbl_round t * 100) / dbl_round e) < 100 + 1 / 2 ^ 20"
    unfolding N_def T_def D_def by simp_all
qed

lemma cpu_usage_range:
  assumes "unat busy \<le> unat execution" "execution \<noteq> 0"
  shows "\<exists>N\<le>100 * 2 ^ 149. f32_rep (cpu_usage busy execution) N"
proof -
  define t e where "t = unat busy" and "e = unat execution"
  have te: "t = 0 \<or> 1 \<le> t" "t \<le> e" "1 \<le> e" "e \<le> 2 ^ 64"
    using assms unat64_less[of execution] unat_gt_0[of execution] by (auto simp: t_def e_def)
  then have "of_nat t = (0::rat) \<or> 1 \<le> (of_nat t :: rat)" "of_nat t \<le> (of_nat e :: rat)"
    "1 \<le> (of_nat e :: rat)" "of_nat e \<le> (of_nat (2 ^ 64) :: rat)"
    unfolding of_nat_le_iff by auto
  note q = cpu_quotient[OF this[unfolded of_nat_power of_nat_numeral]]
  show ?thesis using q(1) round_below_100[OF q(2,3)]
    unfolding cpu_usage_def Let_def t_def[symmetric] e_def[symmetric] by simp
qed

subsection \<open>Lemmas: the published points\<close>

definition named_point :: "string \<Rightarrow> string \<Rightarrow> point" where
  "named_point t k = point_zero\<lparr>p_type := field_of 24 t, p_key := field_of 23 k\<rparr>"

definition board_point :: "bytes \<Rightarrow> point" where
  "board_point board = (named_point ''board'' ''0'')\<lparr>p_data_type := 3, p_data := field_of 20 (cstr board)\<rparr>"

definition version_point :: "bytes \<Rightarrow> point" where
  "version_point v = (named_point ''versionFW'' ''0'')\<lparr>p_data_type := 3, p_data := field_of 20 (cstr v)\<rparr>"

definition cpu_point :: "runtime_sample \<Rightarrow> point" where
  "cpu_point s = point_put_float (named_point ''metricSysCPUPercent'' []) (cpu_usage (rs_total s) (rs_execution s))"

definition uptime_point :: "runtime_sample \<Rightarrow> point" where
  "uptime_point s = point_put_int ((cpu_point s)\<lparr>p_type := field_of 24 ''uptime''\<rparr>) (sint (rs_uptime s))"

definition sample_good :: "runtime_sample \<Rightarrow> bool" where
  "sample_good s = (rs_rc s = 0)"

definition sample_ok :: "runtime_sample \<Rightarrow> bool" where
  \<comment> \<open>what the kernel reports: some cycles have passed, and the busy ones are among them\<close>
  "sample_ok s = (sample_good s \<longrightarrow> rs_execution s \<noteq> 0 \<and> unat (rs_total s) \<le> unat (rs_execution s))"

lemma named_point_wf [simp]: "point_wf (named_point t k)" "point_wf ((named_point t k)\<lparr>p_data_type := d, p_data := field_of 20 v\<rparr>)"
  by (simp_all add: named_point_def point_wf_def point_zero_def)

lemma bus_init_spec:
  assumes "terminated board" "terminated version" "terminated extended"
  shows "bus_init board version extended =
    Some [board_point board, version_point (if str_occurs ''dev'' (cstr extended) then extended else version)]"
proof -
  have s: "point_set_type_key point_zero (lit ''board'') (lit ''0'') = Some (named_point ''board'' ''0'')"
    by (simp add: point_set_type_key_spec named_point_def)
  have b: "point_put_string (named_point ''board'' ''0'') board = Some (board_point board)"
    using assms by (simp add: point_put_string_spec board_point_def)
  have w: "point_wf (board_point board)" by (simp add: board_point_def)
  define q where "q = (board_point board)\<lparr>p_type := field_of 24 ''versionFW'', p_key := field_of 23 ''0''\<rparr>"
  have v: "point_set_type_key (board_point board) (lit ''versionFW'') (lit ''0'') = Some q"
    by (simp add: point_set_type_key_spec[OF w] q_def)
  have "point_wf q" using w by (simp add: q_def point_wf_def)
  then have "point_put_string q v = Some (version_point v)" if "terminated v" for v
    using that by (simp add: point_put_string_spec q_def version_point_def board_point_def named_point_def)
  then show ?thesis using assms by (simp add: bus_init_def s b v c_strstr_def)
qed

lemma metrics_step_spec: "metrics_step s = Some (if sample_good s then [cpu_point s, uptime_point s] else [])"
proof -
  have 1: "point_set_type_key point_zero (lit ''metricSysCPUPercent'') (lit '''') = Some (named_point ''metricSysCPUPercent'' [])"
    by (simp add: point_set_type_key_spec named_point_def)
  have w: "point_wf (cpu_point s)" using setters_wf(6)[OF named_point_wf(1)] by (simp add: cpu_point_def)
  have "(cpu_point s)\<lparr>p_type := field_of 24 ''uptime'', p_key := field_of 23 []\<rparr> = (cpu_point s)\<lparr>p_type := field_of 24 ''uptime''\<rparr>"
    by (simp add: cpu_point_def named_point_def point_put_float_def)
  then have "point_set_type_key (cpu_point s) (lit ''uptime'') (lit '''') = Some ((cpu_point s)\<lparr>p_type := field_of 24 ''uptime''\<rparr>)"
    by (simp add: point_set_type_key_spec[OF w])
  then show ?thesis using 1 by (simp add: metrics_step_def sample_good_def Let_def uptime_point_def flip: cpu_point_def)
qed

lemma metrics_thread_spec:
  "siot_metrics_thread ss = Some (concat (map (\<lambda>s. [cpu_point s, uptime_point s]) (filter sample_good ss)))"
  by (induction ss) (simp_all add: metrics_step_spec)

lemma report_fields [simp]:
  "point_type (board_point b) = ''board''" "point_key (board_point b) = ''0''" "p_data_type (board_point b) = 3"
  "point_type (version_point b) = ''versionFW''" "point_key (version_point b) = ''0''" "p_data_type (version_point b) = 3"
  "point_type (cpu_point s) = ''metricSysCPUPercent''" "point_key (cpu_point s) = []" "p_data_type (cpu_point s) = 1"
  "point_type (uptime_point s) = ''uptime''" "point_key (uptime_point s) = []" "p_data_type (uptime_point s) = 2"
  by (simp_all add: point_key_def point_type_def board_point_def version_point_def cpu_point_def uptime_point_def
      named_point_def point_put_float_def point_put_int_def field_of_cstr)

lemma report_names:
  "point_name (normal_key (board_point b)) = (''board'', ''0'')"
  "point_name (normal_key (version_point b)) = (''versionFW'', ''0'')"
  "point_name (normal_key (cpu_point s)) = (''metricSysCPUPercent'', ''0'')"
  "point_name (normal_key (uptime_point s)) = (''uptime'', ''0'')"
  by (simp_all add: point_name_def normal_key_key)

lemma report_values:
  "point_get_float (cpu_point s) = cpu_usage (rs_total s) (rs_execution s)"
  "point_get_int (uptime_point s) = sint (rs_uptime s)"
  "cstr (p_data (board_point b)) = take 19 (cstr b)" "cstr (p_data (version_point b)) = take 19 (cstr b)"
proof -
  show "point_get_float (cpu_point s) = cpu_usage (rs_total s) (rs_execution s)"
    by (simp add: cpu_point_def get_put_float)
  have "INT_MIN \<le> sint (rs_uptime s)" "sint (rs_uptime s) \<le> INT_MAX"
    using sint_greater_eq[of "rs_uptime s"] sint_less[of "rs_uptime s"] by (simp_all add: INT_MIN_def INT_MAX_def)
  then show "point_get_int (uptime_point s) = sint (rs_uptime s)"
    by (simp add: uptime_point_def get_put_int)
qed (simp_all add: board_point_def version_point_def field_of_cstr)

lemma cpu_range:
  assumes "sample_ok s" "sample_good s"
  shows "\<not> f32_is_nan (cpu_usage (rs_total s) (rs_execution s)) \<and> 0 \<le> f32_val (cpu_usage (rs_total s) (rs_execution s)) \<and>
    f32_val (cpu_usage (rs_total s) (rs_execution s)) \<le> 100 \<and> finite_int_range (cpu_usage (rs_total s) (rs_execution s))"
proof -
  obtain N where N: "N \<le> 100 * 2 ^ 149" "f32_rep (cpu_usage (rs_total s) (rs_execution s)) N"
    using assms cpu_usage_range by (auto simp: sample_ok_def)
  have "(of_int N :: rat) \<le> of_int (100 * 2 ^ 149)" using N(1) by (simp only: of_int_le_iff)
  then have "f32_val (cpu_usage (rs_total s) (rs_execution s)) \<le> 100" "0 \<le> f32_val (cpu_usage (rs_total s) (rs_execution s))"
    using f32_repD(1,5)[OF N(2)] by simp_all
  then show ?thesis using f32_repD(2,3)[OF N(2)] by (simp add: finite_int_range_def)
qed

lemma report_wf:
  "point_wf (board_point b)" "point_wf (version_point b)" "point_wf (cpu_point s)" "point_wf (uptime_point s)"
proof -
  show c: "point_wf (cpu_point s)" using setters_wf(6)[OF named_point_wf(1)] by (simp add: cpu_point_def)
  then have "point_wf ((cpu_point s)\<lparr>p_type := field_of 24 ''uptime''\<rparr>)" by (simp add: point_wf_def)
  then show "point_wf (uptime_point s)" using setters_wf(5) by (simp add: uptime_point_def)
qed (simp_all add: board_point_def version_point_def)

lemma report_valid:
  "slot_valid (board_point b)" "slot_valid (version_point b)" "slot_valid (cpu_point s)" "slot_valid (uptime_point s)"
  by (simp_all add: slot_valid_def slot_free_def bad_data_type_iff)

lemma filter_report:
  "filter (\<lambda>q. point_name q = k) (map normal_key [board_point board, version_point v]) =
    (if k = (''board'', ''0'') then [normal_key (board_point board)]
     else if k = (''versionFW'', ''0'') then [normal_key (version_point v)] else [])"
  "filter (\<lambda>q. point_name q = k) (map normal_key (concat (map (\<lambda>s. [cpu_point s, uptime_point s]) good))) =
    (if k = (''metricSysCPUPercent'', ''0'') then map (\<lambda>s. normal_key (cpu_point s)) good
     else if k = (''uptime'', ''0'') then map (\<lambda>s. normal_key (uptime_point s)) good else [])"
  by (auto simp: report_names) (induction good; auto simp: report_names)+

lemma map_in_shuffles: "zs \<in> shuffles xs ys \<Longrightarrow> map f zs \<in> shuffles (map f xs) (map f ys)"
  by (induction xs ys arbitrary: zs rule: shuffles.induct) auto

lemma shuffles_map_filter:
  assumes "zs \<in> shuffles xs ys"
  shows "filter P (map f zs) \<in> shuffles (filter P (map f xs)) (filter P (map f ys))"
  using map_in_shuffles[OF assms, of f] filter_shuffles[of P "map f xs" "map f ys"] by blast

lemma report_cached:
  assumes "4 \<le> n" "n \<le> 47"
    and "ps \<in> shuffles [board_point board, version_point v] (concat (map (\<lambda>s. [cpu_point s, uptime_point s]) good))"
      (is "_ \<in> shuffles ?boot ?metrics")
  shows "\<exists>st. point_cache_thread True (cache_init n) (map (Pair True) ps) = Some (st, []) \<and>
    cache_view st (''board'', ''0'') = Some (normal_key (board_point board)) \<and>
    cache_view st (''versionFW'', ''0'') = Some (normal_key (version_point v)) \<and>
    (if good = [] then cache_view st (''metricSysCPUPercent'', ''0'') = None \<and> cache_view st (''uptime'', ''0'') = None
     else cache_view st (''uptime'', ''0'') = Some (normal_key (uptime_point (last good))) \<and>
       cache_view st (''metricSysCPUPercent'', ''0'') = Some (normal_key (cpu_point (last good))))"
proof -
  define ns where "ns = {(''board'', ''0''), (''versionFW'', ''0''), (''metricSysCPUPercent'', ''0''), (''uptime'', ''0'')}"
  have ns: "finite ns" "card ns \<le> n" using assms(1) by (simp_all add: ns_def)
  have "set ps = set ?boot \<union> set ?metrics" using assms(3) by (rule set_shuffles)
  then have "\<forall>p\<in>set ps. point_wf p \<and> slot_valid p \<and> point_name (normal_key p) \<in> ns"
    by (auto simp: report_wf report_valid report_names ns_def)
  from cache_thread_accepts[OF ns assms(2) this, of True] obtain st where
    st: "point_cache_thread True (cache_init n) (map (Pair True) ps) = Some (st, [])" and
    v: "\<And>k. cache_view st k = (let qs = filter (\<lambda>q. point_name q = k) (map normal_key ps)
      in if qs = [] then None else Some (last qs))" by auto
  note f = shuffles_map_filter[OF assms(3), of _ normal_key, unfolded filter_report]
  show ?thesis using f[of "\<lambda>q. point_name q = (''board'', ''0'')"] f[of "\<lambda>q. point_name q = (''versionFW'', ''0'')"]
      f[of "\<lambda>q. point_name q = (''metricSysCPUPercent'', ''0'')"] f[of "\<lambda>q. point_name q = (''uptime'', ''0'')"]
    unfolding filter_report by (intro exI[of _ st]) (simp add: st v Let_def last_map)
qed

subsection \<open>Property\<close>

text \<open>
  C37: The firmware's reports reach the cache: the boot report and the metrics of any sequence of
  kernel samples, interleaved in any way, are defined, fit a cache of four slots, and leave in it the
  board name and the version (cut to 19 characters; the extended version if it is a
  development version) and, from the last sample that did not fail, the uptime and a CPU load
  between 0 and 100, all under the key 0.
\<close>

theorem telemetry_cached:
  assumes "terminated board" "terminated version" "terminated extended"
    and "\<forall>s\<in>set ss. sample_ok s" "4 \<le> n" "n \<le> 47"
  shows "\<exists>boot metrics. bus_init board version extended = Some boot \<and> siot_metrics_thread ss = Some metrics \<and>
    (\<forall>ps\<in>shuffles boot metrics. \<exists>st. point_cache_thread True (cache_init n) (map (Pair True) ps) = Some (st, []) \<and>
      (\<exists>p. cache_view st (''board'', ''0'') = Some p \<and> cstr (p_data p) = take 19 (cstr board)) \<and>
      (\<exists>p. cache_view st (''versionFW'', ''0'') = Some p \<and> cstr (p_data p) =
        take 19 (cstr (if str_occurs ''dev'' (cstr extended) then extended else version))) \<and>
      (let good = filter (\<lambda>s. rs_rc s = 0) ss in if good = []
       then cache_view st (''metricSysCPUPercent'', ''0'') = None \<and> cache_view st (''uptime'', ''0'') = None
       else (\<exists>p. cache_view st (''uptime'', ''0'') = Some p \<and> point_get_int p = sint (rs_uptime (last good))) \<and>
         (\<exists>p. cache_view st (''metricSysCPUPercent'', ''0'') = Some p \<and>
           point_get_float p = cpu_usage (rs_total (last good)) (rs_execution (last good)) \<and>
           \<not> f32_is_nan (point_get_float p) \<and> 0 \<le> f32_val (point_get_float p) \<and> f32_val (point_get_float p) \<le> 100)))"
proof -
  define v where "v = (if str_occurs ''dev'' (cstr extended) then extended else version)"
  define good where "good = filter sample_good ss"
  define boot where "boot = [board_point board, version_point v]"
  define metrics where "metrics = concat (map (\<lambda>s. [cpu_point s, uptime_point s]) good)"
  have good: "\<forall>s\<in>set good. sample_ok s \<and> sample_good s" using assms(4) by (auto simp: good_def)
  have last: "sample_ok (last good)" "sample_good (last good)" if "good \<noteq> []" using good last_in_set[OF that] by auto
  have get: "point_get_float (normal_key p) = point_get_float p" "point_get_int (normal_key p) = point_get_int p" for p
    by (simp_all add: point_get_float_def point_get_int_def)
  have g: "good = filter (\<lambda>s. rs_rc s = 0) ss" by (simp add: good_def sample_good_def[abs_def])
  have runs: "bus_init board version extended = Some boot" "siot_metrics_thread ss = Some metrics"
    using bus_init_spec[OF assms(1-3)] by (simp_all add: metrics_thread_spec boot_def metrics_def good_def v_def)
  show ?thesis
    unfolding g[symmetric] v_def[symmetric] Let_def
  proof (rule exI[of _ boot], rule exI[of _ metrics], intro conjI ballI)
    fix ps assume "ps \<in> shuffles boot metrics"
    from report_cached[OF assms(5,6) this[unfolded boot_def metrics_def]] obtain st where "point_cache_thread True (cache_init n) (map (Pair True) ps) = Some (st, [])"
      and v: "cache_view st (''board'', ''0'') = Some (normal_key (board_point board))"
        "cache_view st (''versionFW'', ''0'') = Some (normal_key (version_point v))"
        "if good = [] then cache_view st (''metricSysCPUPercent'', ''0'') = None \<and> cache_view st (''uptime'', ''0'') = None
         else cache_view st (''uptime'', ''0'') = Some (normal_key (uptime_point (last good))) \<and>
           cache_view st (''metricSysCPUPercent'', ''0'') = Some (normal_key (cpu_point (last good)))" by blast
    then show "\<exists>st. point_cache_thread True (cache_init n) (map (Pair True) ps) = Some (st, []) \<and>
      (\<exists>p. cache_view st (''board'', ''0'') = Some p \<and> cstr (p_data p) = take 19 (cstr board)) \<and>
      (\<exists>p. cache_view st (''versionFW'', ''0'') = Some p \<and> cstr (p_data p) = take 19 (cstr v)) \<and>
      (if good = [] then cache_view st (''metricSysCPUPercent'', ''0'') = None \<and> cache_view st (''uptime'', ''0'') = None
       else (\<exists>p. cache_view st (''uptime'', ''0'') = Some p \<and> point_get_int p = sint (rs_uptime (last good))) \<and>
         (\<exists>p. cache_view st (''metricSysCPUPercent'', ''0'') = Some p \<and>
           point_get_float p = cpu_usage (rs_total (last good)) (rs_execution (last good)) \<and>
           \<not> f32_is_nan (point_get_float p) \<and> 0 \<le> f32_val (point_get_float p) \<and> f32_val (point_get_float p) \<le> 100))"
      using cpu_range[OF last] by (cases "good = []") (simp_all add: get report_values)
  qed (fact runs)+
qed

theorem telemetry_cached_witness:
  "\<exists>boot metrics. bus_init (lit ''esp32_poe'') (lit ''1.2.0'') (lit ''1.2.0-dev'') = Some boot \<and>
    siot_metrics_thread [\<lparr>rs_rc = 0, rs_total = 250, rs_execution = 1000, rs_uptime = 7\<rparr>, \<lparr>rs_rc = - 22, rs_total = 0, rs_execution = 0, rs_uptime = 8\<rparr>] = Some metrics \<and>
    (\<forall>ps\<in>shuffles boot metrics. \<exists>st p q. point_cache_thread True (cache_init 4) (map (Pair True) ps) = Some (st, []) \<and>
      cache_view st (''uptime'', ''0'') = Some p \<and> point_get_int p = 7 \<and>
      cache_view st (''versionFW'', ''0'') = Some q \<and> cstr (p_data q) = ''1.2.0-dev'')"
  using telemetry_cached[OF terminated_lit[of "''esp32_poe''"] terminated_lit[of "''1.2.0''"] terminated_lit[of "''1.2.0-dev''"],
    of "[\<lparr>rs_rc = 0, rs_total = 250, rs_execution = 1000, rs_uptime = 7\<rparr>, \<lparr>rs_rc = - 22, rs_total = 0, rs_execution = 0, rs_uptime = 8\<rparr>]" 4]
  by (simp add: sample_ok_def sample_good_def) blast

end
