(* ===== verification/Firmware.thy ===== *)
theory Firmware
  imports Web Nvs_Store Telemetry
begin

text \<open>
  The firmware of apps/siot-net as one system: the producers of points (the metrics thread, the
  shell, the web server) publish on \<open>point_chan\<close>; the bus copies each message into the queue of every
  observer, and the observers (the cache thread, the web server's thread, the store thread) take
  the messages from their queues in their own time. A step is one operation of one thread; the
  steps come in any order. The operations are those of the component theories; this theory adds
  the queues of the bus and what the observers together show.
\<close>

subsection \<open>State and steps\<close>

record 'z firmware =
  fw_cache :: cache_state
  fw_cache_q :: "point list"
    \<comment> \<open>the messages waiting at \<open>point_cache_sub\<close>\<close>
  fw_web :: web_state
  fw_web_q :: "point list"
    \<comment> \<open>\<open>web_sub\<close>\<close>
  fw_store :: "'z nvs_state"
  fw_store_q :: "point list"
    \<comment> \<open>\<open>state_sub\<close> of lib/nvs.c\<close>
  fw_published :: "point list"
    \<comment> \<open>every message published on \<open>point_chan\<close> since the boot\<close>

record 'z bus_env =
  be_encode :: arr_encoder
  be_parse :: arr_parser
  be_board :: bytes
  be_timegm :: "tm \<Rightarrow> int"
  be_zwrite :: "'z zwriter"

definition fw_publish :: "point list \<Rightarrow> 'z firmware \<Rightarrow> 'z firmware" where
  \<comment> \<open>\<open>zbus_chan_pub\<close> for each of the points: a copy for every observer\<close>
  "fw_publish ps s = s\<lparr>fw_cache_q := fw_cache_q s @ ps, fw_web_q := fw_web_q s @ ps,
     fw_store_q := fw_store_q s @ ps, fw_published := fw_published s @ ps\<rparr>"

fun deliver :: "('s \<Rightarrow> point \<Rightarrow> 's option) \<Rightarrow> 's \<Rightarrow> point list \<Rightarrow> ('s \<times> point list) option" where
  \<comment> \<open>an observer takes the next message from its queue, or goes on waiting\<close>
  "deliver handle s [] = Some (s, [])"
| "deliver handle s (p # q) = map_option (\<lambda>s'. (s', q)) (handle s p)"

definition cache_receive :: "cache_state \<Rightarrow> point \<Rightarrow> cache_state option" where
  "cache_receive c p = map_option fst (point_cache_step True c True p)"

datatype fw_event =
  Fw_metrics runtime_sample
| Fw_send "bytes list"
    \<comment> \<open>the shell command \<open>p\<close>\<close>
| Fw_command cache_event
    \<comment> \<open>another command of the shell\<close>
| Fw_request http_request
| Fw_cache
    \<comment> \<open>the next message of the cache thread, and so on\<close>
| Fw_web
| Fw_store

definition fw_step :: "'z bus_env \<Rightarrow> fw_event \<Rightarrow> 'z firmware \<Rightarrow> 'z firmware option" where
  "fw_step env e s = (case e of
     Fw_metrics r \<Rightarrow> do {
       ps \<leftarrow> metrics_step r;
       Some (fw_publish ps s)
     }
   | Fw_send argv \<Rightarrow> do {
       (ret, ps) \<leftarrow> handle_sendpoint (be_timegm env) argv;
       Some (fw_publish ps s)
     }
   | Fw_command c \<Rightarrow> do {
       (c', console) \<leftarrow> cache_handle True (be_encode env) c (fw_cache s);
       Some (s\<lparr>fw_cache := c'\<rparr>)
     }
   | Fw_request rq \<Rightarrow> do {
       (ret, w, resp, ps) \<leftarrow> v1_handler (be_encode env) (be_parse env) (be_board env) rq (fw_web s);
       Some (fw_publish ps (s\<lparr>fw_web := w\<rparr>))
     }
   | Fw_cache \<Rightarrow> do {
       (c, q) \<leftarrow> deliver cache_receive (fw_cache s) (fw_cache_q s);
       Some (s\<lparr>fw_cache := c, fw_cache_q := q\<rparr>)
     }
   | Fw_web \<Rightarrow> do {
       (w, q) \<leftarrow> deliver (\<lambda>w. web_step w True) (fw_web s) (fw_web_q s);
       Some (s\<lparr>fw_web := w, fw_web_q := q\<rparr>)
     }
   | Fw_store \<Rightarrow> do {
       (st, q) \<leftarrow> deliver (\<lambda>st. nvs_store_step (be_zwrite env) st True) (fw_store s) (fw_store_q s);
       Some (s\<lparr>fw_store := st, fw_store_q := q\<rparr>)
     })"

fun fw_run :: "'z bus_env \<Rightarrow> fw_event list \<Rightarrow> 'z firmware \<Rightarrow> 'z firmware option" where
  "fw_run env [] s = Some s"
| "fw_run env (e # es) s = do {
     s \<leftarrow> fw_step env e s;
     fw_run env es s
   }"

definition fw_start :: "nat \<Rightarrow> 'z nvs_state \<Rightarrow> point list \<Rightarrow> nat \<Rightarrow> 'z firmware" where
  \<comment> \<open>after \<open>bus_init\<close> and \<open>nvs_init\<close>, which publish \<open>boot\<close>: the cache and the web server are static
    observers, the store thread attaches itself after the first \<open>k\<close> of these messages\<close>
  "fw_start n st boot k = \<lparr>fw_cache = cache_init n, fw_cache_q = boot, fw_web = web_init, fw_web_q = boot,
     fw_store = st, fw_store_q = drop k boot, fw_published = boot\<rparr>"

record 'z power_on =
  po_board :: bytes
  po_version :: bytes
  po_extended :: bytes
    \<comment> \<open>the strings of the build: board, version, extended version\<close>
  po_flash :: flash_env
  po_fs :: 'z
  po_table :: "nvs_point list"
  po_junk :: bytes
    \<comment> \<open>the initial content of a local of \<open>nvs_init\<close>\<close>
  po_slots :: nat
    \<comment> \<open>the configured size of the cache\<close>
  po_attached :: nat
    \<comment> \<open>how many messages of the boot are published before the store thread attaches itself or handled
      before it has its table\<close>

definition fw_boot :: "'z zreader \<Rightarrow> 'z bus_env \<Rightarrow> 'z power_on \<Rightarrow> 'z firmware option" where
  \<comment> \<open>\<open>bus_init\<close> runs before main, which calls \<open>nvs_init\<close>; its result is ignored\<close>
  "fw_boot zread env po = do {
     report \<leftarrow> bus_init (po_board po) (po_version po) (po_extended po);
     (rc, st, restored) \<leftarrow> nvs_init zread (be_zwrite env) (po_flash po) (po_junk po) (po_table po)
                             \<lparr>nv_fs = po_fs po, nv_pts = []\<rparr>;
     Some (fw_start (po_slots po) st (report @ restored) (po_attached po))
   }"

subsection \<open>The contract of an observer\<close>

definition latest :: "(point \<Rightarrow> name) \<Rightarrow> (point \<Rightarrow> 'v) \<Rightarrow> (name \<Rightarrow> 'v) \<Rightarrow> point list \<Rightarrow> name \<Rightarrow> 'v" where
  \<comment> \<open>the value of the last point with a name, or the initial value of the name\<close>
  "latest nm val m ps k = (let qs = filter (\<lambda>p. nm p = k) ps in if qs = [] then m k else val (last qs))"

definition follows ::
  "(point \<Rightarrow> name) \<Rightarrow> (point \<Rightarrow> 'v) \<Rightarrow> (name \<Rightarrow> 'v) \<Rightarrow> point list \<Rightarrow> point list \<Rightarrow> (name \<Rightarrow> 'v) \<Rightarrow> bool" where
  \<comment> \<open>a view with the messages \<open>q\<close> still to come is up to date for every name they do not carry\<close>
  "follows nm val m ps q v = ((\<exists>pre. ps = pre @ q) \<and>
     (\<forall>k. (\<forall>p\<in>set q. nm p \<noteq> k) \<longrightarrow> v k = latest nm val m ps k))"

lemma latest_append: "latest nm val m (ps @ qs) = latest nm val (latest nm val m ps) qs"
  by (rule ext) (simp add: latest_def Let_def)

lemma latest_unnamed: "\<forall>p\<in>set qs. nm p \<noteq> k \<Longrightarrow> latest nm val m qs k = m k"
  by (simp add: latest_def Let_def filter_empty_conv)

lemma latest_Cons: "\<forall>q\<in>set qs. nm q \<noteq> k \<Longrightarrow> latest nm val m (p # qs) k = (if nm p = k then val p else m k)"
  by (simp add: latest_def Let_def filter_False)

lemma follows_start: "(\<And>k. (\<forall>p\<in>set ps. nm p \<noteq> k) \<Longrightarrow> v k = m k) \<Longrightarrow> follows nm val m ps ps v"
  by (auto simp: follows_def latest_unnamed)

lemma follows_publish:
  \<comment> \<open>new messages; the observer may already show some of them\<close>
  assumes "follows nm val m ps q v" "\<And>k. (\<forall>p\<in>set new. nm p \<noteq> k) \<Longrightarrow> v' k = v k"
  shows "follows nm val m (ps @ new) (q @ new) v'"
  using assms by (auto simp: follows_def latest_append latest_unnamed)

lemma follows_done: "follows nm val m ps [] v \<Longrightarrow> v = latest nm val m ps"
  by (auto simp: follows_def)

locale observer =
  fixes handle :: "'s \<Rightarrow> point \<Rightarrow> 's option"
    and nm :: "point \<Rightarrow> name"
    and val :: "point \<Rightarrow> 'v"
    and view :: "'s \<Rightarrow> name \<Rightarrow> 'v"
    and ok :: "'s \<Rightarrow> bool"
    and fit :: "point \<Rightarrow> bool"
  assumes handle_law: "ok s \<Longrightarrow> fit p \<Longrightarrow>
    \<exists>s'. handle s p = Some s' \<and> ok s' \<and> view s' = (view s)(nm p := val p)"
begin

lemma handle_follows:
  assumes "ok s" "fit p" "follows nm val m ps (p # q) (view s)"
  shows "\<exists>s'. handle s p = Some s' \<and> ok s' \<and> follows nm val m ps q (view s')"
proof -
  obtain s' where s': "handle s p = Some s'" "ok s'" "view s' = (view s)(nm p := val p)"
    using handle_law[OF assms(1,2)] by blast
  obtain pre where pre: "ps = pre @ p # q"
    and v: "\<And>k. (\<forall>r\<in>set (p # q). nm r \<noteq> k) \<Longrightarrow> view s k = latest nm val m ps k"
    using assms(3) by (auto simp: follows_def)
  have "view s' k = latest nm val m ps k" if k: "\<forall>r\<in>set q. nm r \<noteq> k" for k
    using v[of k] k by (auto simp: s'(3) pre latest_append latest_Cons)
  then show ?thesis using s' pre by (auto simp: follows_def intro: exI[of _ "pre @ [p]"])
qed

lemma deliver_follows:
  assumes "ok s" "\<forall>p\<in>set q. fit p" "follows nm val m ps q (view s)"
  shows "\<exists>s'. deliver handle s q = Some (s', tl q) \<and> ok s' \<and> follows nm val m ps (tl q) (view s')"
proof (cases q)
  case (Cons p q')
  then show ?thesis using handle_follows[of s p m ps q'] assms by auto
qed (use assms in simp)

end

subsection \<open>The observers\<close>

definition room :: "name set \<Rightarrow> point \<Rightarrow> bool" where
  \<comment> \<open>a point the arrays have a slot for and can print again\<close>
  "room ns p = (slot_valid p \<and> printable p \<and> point_name (normal_key p) \<in> ns)"

definition fit :: "name set \<Rightarrow> point \<Rightarrow> bool" where
  "fit ns p = (point_wf p \<and> text_wf p \<and> room ns p)"

lemma fit_normal_key [simp]: "fit ns p \<Longrightarrow> fit ns (normal_key p)"
  using normal_key_wf[of p] by (simp add: fit_def room_def text_wf_def)

definition slots_for :: "name set \<Rightarrow> point list \<Rightarrow> bool" where
  \<comment> \<open>an array that holds only names of \<open>ns\<close> and has a slot for each of them\<close>
  "slots_for ns pts = (array_ok pts \<and> occupied_by ns pts \<and> finite ns \<and> card ns \<le> length pts)"

lemma array_accepts:
  assumes "slots_for ns pts" "fit ns p"
  shows "\<exists>pts'. points_merge pts p = Some (0, pts', normal_key p) \<and> slots_for ns pts' \<and> length pts' = length pts \<and>
    point_map pts' = (point_map pts)(point_name (normal_key p) \<mapsto> normal_key p)"
proof -
  have a: "array_ok pts" "names_unique pts" "array_wf pts" "occupied_by ns pts" "finite ns" "card ns \<le> length pts"
    using assms(1) by (simp_all add: slots_for_def array_ok_def)
  have p: "point_wf p" "slot_valid (normal_key p)" "point_name (normal_key p) \<in> ns"
    using assms(2) by (simp_all add: fit_def room_def)
  obtain r pts' where m: "merge_spec pts (normal_key p) = (r, pts')" by fastforce
  then have r: "r = 0" "occupied_by ns pts'" using merge_accepts[OF a(1,4,5,6) p(2,3)] by simp_all
  note c = merge_spec_correct[OF a(2,3) normal_key_wf[OF p(1)] m]
  have "points_merge pts p = Some (r, pts', normal_key p)"
    using points_merge_spec[of pts p] a(3) p(1) m by (simp add: array_wf_def)
  then show ?thesis using c r a(5,6) p(2) by (auto simp: slots_for_def array_ok_def map_merge_def)
qed

lemma slots_for_zero: "finite ns \<Longrightarrow> card ns \<le> n \<Longrightarrow> slots_for ns (replicate n point_zero)"
proof -
  have "slot_free point_zero"
    by (simp add: point_zero_def slot_free_def point_type_def cstr_replicate[of _ "[]", simplified])
  then show "finite ns \<Longrightarrow> card ns \<le> n \<Longrightarrow> slots_for ns (replicate n point_zero)"
    using zero_array[of n] by (simp add: slots_for_def array_ok_def occupied_by_def)
qed

text \<open>The cache shows the last point of every name, under its normalised key.\<close>

abbreviation shown_name :: "point \<Rightarrow> name" where "shown_name p \<equiv> point_name (normal_key p)"
abbreviation shown_point :: "point \<Rightarrow> point option" where "shown_point p \<equiv> Some (normal_key p)"

definition cache_fits :: "nat \<Rightarrow> name set \<Rightarrow> cache_state \<Rightarrow> bool" where
  "cache_fits n ns c = (cache_ok n c \<and> cache_printable c \<and> slots_for ns (cs_cache c))"

interpretation cache_observer: observer cache_receive shown_name shown_point cache_view "cache_fits n ns" "fit ns" for n ns
proof
  fix c p assume c: "cache_fits n ns c" and p: "fit ns p"
  have "event_ok (Ev_message True p)" using p by (simp add: fit_def room_def event_ok_def)
  then obtain c' l where s: "point_cache_step True c True p = Some (c', l)" "cache_ok n c'" "cache_printable c'"
    using point_cache_step_spec[of n c True p] c by (auto simp: cache_fits_def)
  obtain pts' where m: "points_merge (cs_cache c) p = Some (0, pts', normal_key p)" "slots_for ns pts'"
    "point_map pts' = (point_map (cs_cache c))(shown_name p \<mapsto> normal_key p)"
    using array_accepts[of ns "cs_cache c" p] c p by (auto simp: cache_fits_def)
  have "cs_cache c' = pts'"
    using s(1) m(1) by (auto simp: point_cache_step_def point_cache_merge_def split: Option.bind_splits if_splits)
  then show "\<exists>c'. cache_receive c p = Some c' \<and> cache_fits n ns c' \<and>
      cache_view c' = (cache_view c)(shown_name p := shown_point p)"
    using s m by (simp add: cache_receive_def cache_fits_def cache_view_def)
qed

text \<open>So does the web server's array.\<close>

definition web_fits :: "name set \<Rightarrow> web_state \<Rightarrow> bool" where
  "web_fits ns w = (web_ok w \<and> slots_for ns (ws_points w))"

interpretation web_observer:
  observer "\<lambda>w. web_step w True" shown_name shown_point web_view "web_fits ns" "fit ns" for ns
proof
  fix w p assume w: "web_fits ns w" and p: "fit ns p"
  then obtain w' where s: "web_step w True p = Some w'" "web_ok w'"
    using web_step_spec[of w p True] by (auto simp: web_fits_def fit_def room_def)
  obtain pts' where m: "points_merge (ws_points w) p = Some (0, pts', normal_key p)" "slots_for ns pts'"
    "point_map pts' = (point_map (ws_points w))(shown_name p \<mapsto> normal_key p)"
    using array_accepts[of ns "ws_points w" p] w p by (auto simp: web_fits_def)
  have "ws_points w' = pts'" using s(1) m(1) by (auto simp: web_step_def)
  then show "\<exists>w'. web_step w True p = Some w' \<and> web_fits ns w' \<and> web_view w' = (web_view w)(shown_name p := shown_point p)"
    using s m by (simp add: web_fits_def web_view_def)
qed

text \<open>The store keeps the record of the last point of every name of its table.\<close>

definition table_record :: "nvs_point list \<Rightarrow> point \<Rightarrow> bytes option" where
  "table_record tbl p = (case entry_of tbl (point_name p) of None \<Rightarrow> None | Some e \<Rightarrow> record_of p)"

definition store_view :: "('z \<Rightarrow> nat \<rightharpoonup> bytes) \<Rightarrow> nvs_point list \<Rightarrow> 'z nvs_state \<Rightarrow> name \<rightharpoonup> bytes" where
  "store_view content tbl st k = (case entry_of tbl k of None \<Rightarrow> None | Some e \<Rightarrow> content (nv_fs st) (unat (np_id e)))"

definition store_fits ::
  "'z zreader \<Rightarrow> 'z zwriter \<Rightarrow> ('z \<Rightarrow> nat \<rightharpoonup> bytes) \<Rightarrow> nvs_point list \<Rightarrow> 'z nvs_state \<Rightarrow> bool" where
  "store_fits zread zwrite content tbl st =
     (zms_ok zread zwrite content \<and> writes_ok zwrite \<and> table_ok tbl \<and> nv_pts st = tbl)"

interpretation store_observer:
  observer "\<lambda>st. nvs_store_step zwrite st True" point_name "table_record tbl" "store_view content tbl"
    "store_fits zread zwrite content tbl" "fit ns" for zread zwrite content tbl ns
proof
  fix st p assume st: "store_fits zread zwrite content tbl st" and p: "fit ns p"
  then have h: "zms_ok zread zwrite content" "writes_ok zwrite" "table_ok tbl" "nv_pts st = tbl"
    "\<forall>e\<in>set (nv_pts st). entry_ok e" "\<forall>(on, q)\<in>set [(True, p)]. point_wf q \<and> text_wf q"
    by (auto simp: store_fits_def table_ok_def fit_def)
  obtain st' where s: "nvs_store_thread zwrite st [(True, p)] = Some st'" "nv_pts st' = tbl"
    "content (nv_fs st') = nvs_update tbl p (content (nv_fs st))"
    using nvs_thread_spec[OF h(1,2,5,6)] h(4) by auto
  have "store_view content tbl st' k = ((store_view content tbl st)(point_name p := table_record tbl p)) k" for k
  proof (cases "entry_of tbl k")
    case (Some e)
    note e = entry_of_Some[OF Some]
    have "unat (np_id e') \<noteq> unat (np_id e)" if "entry_of tbl (point_name p) = Some e'" "e' \<noteq> e" for e'
      using entry_of_Some[OF that(1)] e that(2) h(3) unsigned_word_eqI[of "np_id e'" "np_id e"]
      by (auto simp: table_ok_def distinct_map dest: inj_onD)
    moreover have "entry_name e' \<noteq> point_name p \<Longrightarrow> entry_of tbl (point_name p) \<noteq> Some e'" for e'
      using entry_of_Some by blast
    ultimately show ?thesis using Some e
      by (cases "entry_of tbl (point_name p)") (auto simp: store_view_def table_record_def s(3) nvs_update_def)
  qed (auto simp: store_view_def table_record_def)
  then show "\<exists>st'. nvs_store_step zwrite st True p = Some st' \<and> store_fits zread zwrite content tbl st' \<and>
      store_view content tbl st' = (store_view content tbl st)(point_name p := table_record tbl p)"
    using s h by (intro exI[of _ st']) (auto simp: store_fits_def split: Option.bind_splits)
qed

subsection \<open>Admissible events and reachable states\<close>

definition env_fits :: "'z zreader \<Rightarrow> ('z \<Rightarrow> nat \<rightharpoonup> bytes) \<Rightarrow> 'z bus_env \<Rightarrow> bool" where
  \<comment> \<open>the libraries behave as documented, and the board's name fits the reply\<close>
  "env_fits zread content env = (encoder_ok (be_encode env) \<and> terminated (be_board env) \<and>
     length (cstr (be_board env)) < 2048 \<and> zms_ok zread (be_zwrite env) content \<and> writes_ok (be_zwrite env))"

definition start_fits :: "nat \<Rightarrow> name set \<Rightarrow> nvs_point list \<Rightarrow> point list \<Rightarrow> nat \<Rightarrow> bool" where
  \<comment> \<open>both arrays have a slot for every name in use, and the boot publishes only such names\<close>
  "start_fits n ns tbl boot k = (finite ns \<and> card ns \<le> n \<and> n \<le> 47 \<and> card ns \<le> 40 \<and> table_ok tbl \<and>
     (\<forall>p\<in>set boot. fit ns p) \<and> k \<le> length boot)"

definition args_mirror :: "bytes list \<Rightarrow> point_js" where
  "args_mirror argv = \<lparr>js_t = Ptr (argv ! 1), js_k = Ptr (argv ! 2), js_dt = Ptr (argv ! 3),
     js_start = Ptr (argv ! 4), js_length = length (cstr (argv ! 4))\<rparr>"

definition args_ok :: "bytes list \<Rightarrow> bool" where
  \<comment> \<open>C strings, and a number in range where an int is given\<close>
  "args_ok argv = ((\<forall>a\<in>set argv. terminated a) \<and>
     (5 \<le> length argv \<longrightarrow> take 3 (cstr (argv ! 3)) = ''INT'' \<longrightarrow> int_text_ok (number_text (args_mirror argv))))"

definition fw_event_ok :: "'z bus_env \<Rightarrow> name set \<Rightarrow> fw_event \<Rightarrow> 'z firmware \<Rightarrow> bool" where
  "fw_event_ok env ns e s = (case e of
     Fw_metrics r \<Rightarrow> \<forall>ps. metrics_step r = Some ps \<longrightarrow> (\<forall>p\<in>set ps. room ns p)
   | Fw_send argv \<Rightarrow> args_ok argv \<and>
       (\<forall>r ps. handle_sendpoint (be_timegm env) argv = Some (r, ps) \<longrightarrow> (\<forall>p\<in>set ps. room ns p))
   | Fw_command c \<Rightarrow> c \<in> {Ev_dump, Ev_status} \<or> (\<exists>argv. c = Ev_stream argv \<and> (\<forall>a\<in>set argv. terminated a))
   | Fw_request rq \<Rightarrow> request_ok (be_parse env) rq (fw_web s) \<and>
       (\<forall>r w resp ps. v1_handler (be_encode env) (be_parse env) (be_board env) rq (fw_web s) = Some (r, w, resp, ps) \<longrightarrow>
         (\<forall>p\<in>set ps. room ns p))
   | _ \<Rightarrow> True)"

inductive fw_reach :: "'z bus_env \<Rightarrow> name set \<Rightarrow> 'z firmware \<Rightarrow> 'z firmware \<Rightarrow> bool" for env ns s0 where
  start: "fw_reach env ns s0 s0"
| step: "fw_reach env ns s0 s \<Longrightarrow> fw_event_ok env ns e s \<Longrightarrow> fw_step env e s = Some s' \<Longrightarrow> fw_reach env ns s0 s'"

inductive_cases fw_reach_cases: "fw_reach env ns s0 s"

definition fw_ok ::
  "'z zreader \<Rightarrow> ('z \<Rightarrow> nat \<rightharpoonup> bytes) \<Rightarrow> 'z bus_env \<Rightarrow> name set \<Rightarrow> nat \<Rightarrow> 'z nvs_state \<Rightarrow> nat \<Rightarrow> 'z firmware \<Rightarrow> bool"
where
  "fw_ok zread content env ns n st k s =
     (cache_fits n ns (fw_cache s) \<and> web_fits ns (fw_web s) \<and>
      store_fits zread (be_zwrite env) content (nv_pts st) (fw_store s) \<and>
      (\<forall>p\<in>set (fw_published s). fit ns p) \<and> k \<le> length (fw_published s) \<and>
      follows shown_name shown_point Map.empty (fw_published s) (fw_cache_q s) (cache_view (fw_cache s)) \<and>
      follows shown_name shown_point Map.empty (fw_published s) (fw_web_q s) (web_view (fw_web s)) \<and>
      follows point_name (table_record (nv_pts st)) (store_view content (nv_pts st) st) (drop k (fw_published s))
        (fw_store_q s) (store_view content (nv_pts st) (fw_store s)))"

lemma follows_queue: "follows nm val m ps q v \<Longrightarrow> set q \<subseteq> set ps"
  by (auto simp: follows_def)

lemma cache_init_fits: "finite ns \<Longrightarrow> card ns \<le> n \<Longrightarrow> n \<le> 47 \<Longrightarrow> cache_fits n ns (cache_init n)"
proof -
  have "\<not> sendable point_zero" by (simp add: sendable_def bad_data_type_iff point_zero_def)
  then show "finite ns \<Longrightarrow> card ns \<le> n \<Longrightarrow> n \<le> 47 \<Longrightarrow> cache_fits n ns (cache_init n)"
    using cache_init_ok[of n] slots_for_zero[of ns n]
    by (auto simp: cache_fits_def cache_printable_def cache_init_def)
qed

lemma fw_start_ok:
  assumes "env_fits zread content env" "start_fits n ns (nv_pts st) boot k"
  shows "fw_ok zread content env ns n st k (fw_start n st boot k)"
proof -
  have a: "finite ns" "card ns \<le> n" "n \<le> 47" "card ns \<le> 40" using assms(2) by (simp_all add: start_fits_def)
  have z: "point_map (replicate m point_zero) = Map.empty" for m
    by (rule ext) (auto simp: point_map_None slot_valid_def bad_data_type_iff point_zero_def)
  have "cache_fits n ns (cache_init n)" using a(1-3) by (rule cache_init_fits)
  moreover have "web_fits ns web_init"
    using web_init_ok slots_for_zero[OF a(1,4)] by (simp add: web_fits_def) (simp add: web_init_def)
  moreover have "cache_view (cache_init n) = Map.empty" "web_view web_init = Map.empty"
    using z by (simp_all add: cache_view_def web_view_def cache_init_def web_init_def)
  ultimately show ?thesis using assms
    by (simp add: fw_ok_def fw_start_def follows_start start_fits_def env_fits_def store_fits_def)
qed

text \<open>The power-on state: names for which there is room, and numbers in flash that can be printed.\<close>

definition boot_fits :: "('z \<Rightarrow> nat \<rightharpoonup> bytes) \<Rightarrow> name set \<Rightarrow> 'z power_on \<Rightarrow> bool" where
  "boot_fits content ns po = (terminated (po_board po) \<and> terminated (po_version po) \<and> terminated (po_extended po) \<and>
     fe_page_size (po_flash po) \<noteq> 0 \<and> length (po_junk po) = 20 \<and> table_ok (po_table po) \<and>
     {(''board'', ''0''), (''versionFW'', ''0'')} \<union> entry_name ` set (po_table po) \<subseteq> ns \<and>
     finite ns \<and> card ns \<le> po_slots po \<and> po_slots po \<le> 47 \<and> card ns \<le> 40 \<and>
     po_attached po \<le> 2 + (if env_ok (po_flash po) then length (po_table po) else 0) \<and>
     (\<forall>e\<in>set (po_table po). fst (entry_name e) \<noteq> [] \<and> snd (entry_name e) \<noteq> [] \<and>
        (let w = stored_word (content (po_fs po) (unat (np_id e)))
         in (pd_data_type (np_def e) = 1 \<longrightarrow> finite_int_range w) \<and>
            (pd_data_type (np_def e) = 2 \<longrightarrow> sint w \<noteq> INT_MIN))))"

lemma restored_fit:
  assumes "restored e c p" "entry_ok e" "fst (entry_name e) \<noteq> []" "snd (entry_name e) \<noteq> []" "entry_name e \<in> ns"
    and "pd_data_type (np_def e) = 1 \<longrightarrow> finite_int_range (stored_word c)"
    and "pd_data_type (np_def e) = 2 \<longrightarrow> sint (stored_word c) \<noteq> INT_MIN"
  shows "fit ns p"
proof -
  have n: "point_name p = entry_name e" "point_key p \<noteq> []" "point_type p \<noteq> []"
    using assms(1,3,4) by (auto simp: restored_def point_name_def dest: sym[of _ "entry_name e"])
  have "printable p" using assms(1,2,6,7) point_get_int_range(1)[of p]
    by (auto simp: printable_def restored_def entry_ok_def order_less_le split: if_splits)
  moreover have "\<not> bad_data_type p" using assms(1) by (auto simp: bad_data_type_iff restored_def split: if_splits)
  ultimately show ?thesis using assms(1,5) n
    by (simp add: fit_def room_def slot_valid_def slot_free_def normal_key_def restored_def)
qed

lemma report_fit:
  assumes "{(''board'', ''0''), (''versionFW'', ''0'')} \<subseteq> ns"
  shows "fit ns (board_point b)" "fit ns (version_point b)"
proof -
  have "text_wf (board_point b)" "text_wf (version_point b)"
    by (simp_all add: text_wf_def) (simp_all add: board_point_def version_point_def)
  then show "fit ns (board_point b)" "fit ns (version_point b)"
    using assms by (simp_all add: fit_def room_def report_wf report_valid report_names printable_def)
qed

lemma fw_boot_fits:
  assumes "env_fits zread content env" "boot_fits content ns po"
  shows "\<exists>st boot. fw_boot zread env po = Some (fw_start (po_slots po) st boot (po_attached po)) \<and>
    start_fits (po_slots po) ns (nv_pts st) boot (po_attached po)"
proof -
  define st0 where "st0 = \<lparr>nv_fs = po_fs po, nv_pts = []\<rparr>"
  define boot where "boot = [board_point (po_board po), version_point
    (if str_occurs ''dev'' (cstr (po_extended po)) then po_extended po else po_version po)]"
  have b: "bus_init (po_board po) (po_version po) (po_extended po) = Some boot" "\<forall>p\<in>set boot. fit ns p" "length boot = 2"
    using assms(2) bus_init_spec[of "po_board po" "po_version po" "po_extended po"] report_fit[of ns]
    by (auto simp: boot_fits_def boot_def)
  have po: "table_ok (po_table po)" "length (po_junk po) = 20" "zms_ok zread (be_zwrite env) content"
    using assms by (simp_all add: boot_fits_def env_fits_def)
  have "\<exists>rc st q. nvs_init zread (be_zwrite env) (po_flash po) (po_junk po) (po_table po) st0 = Some (rc, st, q) \<and>
      table_ok (nv_pts st) \<and> (\<forall>p\<in>set q. fit ns p) \<and>
      length q = (if env_ok (po_flash po) then length (po_table po) else 0)"
  proof (cases "env_ok (po_flash po)")
    case False
    then have "nvs_init zread (be_zwrite env) (po_flash po) (po_junk po) (po_table po) st0 = Some (-1, st0, [])"
      using assms(2) by (auto simp: nvs_init_def env_ok_def boot_fits_def not_le)
    then show ?thesis using False by (simp add: st0_def table_ok_def)
  next
    case True
    obtain z q where i: "nvs_init zread (be_zwrite env) (po_flash po) (po_junk po) (po_table po) st0 =
        Some (0, st0\<lparr>nv_fs := z, nv_pts := po_table po\<rparr>, q)"
      "list_all2 (\<lambda>e q. restored e (content (nv_fs st0) (unat (np_id e))) q) (po_table po) q"
      using nvs_init_spec[OF po(3,1) True po(2), of st0] by blast
    have "fit ns p" if p: "p \<in> set q" for p
    proof -
      obtain e where "e \<in> set (po_table po)" "restored e (content (po_fs po) (unat (np_id e))) p"
        using list_all2_source[OF i(2) p] by (auto simp: st0_def)
      then show ?thesis using restored_fit[of e _ p ns] assms(2) po(1)
        by (auto simp: boot_fits_def table_ok_def Let_def)
    qed
    then show ?thesis using i(1) po(1) True list_all2_lengthD[OF i(2)] by simp
  qed
  then obtain rc st q where i: "nvs_init zread (be_zwrite env) (po_flash po) (po_junk po) (po_table po) st0 = Some (rc, st, q)"
    "table_ok (nv_pts st)" "\<forall>p\<in>set q. fit ns p" "length q = (if env_ok (po_flash po) then length (po_table po) else 0)" by blast
  have "fw_boot zread env po = Some (fw_start (po_slots po) st (boot @ q) (po_attached po))"
    using b(1) i(1) by (simp add: fw_boot_def st0_def)
  moreover have "start_fits (po_slots po) ns (nv_pts st) (boot @ q) (po_attached po)"
    using assms(2) b(2,3) i(2-4) by (auto simp: start_fits_def boot_fits_def split: if_splits)
  ultimately show ?thesis by blast
qed

subsection \<open>Every step is defined and keeps the observers up to date\<close>

lemma room_normal_key [simp]: "room ns (normal_key p) = room ns p"
  by (simp add: room_def)

lemma sendpoint_total:
  assumes "args_ok argv"
  shows "\<exists>r ps. handle_sendpoint timegm argv = Some (r, ps) \<and> (\<forall>p\<in>set ps. point_wf p \<and> text_wf p)"
proof (cases "5 \<le> length argv")
  case True
  let ?js = "args_mirror argv"
  have t: "\<forall>a\<in>set argv. terminated a" using assms by (simp add: args_ok_def)
  have ti: "terminated (argv ! i)" if "i < length argv" for i using t that by simp
  note js = js_of_args[OF ti ti ti ti args_mirror_def]
  have "js_ok ?js" "js_complete ?js" using js True by simp_all
  moreover have "cptr_str (js_dt ?js) = cstr (argv ! 3)" by (simp add: args_mirror_def cptr_str_def)
  ultimately have "point_js_to_point ?js point_zero \<noteq> None"
    using point_js_to_point_defined[of ?js point_zero] assms True by (simp add: args_ok_def)
  then obtain r p where d: "js_decoded ?js point_zero = Some (r, p)"
    using point_js_to_point_spec[of ?js point_zero] \<open>js_ok ?js\<close> \<open>js_complete ?js\<close> by auto
  have p: "point_wf p" "text_wf p" using js_decoded_wf[OF point_zero_wf(1) d] by simp_all
  then have p': "point_wf (p\<lparr>p_time := u\<rparr>)" "text_wf (p\<lparr>p_time := u\<rparr>)" for u
    by (simp_all add: point_wf_def text_wf_def)
  have "\<exists>u. timeconv_epoch_ns_from_rfc3339 timegm (argv ! 5) (length (cstr (argv ! 5))) = Some u" if "\<not> length argv < 6"
    using parse_total[of "length (cstr (argv ! 5))" "argv ! 5" timegm] length_cstr_less[of "argv ! 5"] ti[of 5] that by auto
  then show ?thesis
    using handle_sendpoint_spec[OF True t args_mirror_def, of timegm] d p p' by (cases "length argv < 6") auto
qed (simp add: handle_sendpoint_def)

lemma metrics_fit: "\<exists>ps. metrics_step r = Some ps \<and> (\<forall>p\<in>set ps. point_wf p \<and> text_wf p)"
  by (auto simp: metrics_step_spec report_wf text_wf_def)

lemma feed_accepts:
  assumes "slots_for ns pts" "\<forall>p\<in>set ps. fit ns p" "feed points_insert pts ps = Some (rs, pts')"
  shows "slots_for ns pts' \<and> (\<forall>k. (\<forall>p\<in>set ps. shown_name p \<noteq> k) \<longrightarrow> point_map pts' k = point_map pts k)"
  using assms
proof (induction ps arbitrary: pts rs)
  case (Cons p ps)
  obtain pts1 where 1: "points_merge pts p = Some (0, pts1, normal_key p)" "slots_for ns pts1"
    "point_map pts1 = (point_map pts)(shown_name p \<mapsto> normal_key p)"
    using array_accepts[OF Cons.prems(1), of p] Cons.prems(2) by auto
  then have "points_insert pts p = Some (0, pts1)" by (simp add: points_insert_def)
  then obtain rs1 where "feed points_insert pts1 ps = Some (rs1, pts')"
    using Cons.prems(3) by (auto split: Option.bind_splits)
  then show ?case using Cons.IH[OF 1(2)] Cons.prems(2) 1(3) by auto
qed simp

lemma request_fit:
  assumes "web_fits ns w" "encoder_ok enc" "terminated board" "length (cstr board) < 2048" "request_ok arr_parse rq w"
    and "\<And>r w' resp ps. v1_handler enc arr_parse board rq w = Some (r, w', resp, ps) \<Longrightarrow> \<forall>p\<in>set ps. room ns p"
  shows "\<exists>r w' resp ps. v1_handler enc arr_parse board rq w = Some (r, w', resp, ps) \<and> web_fits ns w' \<and>
    (\<forall>p\<in>set ps. fit ns p) \<and> (\<forall>k. (\<forall>p\<in>set ps. shown_name p \<noteq> k) \<longrightarrow> web_view w' k = web_view w k)"
proof -
  have w: "web_ok w" "slots_for ns (ws_points w)" using assms(1) by (simp_all add: web_fits_def)
  obtain r w' resp pts rs where h: "v1_handler enc arr_parse board rq w = Some (r, w', resp, map normal_key pts)"
    "web_ok w'" "feed points_insert (ws_points w) pts = Some (rs, ws_points w')" "\<forall>p\<in>set pts. point_wf p \<and> text_wf p"
    using v1_handler_ok[OF w(1) assms(2,5,3,4)] by blast
  have "\<forall>p\<in>set pts. room ns p" using assms(6)[OF h(1)] by simp
  then have f: "\<forall>p\<in>set pts. fit ns p" using h(4) by (simp add: fit_def)
  note fa = feed_accepts[OF w(2) f h(3)]
  have "web_fits ns w'" using fa h(2) by (simp add: web_fits_def)
  moreover have "\<forall>p\<in>set (map normal_key pts). fit ns p" using f by auto
  ultimately show ?thesis using h(1) fa by (auto simp: web_view_def)
qed

lemma command_fit:
  assumes "cache_fits n ns c" "ev \<in> {Ev_dump, Ev_status} \<or> (\<exists>argv. ev = Ev_stream argv \<and> (\<forall>a\<in>set argv. terminated a))"
  shows "\<exists>c' l. cache_handle True enc ev c = Some (c', l) \<and> cache_fits n ns c' \<and> cache_view c' = cache_view c"
proof -
  let ?enc = "\<lambda>a b m. Some (0, b)"
  have e: "event_ok ev" "cache_handle True enc ev c = cache_handle True ?enc ev c"
    using assms(2) by (auto simp: event_ok_def cache_handle_def)
  obtain c' l where c': "cache_handle True ?enc ev c = Some (c', l)" "cache_ok n c'" "cache_printable c'"
    using cache_handle_ok[OF _ _ e(1), of n c ?enc] assms(1) by (auto simp: cache_fits_def)
  have wf: "\<forall>q\<in>set (cs_cache c). point_wf q \<and> (sendable q \<longrightarrow> printable q)"
    using assms(1) by (simp add: cache_fits_def cache_ok_def array_ok_def array_wf_def cache_printable_def)
  have "cs_cache c' = cs_cache c"
    using c'(1) assms(2) emit_foreach_spec[OF wf]
    by (auto simp: cache_handle_def cmd_siot_dump_def point_cache_foreach_def cmd_siot_status_def cmd_siot_stream_def
      split: Option.bind_splits if_splits)
  then show ?thesis using c' e(2) assms(1) by (simp add: cache_fits_def cache_view_def)
qed

lemma publish_ok:
  assumes "fw_ok zread content env ns n st k s" "\<forall>p\<in>set ps. fit ns p" "web_fits ns w"
    and "\<And>j. (\<forall>p\<in>set ps. shown_name p \<noteq> j) \<Longrightarrow> web_view w j = web_view (fw_web s) j"
  shows "fw_ok zread content env ns n st k (fw_publish ps (s\<lparr>fw_web := w\<rparr>))"
  using assms by (auto simp: fw_ok_def fw_publish_def intro!: follows_publish)

lemma fw_step_ok:
  assumes "env_fits zread content env" "fw_ok zread content env ns n st k s" "fw_event_ok env ns e s"
  shows "\<exists>s'. fw_step env e s = Some s' \<and> fw_ok zread content env ns n st k s'"
proof (cases e)
  case (Fw_metrics r)
  obtain ps where ps: "metrics_step r = Some ps" "\<forall>p\<in>set ps. point_wf p \<and> text_wf p" using metrics_fit by blast
  then have "\<forall>p\<in>set ps. fit ns p" using assms(3) Fw_metrics by (simp add: fw_event_ok_def fit_def)
  from publish_ok[OF assms(2) this, of "fw_web s"] show ?thesis
    using ps(1) Fw_metrics assms(2) by (simp add: fw_step_def fw_ok_def)
next
  case (Fw_send argv)
  then obtain r ps where ps: "handle_sendpoint (be_timegm env) argv = Some (r, ps)" "\<forall>p\<in>set ps. point_wf p \<and> text_wf p"
    using sendpoint_total[of argv "be_timegm env"] assms(3) by (auto simp: fw_event_ok_def)
  then have "\<forall>p\<in>set ps. fit ns p" using assms(3) Fw_send by (simp add: fw_event_ok_def fit_def)
  from publish_ok[OF assms(2) this, of "fw_web s"] show ?thesis
    using ps(1) Fw_send assms(2) by (simp add: fw_step_def fw_ok_def)
next
  case (Fw_command c)
  then obtain c' l where "cache_handle True (be_encode env) c (fw_cache s) = Some (c', l)" "cache_fits n ns c'"
    "cache_view c' = cache_view (fw_cache s)"
    using command_fit[of n ns "fw_cache s" c "be_encode env"] assms(2,3) by (auto simp: fw_ok_def fw_event_ok_def)
  then show ?thesis using Fw_command assms(2) by (simp add: fw_step_def fw_ok_def)
next
  case (Fw_request rq)
  obtain r w resp ps where h: "v1_handler (be_encode env) (be_parse env) (be_board env) rq (fw_web s) = Some (r, w, resp, ps)"
    "web_fits ns w" "\<forall>p\<in>set ps. fit ns p"
    "\<forall>j. (\<forall>p\<in>set ps. shown_name p \<noteq> j) \<longrightarrow> web_view w j = web_view (fw_web s) j"
    using request_fit[of ns "fw_web s" "be_encode env" "be_board env" "be_parse env" rq] assms Fw_request
    by (auto simp: fw_ok_def env_fits_def fw_event_ok_def)
  then show ?thesis using publish_ok[OF assms(2) h(3,2) h(4)[THEN spec, THEN mp]] h(1) Fw_request by (simp add: fw_step_def)
next
  case Fw_cache
  have q: "\<forall>p\<in>set (fw_cache_q s). fit ns p" using assms(2) follows_queue by (fastforce simp: fw_ok_def)
  show ?thesis using cache_observer.deliver_follows[OF _ q] assms(2) Fw_cache by (fastforce simp: fw_step_def fw_ok_def)
next
  case Fw_web
  have q: "\<forall>p\<in>set (fw_web_q s). fit ns p" using assms(2) follows_queue by (fastforce simp: fw_ok_def)
  show ?thesis using web_observer.deliver_follows[OF _ q] assms(2) Fw_web by (fastforce simp: fw_step_def fw_ok_def)
next
  case Fw_store
  have q: "\<forall>p\<in>set (fw_store_q s). fit ns p"
    using assms(2) follows_queue set_drop_subset[of k "fw_published s"] by (fastforce simp: fw_ok_def)
  show ?thesis using store_observer.deliver_follows[OF _ q] assms(2) Fw_store by (fastforce simp: fw_step_def fw_ok_def)
qed

lemma fw_reach_ok:
  assumes "fw_reach env ns s0 s" "env_fits zread content env" "fw_ok zread content env ns n st k s0"
  shows "fw_ok zread content env ns n st k s"
  using assms(1)
proof induction
  case start
  show ?case by (rule assms(3))
next
  case (step s e s')
  then show ?case using fw_step_ok[OF assms(2)] by fastforce
qed

lemma fw_boot_ok:
  assumes "env_fits zread content env" "boot_fits content ns po" "fw_boot zread env po = Some s0"
  shows "\<exists>st. fw_ok zread content env ns (po_slots po) st (po_attached po) s0 \<and> fw_store s0 = st \<and> table_ok (nv_pts st)"
proof -
  obtain st boot where b: "s0 = fw_start (po_slots po) st boot (po_attached po)"
    "start_fits (po_slots po) ns (nv_pts st) boot (po_attached po)"
    using fw_boot_fits[OF assms(1,2)] assms(3) by auto
  from fw_start_ok[OF assms(1) b(2)] show ?thesis using b by (simp add: fw_start_def start_fits_def)
qed

subsection \<open>Draining the queues\<close>

abbreviation deliveries :: "fw_event list \<Rightarrow> bool" where
  "deliveries es \<equiv> set es \<subseteq> {Fw_cache, Fw_web, Fw_store}"

lemma deliver_tl: "deliver h a q = Some (a', q') \<Longrightarrow> q' = tl q"
  by (cases q) auto

lemma deliver_step:
  assumes "e \<in> {Fw_cache, Fw_web, Fw_store}" "fw_step env e s = Some s'"
  shows "fw_published s' = fw_published s \<and>
    fw_cache_q s' = (if e = Fw_cache then tl (fw_cache_q s) else fw_cache_q s) \<and>
    fw_web_q s' = (if e = Fw_web then tl (fw_web_q s) else fw_web_q s) \<and>
    fw_store_q s' = (if e = Fw_store then tl (fw_store_q s) else fw_store_q s)"
  using assms by (auto simp: fw_step_def split: Option.bind_splits dest!: deliver_tl)

lemma deliveries_run:
  assumes "env_fits zread content env" "fw_ok zread content env ns n st k s" "deliveries es"
  shows "\<exists>s'. fw_run env es s = Some s' \<and> fw_ok zread content env ns n st k s' \<and> fw_published s' = fw_published s \<and>
    fw_cache_q s' = drop (count_list es Fw_cache) (fw_cache_q s) \<and>
    fw_web_q s' = drop (count_list es Fw_web) (fw_web_q s) \<and>
    fw_store_q s' = drop (count_list es Fw_store) (fw_store_q s)"
  using assms(2,3)
proof (induction es arbitrary: s)
  case (Cons e es)
  have e: "e \<in> {Fw_cache, Fw_web, Fw_store}" using Cons.prems(2) by simp
  then have "fw_event_ok env ns e s" by (auto simp: fw_event_ok_def)
  then obtain s1 where 1: "fw_step env e s = Some s1" "fw_ok zread content env ns n st k s1"
    using fw_step_ok[OF assms(1) Cons.prems(1)] by blast
  note d = deliver_step[OF e 1(1)]
  obtain s' where "fw_run env es s1 = Some s'" "fw_ok zread content env ns n st k s'" "fw_published s' = fw_published s1"
    "fw_cache_q s' = drop (count_list es Fw_cache) (fw_cache_q s1)"
    "fw_web_q s' = drop (count_list es Fw_web) (fw_web_q s1)"
    "fw_store_q s' = drop (count_list es Fw_store) (fw_store_q s1)"
    using Cons.IH[OF 1(2)] Cons.prems(2) by auto
  then show ?case using 1(1) d e by (auto simp: drop_Suc)
qed simp

lemma drained_views:
  \<comment> \<open>what the observers show when nothing is waiting\<close>
  assumes "fw_ok zread content env ns n st k s" "fw_cache_q s = []" "fw_web_q s = []" "fw_store_q s = []"
  shows "cache_view (fw_cache s) = latest shown_name shown_point Map.empty (fw_published s)"
    and "web_view (fw_web s) = latest shown_name shown_point Map.empty (fw_published s)"
    and "store_view content (nv_pts st) (fw_store s) =
      latest point_name (table_record (nv_pts st)) (store_view content (nv_pts st) st) (drop k (fw_published s))"
  using assms follows_done unfolding fw_ok_def by metis+

lemma stored_latest:
  assumes "table_ok tbl" "e \<in> set tbl"
    and "store_view content tbl st' = latest point_name (table_record tbl) (store_view content tbl st) ps"
  shows "content (nv_fs st') (unat (np_id e)) =
    (let qs = filter (\<lambda>p. point_name p = entry_name e) ps
     in if qs = [] then content (nv_fs st) (unat (np_id e)) else record_of (last qs))"
proof -
  have e: "entry_of tbl (entry_name e) = Some e" using entry_of_mem[OF _ assms(2)] assms(1) by (simp add: table_ok_def)
  let ?qs = "filter (\<lambda>p. point_name p = entry_name e) ps"
  have "point_name (last ?qs) = entry_name e" if "?qs \<noteq> []" using last_in_set[OF that] by auto
  then show ?thesis using fun_cong[OF assms(3), of "entry_name e"] e
    by (auto simp: store_view_def latest_def table_record_def Let_def)
qed

lemma metrics_event_ok:
  assumes "sample_ok r" "sint (rs_uptime r) \<noteq> INT_MIN"
    and "{(''metricSysCPUPercent'', ''0''), (''uptime'', ''0'')} \<subseteq> ns"
  shows "fw_event_ok env ns (Fw_metrics r) s"
proof -
  have "printable (cpu_point r)" "printable (uptime_point r)" if "sample_good r"
    using cpu_range[OF assms(1) that] assms(2) point_get_int_range(1)[of "uptime_point r"]
    by (auto simp: printable_def report_values order_less_le)
  then show ?thesis using assms(3)
    by (auto simp: fw_event_ok_def metrics_step_spec room_def report_valid report_names)
qed

subsection \<open>Points without a key\<close>

lemma unkeyed_point_not_persisted:
  \<comment> \<open>the arrays show a point without a key under the key 0, the store does not know it\<close>
  assumes "table_ok (nv_pts st)" "\<forall>e\<in>set (nv_pts st). snd (entry_name e) \<noteq> []"
    and "cache_fits n ns c" "fit ns p" "point_key p = []"
  shows "nvs_store_step zwrite st True p = Some st \<and>
    (\<exists>c'. cache_receive c p = Some c' \<and> cache_view c' (point_type p, ''0'') = Some (normal_key p))"
proof -
  have "entry_of (nv_pts st) (point_name p) = None"
    using assms(2,5) by (auto simp: entry_of_def find_None_iff point_name_def)
  then have "nvs_store_step zwrite st True p = Some st"
    using nvs_store_spec[of st p zwrite] assms(1,4) by (simp add: nvs_store_step_def table_ok_def fit_def)
  moreover have "shown_name p = (point_type p, ''0'')" using assms(5) by (simp add: point_name_def normal_key_key)
  ultimately show ?thesis using cache_observer.handle_law[OF assms(3,4)] by auto
qed

lemma unkeyed_point_not_persisted_witness:
  "nvs_store_step map_write \<lparr>nv_fs = Map.empty, nv_pts = siot_net_nvs_pts\<rparr> True (sample_point ''bootCount'' '''' 7) =
      Some \<lparr>nv_fs = Map.empty, nv_pts = siot_net_nvs_pts\<rparr> \<and>
   (\<exists>c. cache_receive (cache_init 1) (sample_point ''bootCount'' '''' 7) = Some c \<and>
      cache_view c (''bootCount'', ''0'') = Some (normal_key (sample_point ''bootCount'' '''' 7)))"
proof -
  let ?p = "sample_point ''bootCount'' '''' 7" and ?ns = "{(''bootCount'', ''0'')}"
  have n: "point_type ?p = ''bootCount''" "point_key ?p = []"
    by (simp_all add: sample_point_def point_put_int_def point_type_def point_key_def field_of_cstr)
  then have "fit ?ns ?p"
    by (simp add: fit_def room_def text_wf_def slot_valid_def slot_free_def printable_def point_name_def normal_key_key
      INT_MIN_def INT_MAX_def)
  moreover have "cache_fits 1 ?ns (cache_init 1)" by (rule cache_init_fits) simp_all
  ultimately show ?thesis
    using unkeyed_point_not_persisted[of "\<lparr>nv_fs = Map.empty, nv_pts = siot_net_nvs_pts\<rparr>" 1 ?ns "cache_init 1" ?p map_write]
      tables_ok(1) net_names(2) n by auto
qed

subsection \<open>What a boot shows\<close>

lemma boot_shown:
  \<comment> \<open>the points a boot restores, fed to a cache with a slot for every entry\<close>
  assumes "table_ok tbl" "list_all2 (\<lambda>e q. restored e (c e) q) tbl pub" "length tbl \<le> n" "n \<le> 47"
    and "\<forall>e\<in>set tbl. snd (entry_name e) \<noteq> [] \<and> fst (entry_name e) \<noteq> []"
  shows "\<exists>st. point_cache_thread have_shell (cache_init n) (map (Pair True) pub) = Some (st, []) \<and> cache_ok n st \<and>
    (\<forall>e\<in>set tbl. \<exists>q. cache_view st (entry_name e) = Some q \<and> restored e (c e) q)"
proof -
  let ?ns = "entry_name ` set tbl"
  note r = list_all2_source[OF assms(2)]
  have key: "normal_key q = q" "point_name q \<in> ?ns" "slot_valid q" "point_wf q" if q: "q \<in> set pub" for q
  proof -
    obtain e where e: "e \<in> set tbl" "restored e (c e) q" using r[OF q] by blast
    then have n: "point_name q = entry_name e" "point_wf q" by (simp_all add: restored_def)
    then have nk: "point_key q \<noteq> []" "point_type q \<noteq> []" using assms(5) e(1)
      by (metis point_name_def fst_conv snd_conv)+
    then show "normal_key q = q" by (simp add: normal_key_def)
    show "point_name q \<in> ?ns" "point_wf q" using n e(1) by auto
    show "slot_valid q" using nk e by (auto simp: slot_valid_def slot_free_def bad_data_type_iff restored_def split: if_splits)
  qed
  have nk: "map normal_key pub = pub" by (rule map_idI) (rule key(1))
  have card: "finite ?ns" "card ?ns \<le> n" using assms(3) card_image_le[of "set tbl" entry_name] card_length[of tbl] by auto
  obtain st where st: "point_cache_thread have_shell (cache_init n) (map (Pair True) pub) = Some (st, [])" "cache_ok n st"
    "\<And>k. cache_view st k = (let qs = filter (\<lambda>q. point_name q = k) pub in if qs = [] then None else Some (last qs))"
    using cache_thread_accepts[OF card assms(4), of pub have_shell] key unfolding nk by force
  have "\<exists>q. cache_view st (entry_name e) = Some q \<and> restored e (c e) q" if e: "e \<in> set tbl" for e
  proof -
    let ?qs = "filter (\<lambda>q. point_name q = entry_name e) pub"
    obtain q where q: "q \<in> set pub" "restored e (c e) q" using list_all2_target[OF assms(2) e] by blast
    then have "q \<in> set ?qs" by (simp add: restored_def)
    then have ne: "?qs \<noteq> []" by (metis list.set(1) empty_iff)
    then have l: "last ?qs \<in> set pub" "point_name (last ?qs) = entry_name e"
      using last_in_set[OF ne] by auto
    then obtain e' where e': "e' \<in> set tbl" "restored e' (c e') (last ?qs)" using r by blast
    then have "entry_name e' = entry_name e" using l(2) by (simp add: restored_def)
    then have "e' = e" using assms(1) e e'(1) by (auto simp: table_ok_def distinct_map dest: inj_onD)
    then show ?thesis using e' ne st(3) by (auto simp: Let_def)
  qed
  then show ?thesis using st(1,2) by blast
qed

subsection \<open>Properties\<close>


text \<open>
  C2: The observers converge: in every reachable state, any sequence of deliveries that is long enough to
  empty the queues ends with the cache and the web server showing the same points, the last one
  published under every name, and with the record of every persisted name being that of the
  last point published under it since the store attached itself (or the one left by the boot).
\<close>

theorem firmware_converges:
  assumes "env_fits zread content env" "boot_fits content ns po" "fw_boot zread env po = Some s0"
    and "fw_reach env ns s0 s" "set es \<subseteq> {Fw_cache, Fw_web, Fw_store}"
    and "length (fw_cache_q s) \<le> count_list es Fw_cache" "length (fw_web_q s) \<le> count_list es Fw_web"
    and "length (fw_store_q s) \<le> count_list es Fw_store"
  shows "\<exists>s'. fw_run env es s = Some s' \<and> fw_published s' = fw_published s \<and>
    fw_cache_q s' = [] \<and> fw_web_q s' = [] \<and> fw_store_q s' = [] \<and>
    (\<forall>k. let ps = filter (\<lambda>p. point_name (normal_key p) = k) (fw_published s);
            shown = (if ps = [] then None else Some (normal_key (last ps)))
         in cache_view (fw_cache s') k = shown \<and> web_view (fw_web s') k = shown) \<and>
    (\<forall>e\<in>set (nv_pts (fw_store s0)). content (nv_fs (fw_store s')) (unat (np_id e)) =
       (let ps = filter (\<lambda>p. point_name p = entry_name e) (drop (po_attached po) (fw_published s))
        in if ps = [] then content (nv_fs (fw_store s0)) (unat (np_id e)) else record_of (last ps)))"
proof -
  obtain st where "fw_ok zread content env ns (po_slots po) st (po_attached po) s0" and st: "fw_store s0 = st"
    "table_ok (nv_pts st)"
    using fw_boot_ok[OF assms(1-3)] by blast
  from fw_reach_ok[OF assms(4,1) this(1)] have ok: "fw_ok zread content env ns (po_slots po) st (po_attached po) s" .
  obtain s' where s': "fw_run env es s = Some s'" "fw_ok zread content env ns (po_slots po) st (po_attached po) s'"
    "fw_published s' = fw_published s" and q: "fw_cache_q s' = []" "fw_web_q s' = []" "fw_store_q s' = []"
    using deliveries_run[OF assms(1) ok assms(5)] assms(6-8) by auto
  note v = drained_views[OF s'(2) q, unfolded s'(3)]
  show ?thesis using s' q v(1,2) stored_latest[OF st(2) _ v(3)]
    unfolding st(1) by (intro exI[of _ s']) (simp add: latest_def)
qed

text \<open>
  C4: Every producer publishes well-typed points: the boot report, the metrics, the send command, the
  restore at boot and the web server are defined and hand the bus only points whose type, key
  and data have their declared sizes, whose type and key are C strings, and whose data is a C
  string when the data type says string or JSON.
\<close>

theorem published_points_typed:
  assumes "terminated board" "terminated version" "terminated extended" "args_ok argv"
    and "zms_ok zread zwrite content" "table_ok tbl" "env_ok flash" "length junk = 20"
    and "web_ok w" "encoder_ok enc" "request_ok arr_parse rq w" "terminated target" "length (cstr target) < 2048"
  shows "\<exists>report metrics ret1 sent st' restored ret2 w' resp posted.
    bus_init board version extended = Some report \<and> siot_metrics_thread samples = Some metrics \<and>
    handle_sendpoint timegm argv = Some (ret1, sent) \<and>
    nvs_init zread zwrite flash junk tbl st = Some (0, st', restored) \<and>
    v1_handler enc arr_parse target rq w = Some (ret2, w', resp, posted) \<and>
    (\<forall>p\<in>set (report @ metrics @ sent @ restored @ posted). point_wf p \<and> text_wf p)"
proof -
  have tw: "text_wf (board_point b)" "text_wf (version_point b)" "text_wf (cpu_point r)" "text_wf (uptime_point r)" for b r
    by (simp_all add: text_wf_def) (simp_all add: board_point_def version_point_def)
  obtain report where 1: "bus_init board version extended = Some report" "\<forall>p\<in>set report. point_wf p \<and> text_wf p"
    using bus_init_spec[OF assms(1-3)] by (simp add: report_wf tw)
  obtain metrics where 2: "siot_metrics_thread samples = Some metrics" "\<forall>p\<in>set metrics. point_wf p \<and> text_wf p"
    using metrics_thread_spec[of samples] by (auto simp: report_wf tw)
  obtain ret1 sent where 3: "handle_sendpoint timegm argv = Some (ret1, sent)" "\<forall>p\<in>set sent. point_wf p \<and> text_wf p"
    using sendpoint_total[OF assms(4)] by blast
  obtain z q where 4: "nvs_init zread zwrite flash junk tbl st = Some (0, st\<lparr>nv_fs := z, nv_pts := tbl\<rparr>, q)"
    "list_all2 (\<lambda>e q. restored e (content (nv_fs st) (unat (np_id e))) q) tbl q"
    using nvs_init_spec[OF assms(5-8), of st] by blast
  have "\<forall>p\<in>set q. point_wf p \<and> text_wf p"
    using list_all2_source[OF 4(2)] by (fastforce simp: restored_def)
  moreover obtain ret2 w' resp pts where
    5: "v1_handler enc arr_parse target rq w = Some (ret2, w', resp, map normal_key pts)" "\<forall>p\<in>set pts. point_wf p \<and> text_wf p"
    using v1_handler_ok[OF assms(9-13)] by blast
  moreover from 5(2) have "\<forall>p\<in>set (map normal_key pts). point_wf p \<and> text_wf p"
    using normal_key_wf by (simp add: text_wf_def)
  ultimately show ?thesis
    using 1 2 3 4(1) unfolding set_append ball_Un by blast
qed

theorem published_points_typed_witness:
  "\<exists>report ret sent. bus_init (lit ''esp32_poe'') (lit ''1.2.0'') (lit ''1.2.0'') = Some report \<and>
    handle_sendpoint calendar_timegm (map lit [''p'', ''uptime'', '''', ''INT'', ''7'']) = Some (ret, sent) \<and>
    (\<forall>p\<in>set (report @ sent). point_wf p \<and> text_wf p)"
proof -
  have "int_text_ok (number_text (args_mirror (map lit [''p'', ''uptime'', '''', ''INT'', ''7''])))"
    by code_simp
  then have a: "args_ok (map lit [''p'', ''uptime'', '''', ''INT'', ''7''])" by (simp add: args_ok_def)
  have rq: "request_ok (sample_parser Wild) (sample_request HTTP_GET []) web_init"
    by (simp add: request_ok_def sample_request_def)
  have "terminated (lit ''esp32_poe'')" "terminated (lit ''1.2.0'')" "length (replicate 20 NUL) = 20"
    "length (cstr (lit ''esp32_poe'')) < 2048" by simp_all
  from published_points_typed[OF this(1,2,2) a map_zms_ok tables_ok(1) sample_env_ok this(3) web_init_ok null_encoder_ok
      rq this(1,4), of "[]" calendar_timegm]
  show ?thesis by (simp add: ball_Un) blast
qed

definition sample_bus :: "(nat \<rightharpoonup> bytes) bus_env" where
  "sample_bus = \<lparr>be_encode = null_encoder, be_parse = sample_parser (Ptr (lit ''INT'')), be_board = lit ''esp32_poe'',
     be_timegm = calendar_timegm, be_zwrite = map_write\<rparr>"

definition sample_power_on :: "(nat \<rightharpoonup> bytes) power_on" where
  \<comment> \<open>a first boot of siot-net, with empty flash; the store thread attaches itself after the boot report\<close>
  "sample_power_on = \<lparr>po_board = lit ''esp32_poe'', po_version = lit ''1.2.0'', po_extended = lit ''1.2.0'',
     po_flash = sample_env, po_fs = Map.empty, po_table = siot_net_nvs_pts, po_junk = replicate 20 NUL,
     po_slots = 10, po_attached = 2\<rparr>"

definition sample_names :: "name set" where
  "sample_names = set ([(''board'', ''0''), (''versionFW'', ''0''), (''metricSysCPUPercent'', ''0''), (''uptime'', ''0'')] @
     map entry_name siot_net_nvs_pts)"

lemma sample_firmware:
  "env_fits map_read id sample_bus" "boot_fits id sample_names sample_power_on"
  "\<exists>s0. fw_boot map_read sample_bus sample_power_on = Some s0 \<and> board_point (lit ''esp32_poe'') \<in> set (fw_published s0)"
proof -
  show e: "env_fits map_read id sample_bus"
    by (simp add: env_fits_def sample_bus_def null_encoder_ok map_zms_ok map_writes_ok)
  have "card sample_names \<le> 10"
    unfolding sample_names_def by (rule order_trans[OF card_length]) (simp add: siot_net_nvs_pts_def)
  moreover have "\<forall>e\<in>set siot_net_nvs_pts. fst (entry_name e) \<noteq> [] \<and> snd (entry_name e) \<noteq> [] \<and> pd_data_type (np_def e) \<noteq> 1"
    by (auto simp: entry_name_def siot_net_nvs_pts_def point_def_boot_count_def point_def_description_def
      point_def_staticip_def point_def_address_def point_def_gateway_def point_def_netmask_def)
  ultimately show b: "boot_fits id sample_names sample_power_on"
    using tables_ok(1) by (auto simp: boot_fits_def sample_power_on_def sample_env_def sample_names_def INT_MIN_def)
  obtain s0 where s0: "fw_boot map_read sample_bus sample_power_on = Some s0" using fw_boot_fits[OF e b] by blast
  have "bus_init (lit ''esp32_poe'') (lit ''1.2.0'') (lit ''1.2.0'') =
      Some [board_point (lit ''esp32_poe''), version_point (lit ''1.2.0'')]"
    by (simp add: bus_init_spec)
  then have "board_point (lit ''esp32_poe'') \<in> set (fw_published s0)"
    using s0 by (auto simp: fw_boot_def sample_power_on_def fw_start_def split: Option.bind_splits)
  then show "\<exists>s0. fw_boot map_read sample_bus sample_power_on = Some s0 \<and> board_point (lit ''esp32_poe'') \<in> set (fw_published s0)"
    using s0 by blast
qed


theorem firmware_converges_witness:
  "\<exists>s0 es s' p. fw_boot map_read sample_bus sample_power_on = Some s0 \<and> fw_run sample_bus es s0 = Some s' \<and>
    fw_cache_q s' = [] \<and> cache_view (fw_cache s') (''board'', ''0'') = Some p \<and> web_view (fw_web s') (''board'', ''0'') = Some p"
proof -
  obtain s0 where s0: "fw_boot map_read sample_bus sample_power_on = Some s0"
    "board_point (lit ''esp32_poe'') \<in> set (fw_published s0)" using sample_firmware(3) by blast
  define es where "es = replicate (length (fw_cache_q s0)) Fw_cache @ replicate (length (fw_web_q s0)) Fw_web @
    replicate (length (fw_store_q s0)) Fw_store"
  have c: "count_list (replicate n x) y = (if x = y then n else 0)" for n and x y :: fw_event
    by (induction n) auto
  have "filter (\<lambda>p. shown_name p = (''board'', ''0'')) (fw_published s0) \<noteq> []"
    using s0(2) report_names(1) by (auto simp: filter_empty_conv)
  moreover have "set es \<subseteq> {Fw_cache, Fw_web, Fw_store}" "length (fw_cache_q s0) \<le> count_list es Fw_cache"
    "length (fw_web_q s0) \<le> count_list es Fw_web" "length (fw_store_q s0) \<le> count_list es Fw_store"
    by (auto simp: es_def c)
  note firmware_converges[OF sample_firmware(1,2) s0(1) fw_reach.start this]
  then obtain s' where "fw_run sample_bus es s0 = Some s'" "fw_cache_q s' = []"
    "\<And>k. let ps = filter (\<lambda>p. shown_name p = k) (fw_published s0); shown = (if ps = [] then None else shown_point (last ps))
      in cache_view (fw_cache s') k = shown \<and> web_view (fw_web s') k = shown" by blast
  ultimately show ?thesis using s0(1) by (fastforce simp: Let_def)
qed

end
