(* ===== verification/Html_Form.thy ===== *)
theory Html_Form
  imports C_Strings
begin

text \<open>
  lib/html.c: decoding of HTML form data. Memory comes from the kernel heap, which is a parameter:
  \<open>malloc k n\<close> is the block (of length \<open>n\<close>, content arbitrary) that the \<open>k\<close>th allocation
  returns, or \<open>None\<close> for the null pointer. The C library's \<open>strtok_r\<close> is written out on offsets
  into one buffer.
\<close>

subsection \<open>Definitions\<close>

type_synonym allocator = "nat \<Rightarrow> nat \<Rightarrow> bytes option"

definition z_strdup :: "allocator \<Rightarrow> nat \<Rightarrow> bytes \<Rightarrow> bytes option option" where
  \<comment> \<open>the inner \<open>None\<close> is the null pointer\<close>
  "z_strdup malloc k str = do {
     n \<leftarrow> c_strlen str;
     case malloc k (n + 1) of None \<Rightarrow> Some None
     | Some new_str \<Rightarrow> do {
         new_str \<leftarrow> c_memcpy new_str 0 str (n + 1);
         Some (Some new_str)
       }
   }"

definition is_xdigit :: "char \<Rightarrow> bool" where
  "is_xdigit c = (let n = (of_char c :: nat) in 48 \<le> n \<and> n \<le> 57 \<or> 65 \<le> n \<and> n \<le> 70 \<or> 97 \<le> n \<and> n \<le> 102)"

definition hex_digit :: "char \<Rightarrow> nat" where
  \<comment> \<open>the two conditional subtractions, for a hexadecimal digit\<close>
  "hex_digit c =
     (let a = of_char c;
          a = (if 97 \<le> a then a - (97 - 65) else a)
      in if 65 \<le> a then a - (65 - 10) else a - 48)"

function url_decode_loop :: "bytes \<Rightarrow> nat \<Rightarrow> bytes \<Rightarrow> nat \<Rightarrow> bytes option" where
  "url_decode_loop src si dst di =
     (if si < length src then
        (let c = src ! si
         in if c = NUL then wr dst di NUL
            else do {
              esc \<leftarrow> (if c = CHR 0x25 then do {
                  a \<leftarrow> rd src (si + 1);
                  if a = NUL then Some None
                  else do {
                    b \<leftarrow> rd src (si + 2);
                    Some (if b \<noteq> NUL \<and> is_xdigit a \<and> is_xdigit b then Some (a, b) else None)
                  }
                }
                else Some None);
              case esc of
                Some (a, b) \<Rightarrow> do {
                  dst \<leftarrow> wr dst di (char_of (16 * hex_digit a + hex_digit b));
                  url_decode_loop src (si + 3) dst (di + 1)
                }
              | None \<Rightarrow> do {
                  dst \<leftarrow> wr dst di (if c = CHR ''+'' then CHR '' '' else c);
                  url_decode_loop src (si + 1) dst (di + 1)
                }
            })
      else None)"
  by pat_completeness auto
termination
  by (relation "measure (\<lambda>(src, si, dst, di). length src - si)") auto

declare url_decode_loop.simps [simp del]

definition url_decode :: "bytes \<Rightarrow> bytes \<Rightarrow> bytes option" where
  "url_decode src dst = url_decode_loop src 0 dst 0"

function str_skip :: "(char \<Rightarrow> bool) \<Rightarrow> bytes \<Rightarrow> nat \<Rightarrow> nat option" where
  \<comment> \<open>the first position from \<open>i\<close> on that holds NUL or fails the test\<close>
  "str_skip P b i =
     (if i < length b then (if b ! i \<noteq> NUL \<and> P (b ! i) then str_skip P b (Suc i) else Some i) else None)"
  by pat_completeness auto
termination
  by (relation "measure (\<lambda>(P, b, i). length b - i)") auto

declare str_skip.simps [simp del]

definition c_strtok_r :: "bytes \<Rightarrow> nat \<Rightarrow> char \<Rightarrow> (bytes \<times> nat option \<times> nat) option" where
  \<comment> \<open>\<open>strtok_r\<close> from position \<open>pos\<close> with one delimiter: the buffer, the token and the saved position\<close>
  "c_strtok_r b pos d = do {
     start \<leftarrow> str_skip (\<lambda>c. c = d) b pos;
     c \<leftarrow> rd b start;
     if c = NUL then Some (b, None, start)
     else do {
       fin \<leftarrow> str_skip (\<lambda>c. c \<noteq> d) b start;
       e \<leftarrow> rd b fin;
       if e = NUL then Some (b, Some start, fin)
       else do {
         b \<leftarrow> wr b fin NUL;
         Some (b, Some start, Suc fin)
       }
     }
   }"

lemma str_skip_bounds:
  "str_skip P b i = Some j \<Longrightarrow> i \<le> j \<and> j < length b \<and> (b ! j = NUL \<or> \<not> P (b ! j))"
proof (induction "length b - i" arbitrary: i rule: less_induct)
  case less
  show ?case
  proof (cases "i < length b \<and> b ! i \<noteq> NUL \<and> P (b ! i)")
    case True
    then have "str_skip P b (Suc i) = Some j" using less.prems by (simp add: str_skip.simps[of P b i])
    moreover have "length b - Suc i < length b - i" using True by auto
    ultimately show ?thesis using less.hyps[of "Suc i"] by auto
  next
    case False
    then show ?thesis using less.prems by (auto simp: str_skip.simps[of P b i] split: if_splits)
  qed
qed

lemma c_strtok_r_bounds:
  assumes "c_strtok_r b pos d = Some (b', tok, st)"
  shows "length b' = length b" "st \<le> length b" "tok = Some i \<Longrightarrow> pos \<le> i \<and> i < st"
proof -
  obtain s where s: "str_skip (\<lambda>c. c = d) b pos = Some s" "rd b s = Some (b ! s)"
    using assms str_skip_bounds by (fastforce simp: c_strtok_r_def split: Option.bind_splits)
  note sb = str_skip_bounds[OF s(1)]
  have "length b' = length b \<and> st \<le> length b \<and> (tok = Some i \<longrightarrow> pos \<le> i \<and> i < st)"
  proof (cases "b ! s = NUL")
    case True
    then show ?thesis using assms s sb by (auto simp: c_strtok_r_def)
  next
    case False
    then obtain f where f: "str_skip (\<lambda>c. c \<noteq> d) b s = Some f" using assms s
      by (auto simp: c_strtok_r_def split: Option.bind_splits)
    note fb = str_skip_bounds[OF f]
    have "b ! s \<noteq> d" using sb False by auto
    then have "f \<noteq> s" using fb False by auto
    then show ?thesis using assms s f fb sb False by (auto simp: c_strtok_r_def split: if_splits)
  qed
  then show "length b' = length b" "st \<le> length b" "tok = Some i \<Longrightarrow> pos \<le> i \<and> i < st" by auto
qed

lemma c_strtok_r_advance:
  "c_strtok_r b pos d = Some (b', Some i, st) \<Longrightarrow> length b' - st < length b - pos"
  by (frule c_strtok_r_bounds(1), frule c_strtok_r_bounds(2), drule c_strtok_r_bounds(3)[OF _ refl]) auto

definition form_pair ::
  "allocator \<Rightarrow> nat \<Rightarrow> bytes \<Rightarrow> nat \<Rightarrow> (bytes \<times> nat \<times> (string \<times> string) list) option" where
  \<comment> \<open>the body of the loop for the pair at \<open>kv\<close>: the buffer, the number of allocations so far
    and the callback's arguments\<close>
  "form_pair malloc k form_data kv = do {
     (form_data, key, saveptr2) \<leftarrow> c_strtok_r form_data kv (CHR ''='');
     (form_data, val, saveptr2) \<leftarrow> c_strtok_r form_data saveptr2 (CHR ''='');
     case key of
       None \<Rightarrow> Some (form_data, k, [])
     | Some key \<Rightarrow> do {
         let val = (case val of None \<Rightarrow> lit [] | Some v \<Rightarrow> drop v form_data);
         n \<leftarrow> c_strlen val;
         case malloc k (n + 1) of None \<Rightarrow> None
         | Some decoded_value \<Rightarrow> do {
             decoded_value \<leftarrow> url_decode val decoded_value;
             _ \<leftarrow> c_strlen (drop key form_data);
             _ \<leftarrow> c_strlen decoded_value;
             Some (form_data, k + 1, [(cstr (drop key form_data), cstr decoded_value)])
           }
       }
   }"

lemma form_pair_length: "form_pair malloc k b kv = Some (b', k', out) \<Longrightarrow> length b' = length b"
  by (auto simp: form_pair_def Let_def dest!: c_strtok_r_bounds(1) split: Option.bind_splits option.splits prod.splits)

function form_loop ::
  "allocator \<Rightarrow> nat \<Rightarrow> bytes \<Rightarrow> nat \<Rightarrow> (string \<times> string) list option" where
  \<comment> \<open>the loop over the pairs, from the saved position on\<close>
  "form_loop malloc k form_data saveptr1 =
     (case c_strtok_r form_data saveptr1 (CHR ''&'') of
        None \<Rightarrow> None
      | Some (form_data1, key_value, saveptr1) \<Rightarrow>
          (case key_value of
             None \<Rightarrow> Some []
           | Some kv \<Rightarrow>
               (case form_pair malloc k form_data1 kv of
                  None \<Rightarrow> None
                | Some (form_data2, k, out) \<Rightarrow>
                    map_option (\<lambda>outs. out @ outs) (form_loop malloc k form_data2 saveptr1))))"
  by pat_completeness auto
termination
  by (relation "measure (\<lambda>(malloc, k, b, i). length b - i)")
    (auto dest!: form_pair_length dest: c_strtok_r_advance)

declare form_loop.simps [simp del]

definition html_parse_form_data :: "allocator \<Rightarrow> bytes \<Rightarrow> (string \<times> string) list option" where
  \<comment> \<open>the calls of the callback; without memory for the copy the tokeniser starts from an
    uninitialised pointer, and without memory for a value the decoder writes to the null pointer\<close>
  "html_parse_form_data malloc body = do {
     form_data \<leftarrow> z_strdup malloc 0 body;
     case form_data of None \<Rightarrow> None
     | Some form_data \<Rightarrow> form_loop malloc 1 form_data 0
   }"

subsection \<open>Lemmas: decoding\<close>

definition url_plain :: "char \<Rightarrow> char" where
  "url_plain c = (if c = CHR ''+'' then CHR '' '' else c)"

definition hex_char :: "char \<Rightarrow> char \<Rightarrow> char" where
  "hex_char a b = char_of (16 * hex_digit a + hex_digit b)"

fun url_dec :: "string \<Rightarrow> string" where
  \<comment> \<open>percent decoding of a string\<close>
  "url_dec (c # a # b # s) =
     (if c = CHR 0x25 \<and> is_xdigit a \<and> is_xdigit b then hex_char a b # url_dec s
      else url_plain c # url_dec (a # b # s))"
| "url_dec (c # s) = url_plain c # url_dec s"
| "url_dec [] = []"

lemma url_dec_length: "length (url_dec s) \<le> length s"
  by (induction s rule: url_dec.induct) auto

lemma is_xdigit_not_NUL: "is_xdigit c \<Longrightarrow> c \<noteq> NUL"
  by (auto simp: is_xdigit_def Let_def)

lemma url_decode_step:
  \<comment> \<open>one pass: what is written, where the loop goes on, what is left\<close>
  assumes "terminated src" "NUL \<notin> set (take si src)" "src ! si \<noteq> NUL"
  shows "\<exists>d sj. url_decode_loop src si (pre @ x # rest) (length pre) =
      url_decode_loop src sj (pre @ d # rest) (Suc (length pre)) \<and>
    url_dec (cstr (drop si src)) = d # url_dec (cstr (drop sj src)) \<and>
    si < sj \<and> NUL \<notin> set (take sj src) \<and> length (cstr (drop sj src)) < length (cstr (drop si src))"
proof -
  note d = terminated_drop[OF assms(1,2)]
  note n1 = d(5)[OF assms(3)]
  note d1 = terminated_drop[OF assms(1) n1]
  let ?c = "src ! si" and ?a = "src ! Suc si" and ?b = "src ! Suc (Suc si)"
  have s: "cstr (drop si src) = ?c # cstr (drop (Suc si) src)" using d(4) assms(3) by simp
  show ?thesis
  proof (cases "?c = CHR 0x25 \<and> ?a \<noteq> NUL")
    case False
    then have "url_decode_loop src si (pre @ x # rest) (length pre) =
        url_decode_loop src (Suc si) (pre @ url_plain ?c # rest) (Suc (length pre))"
      using d(1) d1(1) assms(3)
      by (subst url_decode_loop.simps) (auto simp: wr_append url_plain_def Let_def simp del: wr_Some)
    moreover have "url_dec (?c # cstr (drop (Suc si) src)) = url_plain ?c # url_dec (cstr (drop (Suc si) src))"
      using False d1(4) by (cases "cstr (drop (Suc si) src)"; cases "tl (cstr (drop (Suc si) src))") (auto split: if_splits)
    ultimately show ?thesis using n1 by (intro exI[of _ "url_plain ?c"] exI[of _ "Suc si"]) (simp add: s)
  next
    case True
    note n2 = d1(5)[OF conjunct2[OF True]]
    note d2 = terminated_drop[OF assms(1) n2]
    have s2: "cstr (drop (Suc si) src) = ?a # cstr (drop (Suc (Suc si)) src)" using d1(4) True by simp
    have loop: "url_decode_loop src si (pre @ x # rest) (length pre) =
        (if ?b \<noteq> NUL \<and> is_xdigit ?a \<and> is_xdigit ?b
         then url_decode_loop src (si + 3) (pre @ hex_char ?a ?b # rest) (Suc (length pre))
         else url_decode_loop src (Suc si) (pre @ url_plain ?c # rest) (Suc (length pre)))"
      using d(1) d1(1) d2(1) True
      by (subst url_decode_loop.simps) (auto simp: wr_append url_plain_def hex_char_def Let_def simp del: wr_Some)
    show ?thesis
    proof (cases "?b \<noteq> NUL \<and> is_xdigit ?a \<and> is_xdigit ?b")
      case x: True
      have "cstr (drop (Suc (Suc si)) src) = ?b # cstr (drop (si + 3) src)"
        using d2(4) x by (simp add: eval_nat_numeral)
      moreover have "NUL \<notin> set (take (si + 3) src)" using d2(5) x by (simp add: eval_nat_numeral)
      ultimately show ?thesis using loop x True
        by (intro exI[of _ "hex_char ?a ?b"] exI[of _ "si + 3"]) (simp add: s s2)
    next
      case x: False
      have "url_dec (?c # ?a # cstr (drop (Suc (Suc si)) src)) = url_plain ?c # url_dec (?a # cstr (drop (Suc (Suc si)) src))"
        using x d2(4) by (cases "?b = NUL") auto
      then show ?thesis using loop x n1
        by (intro exI[of _ "url_plain ?c"] exI[of _ "Suc si"]) (simp add: s s2)
    qed
  qed
qed

lemma url_decode_loop_spec:
  assumes "terminated src" "NUL \<notin> set (take si src)" "length (cstr (drop si src)) < length rest"
  shows "url_decode_loop src si (pre @ rest) (length pre) =
    Some (pre @ url_dec (cstr (drop si src)) @ NUL # drop (Suc (length (url_dec (cstr (drop si src))))) rest)"
  using assms(2,3)
proof (induction "length (cstr (drop si src))" arbitrary: si pre rest rule: less_induct)
  case less
  note d = terminated_drop[OF assms(1) less.prems(1)]
  obtain x rest' where rest: "rest = x # rest'" using less.prems(2) by (cases rest) auto
  show ?case
  proof (cases "src ! si = NUL")
    case True
    then show ?thesis using d by (subst url_decode_loop.simps) (simp add: rest wr_append del: wr_Some)
  next
    case False
    obtain e sj where s: "url_decode_loop src si (pre @ x # rest') (length pre) =
        url_decode_loop src sj ((pre @ [e]) @ rest') (length (pre @ [e]))"
      "url_dec (cstr (drop si src)) = e # url_dec (cstr (drop sj src))"
      "NUL \<notin> set (take sj src)" "length (cstr (drop sj src)) < length (cstr (drop si src))"
      using url_decode_step[OF assms(1) less.prems(1) False, of pre x rest'] by auto
    have "length (cstr (drop sj src)) < length rest'" using s(4) less.prems(2) rest by simp
    from less.hyps[OF s(4,3) this, of "pre @ [e]"] show ?thesis unfolding rest s(1,2) by simp
  qed
qed

lemma url_decode_spec:
  assumes "terminated src" "length (cstr src) < length dst"
  shows "url_decode src dst = Some (url_dec (cstr src) @ NUL # drop (Suc (length (url_dec (cstr src)))) dst)"
  using url_decode_loop_spec[of src 0 dst "[]"] assms by (simp add: url_decode_def)

subsection \<open>Lemmas: tokens\<close>

lemma str_skip_spec:
  assumes "b = pre @ s @ NUL # r" "NUL \<notin> set s" "pos = length pre"
  shows "str_skip P b pos = Some (pos + length (takeWhile P s))"
  using assms
proof (induction s arbitrary: pre pos)
  case Nil
  then show ?case by (simp add: str_skip.simps)
next
  case (Cons c s)
  have "str_skip P b (Suc pos) = Some (Suc pos + length (takeWhile P s))"
    using Cons.IH[of "pre @ [c]" "Suc pos"] Cons.prems by simp
  moreover have "str_skip P b pos = (if P c then str_skip P b (Suc pos) else Some pos)"
    using Cons.prems by (subst str_skip.simps) auto
  ultimately show ?case by simp
qed

lemma c_strtok_r_spec:
  assumes "b = pre @ s @ NUL # r" "NUL \<notin> set s" "d \<noteq> NUL"
    and "s = lead @ s1" "lead = takeWhile (\<lambda>c. c = d) s"
  shows "s1 = [] \<Longrightarrow> c_strtok_r b (length pre) d = Some (b, None, length pre + length s)"
    and "s1 \<noteq> [] \<Longrightarrow> d \<notin> set s1 \<Longrightarrow>
      c_strtok_r b (length pre) d = Some (b, Some (length pre + length lead), length pre + length s)"
    and "s1 = t @ d # u \<Longrightarrow> t \<noteq> [] \<Longrightarrow> d \<notin> set t \<Longrightarrow> c_strtok_r b (length pre) d =
      Some (pre @ lead @ t @ NUL # u @ NUL # r, Some (length pre + length lead), length pre + length lead + length t + 1)"
proof -
  have k1: "str_skip (\<lambda>c. c = d) b (length pre) = Some (length pre + length lead)"
    using str_skip_spec[OF assms(1,2) refl] assms(5) by simp
  have k2: "str_skip (\<lambda>c. c \<noteq> d) b (length pre + length lead) =
      Some (length pre + length lead + length (takeWhile (\<lambda>c. c \<noteq> d) s1))"
    by (rule str_skip_spec[of b "pre @ lead" s1 r]) (use assms(1,2,4) in simp_all)
  have h: "s1 \<noteq> [] \<Longrightarrow> rd b (length pre + length lead) = Some (hd s1) \<and> hd s1 \<noteq> NUL"
    using assms(1,2,4) by (cases s1) (auto simp: rd_eq_Some nth_append)
  show "s1 = [] \<Longrightarrow> c_strtok_r b (length pre) d = Some (b, None, length pre + length s)"
    using k1 assms(1,4) by (simp add: c_strtok_r_def nth_append)
  show "s1 \<noteq> [] \<Longrightarrow> d \<notin> set s1 \<Longrightarrow>
      c_strtok_r b (length pre) d = Some (b, Some (length pre + length lead), length pre + length s)"
  proof -
    assume s1: "s1 \<noteq> []" "d \<notin> set s1"
    then have tw: "takeWhile (\<lambda>c. c \<noteq> d) s1 = s1" by (auto simp: takeWhile_eq_all_conv)
    have "rd b (length pre + length lead + length s1) = Some NUL"
      using assms(1,4) by (simp add: nth_append)
    then show ?thesis using h s1(1) assms(4) by (simp add: c_strtok_r_def k1 k2[unfolded tw])
  qed
  show "s1 = t @ d # u \<Longrightarrow> t \<noteq> [] \<Longrightarrow> d \<notin> set t \<Longrightarrow> c_strtok_r b (length pre) d =
      Some (pre @ lead @ t @ NUL # u @ NUL # r, Some (length pre + length lead), length pre + length lead + length t + 1)"
  proof -
    assume s1: "s1 = t @ d # u" "t \<noteq> []" "d \<notin> set t"
    then have tw: "takeWhile (\<lambda>c. c \<noteq> d) s1 = t" by (simp add: takeWhile_tail) (auto simp: takeWhile_append2)
    have b: "b = (pre @ lead @ t) @ d # u @ NUL # r" using assms(1,4) s1(1) by simp
    have "rd b (length pre + length lead + length t) = Some d"
      "wr b (length pre + length lead + length t) NUL = Some ((pre @ lead @ t) @ NUL # u @ NUL # r)"
      unfolding b by (simp_all add: rd_append' wr_append' del: wr_Some rd_Some append_assoc)
    then show ?thesis using h s1(1,2) assms(3) by (simp add: c_strtok_r_def k1 k2[unfolded tw])
  qed
qed

lemma c_strtok_r_end:
  "b = pre @ NUL # r \<Longrightarrow> p = length pre \<Longrightarrow> d \<noteq> NUL \<Longrightarrow> c_strtok_r b p d = Some (b, None, p)"
  using c_strtok_r_spec(1)[of b pre "[]" r d "[]" "[]"] by simp

subsection \<open>Lemmas: pairs\<close>

function toks :: "char \<Rightarrow> string \<Rightarrow> string list" where
  \<comment> \<open>the non-empty pieces between delimiters\<close>
  "toks d s =
     (case dropWhile (\<lambda>c. c = d) s of [] \<Rightarrow> []
      | c # s1 \<Rightarrow> takeWhile (\<lambda>c. c \<noteq> d) (c # s1) # toks d (dropWhile (\<lambda>c. c \<noteq> d) (c # s1)))"
  by pat_completeness auto
termination
proof (relation "measure (\<lambda>(d, s). length s)", goal_cases)
  case (2 d s c s1)
  have "c \<noteq> d" using 2 by (metis (mono_tags, lifting) hd_dropWhile list.distinct(1) list.sel(1))
  then have "length (dropWhile (\<lambda>c. c \<noteq> d) (c # s1)) \<le> length s1" by (simp add: length_dropWhile_le)
  moreover have "length (c # s1) \<le> length s" using 2 by (metis length_dropWhile_le)
  ultimately show ?case by simp
qed simp

declare toks.simps [simp del]

lemma toks_cases:
  assumes "lead = takeWhile (\<lambda>c. c = d) s"
  obtains (none) "s = lead" "toks d s = []"
    | (last) s1 where "s = lead @ s1" "s1 \<noteq> []" "d \<notin> set s1" "toks d s = [s1]"
    | (more) t u where "s = lead @ t @ d # u" "t \<noteq> []" "d \<notin> set t" "toks d s = t # toks d u"
proof -
  have s: "s = lead @ dropWhile (\<lambda>c. c = d) s" by (simp add: assms)
  show thesis
  proof (cases "dropWhile (\<lambda>c. c = d) s")
    case Nil
    have "toks d s = []" by (subst toks.simps) (simp only: Nil list.case)
    moreover have "s = lead" using s unfolding Nil by simp
    ultimately show ?thesis using none by blast
  next
    case (Cons c s1)
    then have c: "c \<noteq> d" by (metis (mono_tags, lifting) hd_dropWhile list.distinct(1) list.sel(1))
    define t where "t = takeWhile (\<lambda>c. c \<noteq> d) (c # s1)"
    have tk: "toks d s = t # toks d (dropWhile (\<lambda>c. c \<noteq> d) (c # s1))"
      using Cons by (simp add: toks.simps[of d s] t_def)
    have t: "t \<noteq> []" "d \<notin> set t" using c by (auto simp: t_def dest: set_takeWhileD)
    show ?thesis
    proof (cases "dropWhile (\<lambda>c. c \<noteq> d) (c # s1)")
      case Nil
      then have "t = c # s1" unfolding t_def by (metis append_Nil2 takeWhile_dropWhile_id)
      moreover have "toks d [] = []" by (simp add: toks.simps)
      ultimately show ?thesis using last[of t] s Cons t tk Nil by simp
    next
      case dw: (Cons x u)
      then have x: "x = d" by (metis (mono_tags, lifting) hd_dropWhile list.distinct(1) list.sel(1))
      have "c # s1 = t @ d # u" unfolding t_def using dw x by (metis takeWhile_dropWhile_id)
      moreover have "toks d (d # u) = toks d u" by (simp add: toks.simps[of d "d # u"] toks.simps[of d u])
      ultimately show ?thesis using more[of t u] s Cons t tk dw x by simp
    qed
  qed
qed

definition pair_of :: "string \<Rightarrow> (string \<times> string) list" where
  \<comment> \<open>what one piece of the form contributes\<close>
  "pair_of s = (case toks (CHR ''='') s of [] \<Rightarrow> [] | [k] \<Rightarrow> [(k, [])] | k # v # _ \<Rightarrow> [(k, cstr (url_dec v))])"

definition malloc_ok :: "allocator \<Rightarrow> bool" where
  "malloc_ok malloc = (\<forall>k n. \<exists>b. malloc k n = Some b \<and> length b = n)"

lemma drop_at [simp]: "n = length a \<Longrightarrow> drop n (a @ b) = b"
  by simp

lemma form_value:
  assumes "malloc_ok malloc" "terminated v"
  shows "\<exists>b b' n. c_strlen v = Some n \<and> malloc k (n + 1) = Some b \<and> url_decode v b = Some b' \<and>
    terminated b' \<and> cstr b' = cstr (url_dec (cstr v))"
proof -
  obtain b where b: "malloc k (length (cstr v) + 1) = Some b" "length b = length (cstr v) + 1"
    using assms(1) by (auto simp: malloc_ok_def)
  then show ?thesis using assms(2) url_decode_spec[OF assms(2), of b]
    by (simp add: c_strlen_eq cstr_cut terminated_def)
qed

lemma toks_Nil [simp]: "toks d [] = []"
  by (simp add: toks.simps)

lemma c_strtok_r_none:
  assumes "NUL \<notin> set s" "d \<noteq> NUL" "toks d s = []"
  shows "c_strtok_r (pre @ s @ NUL # r) (length pre) d = Some (pre @ s @ NUL # r, None, length pre + length s)"
proof -
  define lead where "lead = takeWhile (\<lambda>c. c = d) s"
  have "s = lead" using lead_def by (cases rule: toks_cases) (use assms(3) in auto)
  then show ?thesis by (intro c_strtok_r_spec(1)[OF refl assms(1,2) _ lead_def]) simp_all
qed

lemma c_strtok_r_token:
  \<comment> \<open>a call cuts the string into the token \<open>t\<close> with its terminator and the part \<open>z\<close> still to come\<close>
  assumes "NUL \<notin> set s" "d \<noteq> NUL" "toks d s = t # ts"
  shows "\<exists>lead a z. c_strtok_r (pre @ s @ NUL # r) (length pre) d =
      Some (pre @ a @ z @ NUL # r, Some (length (pre @ lead)), length (pre @ a)) \<and>
    (a = lead @ t \<and> z = [] \<or> a = lead @ t @ [NUL]) \<and> length a + length z = length s \<and> length z < length s \<and>
    NUL \<notin> set t \<and> NUL \<notin> set z \<and> toks d z = ts"
proof -
  define lead where "lead = takeWhile (\<lambda>c. c = d) s"
  from lead_def show ?thesis
  proof (cases rule: toks_cases)
    case none
    then show ?thesis using assms(3) by simp
  next
    case (last s1)
    have "c_strtok_r (pre @ s @ NUL # r) (length pre) d =
        Some (pre @ s @ NUL # r, Some (length pre + length lead), length pre + length s)"
      by (rule c_strtok_r_spec(2)[OF refl assms(1,2) last(1) lead_def last(2,3)])
    moreover have "NUL \<notin> set s1" "0 < length s" using last(1,2) assms(1) by (metis Un_iff set_append) (subst last(1), simp add: last(2))
    ultimately show ?thesis using last(1,4) assms(3) by (intro exI[of _ lead] exI[of _ s] exI[of _ "[]"]) simp
  next
    case (more t' u)
    have "c_strtok_r (pre @ s @ NUL # r) (length pre) d = Some (pre @ lead @ t' @ NUL # u @ NUL # r,
        Some (length pre + length lead), length pre + length lead + length t' + 1)"
      by (rule c_strtok_r_spec(3)[OF refl assms(1,2) more(1) lead_def refl more(2,3)])
    moreover have "NUL \<notin> set t'" "NUL \<notin> set u" using more(1) assms(1) by (metis Un_iff list.set_intros(2) set_append)+
    moreover have "length s = Suc (length lead + length t' + length u)" by (subst more(1)) simp
    ultimately show ?thesis using more(4) assms(3)
      by (intro exI[of _ lead] exI[of _ "lead @ t' @ [NUL]"] exI[of _ u]) simp
  qed
qed

lemma token_cstr:
  assumes "a = lead @ t \<and> z = [] \<or> a = lead @ t @ [NUL]" "NUL \<notin> set t" "length z' = length z"
  shows "terminated (drop (length (pre @ lead)) (pre @ a @ z' @ NUL # r))"
    "cstr (drop (length (pre @ lead)) (pre @ a @ z' @ NUL # r)) = t"
  using assms by (auto simp: terminated_def)

lemma form_pair_spec:
  assumes "malloc_ok malloc" "NUL \<notin> set s"
  shows "\<exists>s' k'. form_pair malloc k (pre @ s @ NUL # r) (length pre) =
      Some (pre @ s' @ NUL # r, k', pair_of s) \<and> length s' = length s"
proof (cases "toks (CHR ''='') s")
  case Nil
  have d: "CHR ''='' \<noteq> NUL" by simp
  have "c_strtok_r (pre @ s @ NUL # r) (length pre + length s) (CHR ''='') = Some (pre @ s @ NUL # r, None, length pre + length s)"
    by (rule c_strtok_r_end[of _ "pre @ s" r]) simp_all
  then show ?thesis using c_strtok_r_none[OF assms(2) d Nil, of pre r] Nil
    by (intro exI[of _ s] exI[of _ k]) (simp add: form_pair_def pair_of_def)
next
  case (Cons t ts)
  let ?b = "pre @ s @ NUL # r" and ?d = "CHR ''=''"
  have d: "?d \<noteq> NUL" by simp
  obtain lead a z where 1: "c_strtok_r ?b (length pre) ?d =
      Some (pre @ a @ z @ NUL # r, Some (length (pre @ lead)), length (pre @ a))"
    and a: "a = lead @ t \<and> z = [] \<or> a = lead @ t @ [NUL]" "length a + length z = length s" "NUL \<notin> set t"
      "NUL \<notin> set z" "toks ?d z = ts"
    using c_strtok_r_token[OF assms(2) d Cons, of pre r] by blast
  have key: "terminated (drop (length (pre @ lead)) (pre @ a @ z' @ NUL # r))"
    "cstr (drop (length (pre @ lead)) (pre @ a @ z' @ NUL # r)) = t" if "length z' = length z" for z'
    by (rule token_cstr[OF a(1,3) that])+
  have pv: ?thesis if "c_strtok_r ((pre @ a) @ z @ NUL # r) (length (pre @ a)) ?d = Some (pre @ a @ z' @ NUL # r, val, st)"
    "v = (case val of None \<Rightarrow> lit [] | Some j \<Rightarrow> drop j (pre @ a @ z' @ NUL # r))" "terminated v"
    "length z' = length z" "pair_of s = [(t, cstr (url_dec (cstr v)))]" for z' val st v
    using 1 that(1,2,5) form_value[OF assms(1) that(3), of k] key[OF that(4)] a(2) that(4)
    by (intro exI[of _ "a @ z'"] exI[of _ "k + 1"]) (auto simp: form_pair_def c_strlen_eq)
  show ?thesis
  proof (cases ts)
    case Nil
    have "cstr (lit []) = []" "url_dec [] = []" "terminated (lit [])" by (simp_all add: lit_def terminated_def)
    then show ?thesis using pv[of z None] c_strtok_r_none[OF a(4) d, of "pre @ a" r] a(5) Nil Cons
      by (simp add: pair_of_def)
  next
    case ts: (Cons v vs)
    obtain lead2 a2 z2 where 2: "c_strtok_r ((pre @ a) @ z @ NUL # r) (length (pre @ a)) ?d =
        Some ((pre @ a) @ a2 @ z2 @ NUL # r, Some (length ((pre @ a) @ lead2)), length ((pre @ a) @ a2))"
      and a2: "a2 = lead2 @ v \<and> z2 = [] \<or> a2 = lead2 @ v @ [NUL]" "length a2 + length z2 = length z" "NUL \<notin> set v"
      using c_strtok_r_token[OF a(4) d, of v vs "pre @ a" r] a(5) ts by blast
    note val = token_cstr[OF a2(1,3) refl, of "pre @ a" r]
    show ?thesis using pv[of "a2 @ z2", OF _ refl] 2 val a2(2) Cons ts by (simp add: pair_of_def)
  qed
qed

lemma form_loop_spec:
  assumes "malloc_ok malloc" "NUL \<notin> set s"
  shows "form_loop malloc k (pre @ s @ NUL # r) (length pre) = Some (concat (map pair_of (toks (CHR ''&'') s)))"
  using assms(2)
proof (induction "length s" arbitrary: s k pre rule: less_induct)
  case less
  let ?b = "pre @ s @ NUL # r" and ?d = "CHR ''&''"
  have d: "?d \<noteq> NUL" by simp
  show ?case
  proof (cases "toks ?d s")
    case Nil
    then show ?thesis using c_strtok_r_none[OF less.prems d Nil, of pre r] by (simp add: form_loop.simps)
  next
    case (Cons t ts)
    obtain lead a z where 1: "c_strtok_r ?b (length pre) ?d =
        Some (pre @ a @ z @ NUL # r, Some (length (pre @ lead)), length (pre @ a))"
      and a: "a = lead @ t \<and> z = [] \<or> a = lead @ t @ [NUL]" "length z < length s" "NUL \<notin> set t"
        "NUL \<notin> set z" "toks ?d z = ts"
      using c_strtok_r_token[OF less.prems d Cons, of pre r] by blast
    define rest where "rest = (if a = lead @ t @ [NUL] then z @ NUL # r else r)"
    have b: "pre @ a @ z @ NUL # r = (pre @ lead) @ t @ NUL # rest" using a(1) by (auto simp: rest_def)
    obtain t' k' where p: "form_pair malloc k ((pre @ lead) @ t @ NUL # rest) (length (pre @ lead)) =
        Some ((pre @ lead) @ t' @ NUL # rest, k', pair_of t)" "length t' = length t"
      using form_pair_spec[OF assms(1) a(3)] by blast
    define a' where "a' = (if a = lead @ t @ [NUL] then lead @ t' @ [NUL] else lead @ t')"
    have b': "(pre @ lead) @ t' @ NUL # rest = (pre @ a') @ z @ NUL # r" "length a' = length a"
      using a(1) p(2) by (auto simp: rest_def a'_def)
    have "form_loop malloc k' ((pre @ a') @ z @ NUL # r) (length (pre @ a)) = Some (concat (map pair_of ts))"
      using less.hyps[OF a(2,4), of k' "pre @ a'"] b'(2) a(5) by simp
    then show ?thesis using 1 p(1) Cons unfolding b b'(1) by (subst form_loop.simps) simp
  qed
qed

lemma html_parse_spec:
  assumes "malloc_ok malloc" "terminated body"
  shows "html_parse_form_data malloc body = Some (concat (map pair_of (toks (CHR ''&'') (cstr body))))"
proof -
  obtain b where b: "malloc 0 (length (cstr body) + 1) = Some b" "length b = length (cstr body) + 1"
    using assms(1) by (auto simp: malloc_ok_def)
  have "length (cstr body) + 1 \<le> length body" using length_cstr_less[OF assms(2)] by simp
  then have "c_memcpy b 0 body (length (cstr body) + 1) = Some (cstr body @ [NUL])"
    using b(2) take_cstr_NUL[OF assms(2)] by (simp add: c_memcpy_def wr_block_def)
  then have "z_strdup malloc 0 body = Some (Some (cstr body @ [NUL]))"
    using b(1) assms(2) by (simp add: z_strdup_def c_strlen_eq)
  then show ?thesis using form_loop_spec[OF assms(1), of "cstr body" 1 "[]" "[]"]
    by (simp add: html_parse_form_data_def)
qed

subsection \<open>Lemmas: an encoder\<close>

definition hex_of :: "nat \<Rightarrow> char" where
  "hex_of n = char_of (if n < 10 then 48 + n else 55 + n)"

definition url_safe :: "char \<Rightarrow> bool" where
  "url_safe c = (let n = (of_char c :: nat) in 48 \<le> n \<and> n \<le> 57 \<or> 65 \<le> n \<and> n \<le> 90 \<or> 97 \<le> n \<and> n \<le> 122)"

definition url_enc :: "string \<Rightarrow> string" where
  "url_enc s = concat (map (\<lambda>c. if url_safe c then [c]
     else [CHR 0x25, hex_of (of_char c div 16), hex_of (of_char c mod 16)]) s)"

definition form_text :: "(string \<times> string) list \<Rightarrow> string" where
  "form_text kvs = concat (map (\<lambda>(k, v). k @ ''='' @ url_enc v @ ''&'') kvs)"

lemma hex_of: "n < 16 \<Longrightarrow> is_xdigit (hex_of n) \<and> hex_digit (hex_of n) = n"
  by (auto simp: hex_of_def is_xdigit_def hex_digit_def Let_def)

lemma url_enc_simps [simp]:
  "url_enc [] = []"
  "url_enc (c # s) = (if url_safe c then [c] else [CHR 0x25, hex_of (of_char c div 16), hex_of (of_char c mod 16)]) @ url_enc s"
  by (simp_all add: url_enc_def)

lemma hex_of_char: "is_xdigit (hex_of (of_char c div 16))" "is_xdigit (hex_of (of_char c mod 16))"
  "hex_char (hex_of (of_char c div 16)) (hex_of (of_char c mod 16)) = c"
proof -
  have "of_char c div 16 < (16 :: nat)" "of_char c mod 16 < (16 :: nat)"
    using of_char_less_256[of c] by (simp_all add: less_mult_imp_div_less)
  note h = hex_of[OF this(1)] hex_of[OF this(2)]
  show "is_xdigit (hex_of (of_char c div 16))" "is_xdigit (hex_of (of_char c mod 16))" using h by auto
  have "16 * (of_char c div 16) + of_char c mod 16 = (of_char c :: nat)" by simp
  then show "hex_char (hex_of (of_char c div 16)) (hex_of (of_char c mod 16)) = c"
    using h by (simp add: hex_char_def)
qed

lemma url_safe_plain: "url_safe c \<Longrightarrow> url_plain c = c \<and> c \<noteq> CHR 0x25 \<and> c \<noteq> CHR ''&'' \<and> c \<noteq> CHR ''='' \<and> c \<noteq> NUL"
  by (auto simp: url_safe_def url_plain_def Let_def)

lemma xdigit_plain: "is_xdigit c \<Longrightarrow> c \<noteq> CHR ''&'' \<and> c \<noteq> CHR ''='' \<and> c \<noteq> NUL"
  by (auto simp: is_xdigit_def Let_def)

lemma url_dec_plain_cons: "c \<noteq> CHR 0x25 \<Longrightarrow> url_dec (c # s) = url_plain c # url_dec s"
  by (cases "(c # s, ())" rule: prod.exhaust; cases s; cases "tl s") auto

lemma url_dec_enc: "url_dec (url_enc s) = s"
  by (induction s) (auto simp: url_dec_plain_cons url_safe_plain hex_of_char)

lemma url_enc_chars: "CHR ''&'' \<notin> set (url_enc s) \<and> CHR ''='' \<notin> set (url_enc s) \<and> NUL \<notin> set (url_enc s)"
proof (induction s)
  case (Cons c s)
  then show ?case
    using xdigit_plain[OF hex_of_char(1)[of c]] xdigit_plain[OF hex_of_char(2)[of c]] url_safe_plain[of c]
    by (cases "url_safe c") auto
qed simp

lemma toks_single: "s \<noteq> [] \<Longrightarrow> d \<notin> set s \<Longrightarrow> toks d s = [s]"
proof -
  assume s: "s \<noteq> []" "d \<notin> set s"
  then have "takeWhile (\<lambda>c. c = d) s = []" by (cases s) auto
  then show ?thesis using s by (cases rule: toks_cases[of "takeWhile (\<lambda>c. c = d) s" d s, OF refl]) auto
qed

lemma toks_sep: "t \<noteq> [] \<Longrightarrow> d \<notin> set t \<Longrightarrow> toks d (t @ d # u) = t # toks d u"
proof -
  assume t: "t \<noteq> []" "d \<notin> set t"
  then have "dropWhile (\<lambda>c. c = d) (t @ d # u) = t @ d # u" by (cases t) auto
  moreover have "takeWhile (\<lambda>c. c \<noteq> d) (t @ d # u) = t" "dropWhile (\<lambda>c. c \<noteq> d) (t @ d # u) = d # u"
    using t(2) by (induction t) auto
  moreover have "toks d (d # u) = toks d u" by (simp add: toks.simps[of d "d # u"] toks.simps[of d u])
  moreover obtain c t' where "t @ d # u = c # t'" using t(1) by (cases t) auto
  ultimately show ?thesis by (subst toks.simps) simp
qed

lemma pair_of_encoded:
  assumes "k \<noteq> []" "CHR ''='' \<notin> set k" "NUL \<notin> set v"
  shows "pair_of (k @ CHR ''='' # url_enc v) = [(k, v)]"
proof -
  have t: "toks (CHR ''='') (k @ CHR ''='' # url_enc v) = k # toks (CHR ''='') (url_enc v)"
    by (rule toks_sep[OF assms(1,2)])
  show ?thesis
  proof (cases "url_enc v = []")
    case True
    then have "v = []" using url_dec_enc[of v] by simp
    moreover have "toks (CHR ''='') [] = []" by (simp add: toks.simps)
    ultimately show ?thesis using t by (simp add: pair_of_def)
  next
    case False
    then have "toks (CHR ''='') (url_enc v) = [url_enc v]" using url_enc_chars by (intro toks_single) auto
    then show ?thesis using t assms(3) by (simp add: pair_of_def url_dec_enc)
  qed
qed

lemma form_text_toks:
  assumes "\<forall>(k, v)\<in>set kvs. k \<noteq> [] \<and> CHR ''='' \<notin> set k \<and> CHR ''&'' \<notin> set k \<and> NUL \<notin> set k \<and> NUL \<notin> set v"
  shows "concat (map pair_of (toks (CHR ''&'') (form_text kvs))) = kvs \<and> NUL \<notin> set (form_text kvs)"
  using assms
proof (induction kvs)
  case Nil
  then show ?case by (simp add: form_text_def toks.simps)
next
  case (Cons kv kvs)
  obtain k v where kv: "kv = (k, v)" by (cases kv)
  have p: "k \<noteq> []" "CHR ''='' \<notin> set k" "CHR ''&'' \<notin> set k" "NUL \<notin> set k" "NUL \<notin> set v"
    using Cons.prems kv by auto
  have "form_text (kv # kvs) = (k @ CHR ''='' # url_enc v) @ CHR ''&'' # form_text kvs"
    by (simp add: form_text_def kv)
  moreover have "CHR ''&'' \<notin> set (k @ CHR ''='' # url_enc v)" "NUL \<notin> set (url_enc v)" "k @ CHR ''='' # url_enc v \<noteq> []"
    using p url_enc_chars by auto
  ultimately show ?case
    using toks_sep[of "k @ CHR ''='' # url_enc v" "CHR ''&''" "form_text kvs"] pair_of_encoded[OF p(1,2,5)]
      Cons p kv by simp
qed

subsection \<open>Properties\<close>

definition zero_malloc :: allocator where
  "zero_malloc k n = Some (replicate n NUL)"

lemma zero_malloc_ok: "malloc_ok zero_malloc"
  by (simp add: malloc_ok_def zero_malloc_def)



text \<open>
  C36: On any C string the parser stays inside its buffers and calls back once for every piece between
  ampersands that has a name: the text up to the first equals sign after leading ones, not
  decoded, and the decoded text of the next token, empty if there is none. Without memory for
  its copy of the body it runs into undefined behaviour: the result of the allocation is not
  tested.
\<close>

theorem html_parse_pairs:
  assumes "terminated body"
  shows "(malloc_ok malloc \<longrightarrow>
      html_parse_form_data malloc body = Some (concat (map pair_of (toks (CHR ''&'') (cstr body))))) \<and>
    ((\<forall>n. malloc 0 n = None) \<longrightarrow> html_parse_form_data malloc body = None)"
  using html_parse_spec[OF _ assms, of malloc] assms
  by (simp add: html_parse_form_data_def z_strdup_def c_strlen_eq)

theorem html_parse_pairs_witness:
  "html_parse_form_data zero_malloc (lit ''=a%3d=b+c&x'') = Some [(''a%3d'', ''b c''), (''x'', [])]"
proof -
  have "toks (CHR ''&'') ''=a%3d=b+c&x'' = [''=a%3d=b+c'', ''x'']" "toks (CHR ''='') ''=a%3d=b+c'' = [''a%3d'', ''b+c'']"
    "toks (CHR ''='') ''x'' = [''x'']"
    by (simp_all add: toks.simps)
  then show ?thesis using html_parse_pairs[of "lit ''=a%3d=b+c&x''" zero_malloc] zero_malloc_ok
    by (simp add: pair_of_def url_plain_def)
qed

end
