(* ===== verification/Cloud.thy ===== *)
theory Cloud
  imports Siot_Prelude "HOL-Library.State_Monad"
begin

text \<open>
  apps/siot-nrf/src/cloud/cloud.c and apps/siot-nrf/src/main.c: publishing device data over HTTPS.
  The code drives the socket, TLS, HTTP, JSON and modem libraries; what it is responsible for
  is the order of the calls and the handling of their results. The functions run in the state
  monad over the trace of library calls and results; the libraries are a \<open>cloud_env\<close> that answers
  every call, and may answer it differently each time since it sees the trace so far.
\<close>

subsection \<open>Calls and environment\<close>

datatype sock_opt = SO_RCVTIMEO | SO_SNDTIMEO | TLS_PEER_VERIFY | TLS_SEC_TAG_LIST | TLS_HOSTNAME | TLS_SESSION_CACHE

datatype cloud_call =
  Getaddrinfo | Freeaddrinfo
| Socket | Setsockopt int sock_opt | Connect int | Close int
| Http_client_req int string
| Json_create | Json_add bool | Json_print "string option" | Json_delete | Json_free
| Key_exists | Key_cmp | Key_delete | Key_write
| Modem_init | Psm_req | Lte_connect | Timer_start
| Callback bool

type_synonym trace = "(cloud_call \<times> int) list"

record http_chunk =
  \<comment> \<open>one call of the response callback\<close>
  hc_final :: bool
  hc_status :: int
  hc_body_found :: bool

record cloud_env =
  ce_ret :: "trace \<Rightarrow> cloud_call \<Rightarrow> int"
  ce_errno :: "trace \<Rightarrow> int"
  ce_printed :: "trace \<Rightarrow> string option" \<comment> \<open>the text of the object, or the null pointer\<close>
  ce_exists :: "trace \<Rightarrow> bool" \<comment> \<open>the out parameter of \<open>modem_key_mgmt_exists\<close>\<close>
  ce_chunks :: "trace \<Rightarrow> http_chunk list"

record cloud_state =
  cl_callback :: bool \<comment> \<open>\<open>cloud_callback != NULL\<close>\<close>
  cl_trace :: trace

definition lib_call :: "cloud_env \<Rightarrow> cloud_call \<Rightarrow> (cloud_state, int) state" where
  "lib_call env c = State (\<lambda>s. (ce_ret env (cl_trace s) c,
     s\<lparr>cl_trace := cl_trace s @ [(c, ce_ret env (cl_trace s) c)]\<rparr>))"

definition get_errno :: "cloud_env \<Rightarrow> (cloud_state, int) state" where
  "get_errno env = State (\<lambda>s. (ce_errno env (cl_trace s), s))"

definition EIO :: int where "EIO = 5"
definition EINVAL :: int where "EINVAL = 22"
definition ECONNABORTED :: int where "ECONNABORTED = 113"

definition checked :: "cloud_env \<Rightarrow> cloud_call \<Rightarrow> (cloud_state, int) state \<Rightarrow> (cloud_state, int) state" where
  \<comment> \<open>\<open>err = call(); if (err) { return -errno; }\<close> and the rest\<close>
  "checked env c rest = do {
     err \<leftarrow> lib_call env c;
     if err \<noteq> 0 then do { e \<leftarrow> get_errno env; State_Monad.return (- e) } else rest
   }"

subsection \<open>Sockets\<close>

definition tls_setup :: "cloud_env \<Rightarrow> int \<Rightarrow> (cloud_state, int) state" where
  "tls_setup env fd =
     checked env (Setsockopt fd TLS_PEER_VERIFY)
     (checked env (Setsockopt fd TLS_SEC_TAG_LIST)
     (checked env (Setsockopt fd TLS_HOSTNAME)
     (checked env (Setsockopt fd TLS_SESSION_CACHE)
     (State_Monad.return 0))))"

definition socket_connect :: "cloud_env \<Rightarrow> int \<Rightarrow> (cloud_state, int) state" where
  "socket_connect env fd = do {
     err \<leftarrow> lib_call env (Connect fd);
     if err < 0 then do { e \<leftarrow> get_errno env; State_Monad.return (- e) } else State_Monad.return err
   }"

definition socket_configure :: "cloud_env \<Rightarrow> int \<Rightarrow> (cloud_state, int) state" where
  \<comment> \<open>from the first socket option to the label \<open>clean_up\<close>: the value of \<open>err\<close>\<close>
  "socket_configure env fd =
     checked env (Setsockopt fd SO_RCVTIMEO)
     (checked env (Setsockopt fd SO_SNDTIMEO)
     (do {
        err \<leftarrow> tls_setup env fd;
        if err < 0 then State_Monad.return err else socket_connect env fd
      }))"

definition socket_open :: "cloud_env \<Rightarrow> (cloud_state, int) state" where
  \<comment> \<open>\<open>socket_setup\<close> once the address is known, with its label \<open>clean_up\<close>\<close>
  "socket_open env = do {
     fd \<leftarrow> lib_call env Socket;
     err \<leftarrow> (if fd = -1 then State_Monad.return (- ECONNABORTED) else socket_configure env fd);
     _ \<leftarrow> lib_call env Freeaddrinfo;
     fd \<leftarrow> (if err < 0 \<and> fd > -1 then do { _ \<leftarrow> lib_call env (Close fd); State_Monad.return (-1) }
           else State_Monad.return fd);
     State_Monad.return (if err < 0 then err else fd)
   }"

definition socket_setup :: "cloud_env \<Rightarrow> (cloud_state, int) state" where
  "socket_setup env = do {
     err \<leftarrow> lib_call env Getaddrinfo;
     if err \<noteq> 0 then State_Monad.return (- EIO) else socket_open env
   }"

subsection \<open>Publishing\<close>

definition response_cb :: "http_chunk \<Rightarrow> (cloud_state, int) state" where
  \<comment> \<open>the callback gets a \<open>device_data\<close> with \<open>do_something\<close> false\<close>
  "response_cb rsp =
     (if hc_status rsp \<noteq> 200 \<and> hc_status rsp \<noteq> 201 then State_Monad.return 0
      else if hc_final rsp then
        (if \<not> hc_body_found rsp then State_Monad.return 0
         else State (\<lambda>s. (0, if cl_callback s then s\<lparr>cl_trace := cl_trace s @ [(Callback False, 0)]\<rparr> else s)))
      else State_Monad.return 0)"

fun deliver :: "http_chunk list \<Rightarrow> (cloud_state, int) state" where
  \<comment> \<open>the HTTP client calls \<open>response_cb\<close> for every chunk of the response\<close>
  "deliver [] = State_Monad.return 0"
| "deliver (c # cs) = do { _ \<leftarrow> response_cb c; deliver cs }"

definition http_request :: "cloud_env \<Rightarrow> int \<Rightarrow> string \<Rightarrow> (cloud_state, int) state" where
  "http_request env fd msg = do {
     chunks \<leftarrow> State (\<lambda>s. (ce_chunks env (cl_trace s), s));
     ret \<leftarrow> lib_call env (Http_client_req fd msg);
     _ \<leftarrow> deliver chunks;
     State_Monad.return ret
   }"

definition cloud_publish :: "cloud_env \<Rightarrow> bool \<Rightarrow> (cloud_state, int) state" where
  "cloud_publish env do_something = do {
     _ \<leftarrow> lib_call env Json_create;
     _ \<leftarrow> lib_call env (Json_add do_something);
     msg \<leftarrow> State (\<lambda>s. (ce_printed env (cl_trace s), s\<lparr>cl_trace := cl_trace s @
       [(Json_print (ce_printed env (cl_trace s)), 0)]\<rparr>));
     _ \<leftarrow> lib_call env Json_delete;
     case msg of
       None \<Rightarrow> State_Monad.return (- ENOMEM)
     | Some msg \<Rightarrow> do {
         fd \<leftarrow> socket_setup env;
         if fd < 0 then do { _ \<leftarrow> lib_call env Json_free; State_Monad.return fd }
         else do {
           ret \<leftarrow> http_request env fd msg;
           _ \<leftarrow> lib_call env (Close fd);
           _ \<leftarrow> lib_call env Json_free;
           State_Monad.return (if ret < 0 then ret else 0)
         }
       }
   }"

subsection \<open>Provisioning and start\<close>

definition cert_provision :: "cloud_env \<Rightarrow> (cloud_state, int) state" where
  "cert_provision env = do {
     exists \<leftarrow> State (\<lambda>s. (ce_exists env (cl_trace s), s));
     err \<leftarrow> lib_call env Key_exists;
     if err \<noteq> 0 then State_Monad.return err
     else do {
       match \<leftarrow> (if exists then do {
           mismatch \<leftarrow> lib_call env Key_cmp;
           if mismatch = 0 then State_Monad.return True
           else do { _ \<leftarrow> lib_call env Key_delete; State_Monad.return False }
         } else State_Monad.return False);
       if match then State_Monad.return 0
       else lib_call env Key_write
     }
   }"

definition cloud_init :: "cloud_env \<Rightarrow> bool \<Rightarrow> (cloud_state, int) state" where
  \<comment> \<open>the argument says whether a callback is passed\<close>
  "cloud_init env callback =
     (if \<not> callback then State_Monad.return (- EINVAL)
      else do {
        _ \<leftarrow> State (\<lambda>s. ((), s\<lparr>cl_callback := True\<rparr>));
        _ \<leftarrow> cert_provision env;
        State_Monad.return 0
      })"

definition nrf_start :: "cloud_env \<Rightarrow> (cloud_state, int option) state" where
  \<comment> \<open>\<open>main\<close> up to its loop: \<open>Some\<close> the error it returns, \<open>None\<close> when it goes on to the loop\<close>
  "nrf_start env = do {
     err \<leftarrow> lib_call env Modem_init;
     if err < 0 then State_Monad.return (Some err)
     else do {
       err \<leftarrow> cloud_init env True;
       if err < 0 then State_Monad.return (Some err)
       else do {
         _ \<leftarrow> lib_call env Psm_req;
         err \<leftarrow> lib_call env Lte_connect;
         if err < 0 then State_Monad.return (Some err)
         else do { _ \<leftarrow> lib_call env Timer_start; State_Monad.return None }
       }
     }
   }"

text \<open>The loop of \<open>main\<close>, woken through a semaphore of limit one by the timer and the shell.\<close>

datatype nrf_event = Timeout | Cmd_publish | Main_pass

record nrf_state =
  nrf_sem :: nat
  nrf_cloud :: cloud_state
  nrf_published :: "int list" \<comment> \<open>the results of the calls of \<open>cloud_publish\<close>\<close>

definition k_sem_give :: "nrf_state \<Rightarrow> nrf_state" where
  "k_sem_give s = s\<lparr>nrf_sem := min 1 (nrf_sem s + 1)\<rparr>"

definition nrf_step :: "cloud_env \<Rightarrow> nrf_event \<Rightarrow> nrf_state \<Rightarrow> nrf_state" where
  \<comment> \<open>a pass of the loop blocks while the semaphore is zero\<close>
  "nrf_step env e s = (case e of
     Timeout \<Rightarrow> k_sem_give s
   | Cmd_publish \<Rightarrow> k_sem_give s
   | Main_pass \<Rightarrow>
       (if nrf_sem s = 0 then s
        else (case run_state (cloud_publish env True) (nrf_cloud s) of
          (err, c) \<Rightarrow> s\<lparr>nrf_sem := nrf_sem s - 1, nrf_cloud := c, nrf_published := nrf_published s @ [err]\<rparr>)))"

definition nrf_main :: "cloud_env \<Rightarrow> nrf_event list \<Rightarrow> int \<times> nrf_state + nrf_state" where
  \<comment> \<open>\<open>Inl\<close> the error of the start, \<open>Inr\<close> the state after the events\<close>
  "nrf_main env es = (case run_state (nrf_start env) \<lparr>cl_callback = False, cl_trace = []\<rparr> of
     (Some err, c) \<Rightarrow> Inl (err, \<lparr>nrf_sem = 0, nrf_cloud = c, nrf_published = []\<rparr>)
   | (None, c) \<Rightarrow> Inr (foldl (\<lambda>s e. nrf_step env e s)
       (k_sem_give \<lparr>nrf_sem = 0, nrf_cloud = c, nrf_published = []\<rparr>) es))"

subsection \<open>A monitor of the calls\<close>

text \<open>
  The specification of the order of calls: what the program holds, and which call it may make when.
  Nothing is used before it is obtained or after it is given back, data goes only over a connected
  socket whose peer is verified against the provisioned certificate and the host name, and what is
  sent is the text that was printed.
\<close>

record holdings =
  h_addr :: bool
  h_fd :: "int option"
  h_opts :: "sock_opt set"
  h_conn :: bool
  h_obj :: bool
  h_msg :: "string option"
  h_sent :: "string list"

definition no_holdings :: holdings where
  "no_holdings = \<lparr>h_addr = False, h_fd = None, h_opts = {}, h_conn = False, h_obj = False, h_msg = None, h_sent = []\<rparr>"

fun monitor :: "holdings \<Rightarrow> cloud_call \<times> int \<Rightarrow> holdings option" where
  "monitor h (Getaddrinfo, r) = (if h_addr h then None else Some (h\<lparr>h_addr := r = 0\<rparr>))"
| "monitor h (Freeaddrinfo, r) = (if h_addr h then Some (h\<lparr>h_addr := False\<rparr>) else None)"
| "monitor h (Socket, r) = (if h_addr h \<and> h_fd h = None
     then Some (if 0 \<le> r then h\<lparr>h_fd := Some r, h_opts := {}, h_conn := False\<rparr> else h) else None)"
| "monitor h (Setsockopt fd opt, r) = (if h_fd h = Some fd \<and> \<not> h_conn h
     then Some (if r = 0 then h\<lparr>h_opts := insert opt (h_opts h)\<rparr> else h) else None)"
| "monitor h (Connect fd, r) = (if h_addr h \<and> h_fd h = Some fd \<and> \<not> h_conn h \<and>
       {TLS_PEER_VERIFY, TLS_SEC_TAG_LIST, TLS_HOSTNAME} \<subseteq> h_opts h
     then Some (h\<lparr>h_conn := 0 \<le> r\<rparr>) else None)"
| "monitor h (Close fd, r) = (if h_fd h = Some fd
     then Some (h\<lparr>h_fd := None, h_opts := {}, h_conn := False\<rparr>) else None)"
| "monitor h (Http_client_req fd m, r) = (if h_fd h = Some fd \<and> h_conn h \<and> h_msg h = Some m
     then Some (if 0 \<le> r then h\<lparr>h_sent := h_sent h @ [m]\<rparr> else h) else None)"
| "monitor h (Json_create, r) = (if h_obj h then None else Some (h\<lparr>h_obj := r \<noteq> 0\<rparr>))"
| "monitor h (Json_add b, r) = Some h"
| "monitor h (Json_print t, r) = (if h_msg h = None then Some (h\<lparr>h_msg := t\<rparr>) else None)"
| "monitor h (Json_delete, r) = Some (h\<lparr>h_obj := False\<rparr>)"
| "monitor h (Json_free, r) = (if h_msg h = None then None else Some (h\<lparr>h_msg := None\<rparr>))"
| "monitor h (Callback b, r) = (if h_conn h then Some h else None)"
| "monitor h (c, r) = Some h"

fun monitors :: "holdings \<Rightarrow> trace \<Rightarrow> holdings option" where
  "monitors h [] = Some h"
| "monitors h (e # es) = do { h \<leftarrow> monitor h e; monitors h es }"

lemma monitors_append: "monitors h (es @ es') = do { h \<leftarrow> monitors h es; monitors h es' }"
  by (induction es arbitrary: h) (auto split: Option.bind_splits)

definition triple :: "(holdings \<Rightarrow> bool) \<Rightarrow> (cloud_state, 'a) state \<Rightarrow> ('a \<Rightarrow> holdings \<Rightarrow> bool) \<Rightarrow> bool" where
  \<comment> \<open>from holdings in \<open>P\<close> the run only appends calls that the monitor accepts, and ends in \<open>Q\<close>\<close>
  "triple P m Q = (\<forall>s h. P h \<longrightarrow> (case run_state m s of (r, s') \<Rightarrow>
     \<exists>es h'. s' = s\<lparr>cl_trace := cl_trace s @ es\<rparr> \<and> monitors h es = Some h' \<and> Q r h'))"

definition cloud_env_ok :: "cloud_env \<Rightarrow> bool" where
  \<comment> \<open>errno is positive after a failed call; \<open>socket\<close> returns a descriptor or -1\<close>
  "cloud_env_ok env = (\<forall>tr. 0 < ce_errno env tr \<and> - 1 \<le> ce_ret env tr Socket)"

named_theorems triples \<open>rules of the monitor logic\<close>

lemma triple_return: "(\<And>h. P h \<Longrightarrow> Q r h) \<Longrightarrow> triple P (State_Monad.return r) Q"
  by (auto simp: triple_def intro!: exI[of _ "[]"])

lemma triple_bind:
  assumes "triple P m R" "\<And>r. triple (R r) (f r) Q"
  shows "triple P (m \<bind> f) Q"
  unfolding triple_def
proof (intro allI impI)
  fix s h assume "P h"
  then obtain r s1 es h1 where 1: "run_state m s = (r, s1)" "s1 = s\<lparr>cl_trace := cl_trace s @ es\<rparr>"
    "monitors h es = Some h1" "R r h1"
    using assms(1) unfolding triple_def by (cases "run_state m s") fastforce
  then obtain q s2 es2 h2 where 2: "run_state (f r) s1 = (q, s2)" "s2 = s1\<lparr>cl_trace := cl_trace s1 @ es2\<rparr>"
    "monitors h1 es2 = Some h2" "Q q h2"
    using assms(2)[of r] unfolding triple_def by (cases "run_state (f r) s1") fastforce
  show "case run_state (m \<bind> f) s of (r, s') \<Rightarrow>
      \<exists>es h'. s' = s\<lparr>cl_trace := cl_trace s @ es\<rparr> \<and> monitors h es = Some h' \<and> Q r h'"
    using 1 2 by (auto simp: monitors_append intro!: exI[of _ "es @ es2"])
qed

lemma triple_conseq:
  assumes "triple P' m Q'" "\<And>h. P h \<Longrightarrow> P' h" "\<And>r h. Q' r h \<Longrightarrow> Q r h"
  shows "triple P m Q"
  using assms unfolding triple_def by (fastforce split: prod.splits)

lemma triple_pre: "triple P' m Q \<Longrightarrow> (\<And>h. P h \<Longrightarrow> P' h) \<Longrightarrow> triple P m Q"
  by (rule triple_conseq)

lemma triple_call:
  assumes "\<And>tr h. P h \<Longrightarrow> \<exists>h'. monitor h (c, ce_ret env tr c) = Some h' \<and> Q (ce_ret env tr c) h'"
  shows "triple P (lib_call env c) Q"
  unfolding triple_def
proof (intro allI impI)
  fix s :: cloud_state and h assume "P h"
  from assms[OF this, of "cl_trace s"] obtain h' where
    "monitor h (c, ce_ret env (cl_trace s) c) = Some h'" "Q (ce_ret env (cl_trace s) c) h'" by blast
  then show "case run_state (lib_call env c) s of (r, s') \<Rightarrow>
      \<exists>es h'. s' = s\<lparr>cl_trace := cl_trace s @ es\<rparr> \<and> monitors h es = Some h' \<and> Q r h'"
    by (auto simp: lib_call_def intro!: exI[of _ "[(c, ce_ret env (cl_trace s) c)]"])
qed

lemma triple_errno:
  assumes "cloud_env_ok env" "\<And>e h. P h \<Longrightarrow> 0 < e \<Longrightarrow> Q e h"
  shows "triple P (get_errno env) Q"
  using assms by (auto simp: triple_def get_errno_def cloud_env_ok_def intro!: exI[of _ "[]"])

lemma triple_if:
  assumes "b \<Longrightarrow> triple P m Q" "\<not> b \<Longrightarrow> triple P n Q"
  shows "triple P (if b then m else n) Q"
  using assms by simp

lemma triple_checked:
  assumes "cloud_env_ok env" "\<And>r h. P h \<Longrightarrow> \<exists>h'. monitor h (c, r) = Some h' \<and> (if r = 0 then R h' else \<forall>e<0. Q e h')"
    and "triple R rest Q"
  shows "triple P (checked env c rest) Q"
  unfolding checked_def
proof (rule triple_bind)
  show "triple P (lib_call env c) (\<lambda>r h. if r = 0 then R h else \<forall>e<0. Q e h)"
    by (rule triple_call) (use assms(2) in blast)
  show "triple (\<lambda>h. if r = 0 then R h else \<forall>e<0. Q e h)
      (if r \<noteq> 0 then do { e \<leftarrow> get_errno env; State_Monad.return (- e) } else rest) Q" for r
  proof (cases "r = 0")
    case False
    have "triple (\<lambda>h. \<forall>e<0. Q e h) (do { e \<leftarrow> get_errno env; State_Monad.return (- e) }) Q"
      by (rule triple_bind[OF triple_errno[OF assms(1), where Q = "\<lambda>e h. (\<forall>d<0. Q d h) \<and> 0 < e"]]) (auto intro: triple_return)
    then show ?thesis using False by simp
  qed (use assms(3) in simp)
qed

subsection \<open>Lemmas: every function keeps to the monitor\<close>

definition base :: "string option \<Rightarrow> string list \<Rightarrow> holdings" where
  "base m ms = no_holdings\<lparr>h_msg := m, h_sent := ms\<rparr>"

definition at_fd :: "string option \<Rightarrow> string list \<Rightarrow> sock_opt set \<Rightarrow> int \<Rightarrow> holdings \<Rightarrow> bool" where
  "at_fd m ms opts fd h = (0 \<le> fd \<and> (\<exists>os. opts \<subseteq> os \<and> h = (base m ms)\<lparr>h_addr := True, h_fd := Some fd, h_opts := os\<rparr>))"

lemma at_fd_opt: "at_fd m ms opts fd h \<Longrightarrow> \<exists>h'. monitor h (Setsockopt fd opt, r) = Some h' \<and>
    (if r = 0 then at_fd m ms (insert opt opts) fd h' else at_fd m ms opts fd h')"
  by (auto simp: at_fd_def base_def no_holdings_def)

lemma at_fd_mono: "at_fd m ms opts fd h \<Longrightarrow> opts' \<subseteq> opts \<Longrightarrow> at_fd m ms opts' fd h"
  by (auto simp: at_fd_def)

abbreviation tls_opts :: "sock_opt set" where
  "tls_opts \<equiv> {TLS_PEER_VERIFY, TLS_SEC_TAG_LIST, TLS_HOSTNAME}"

lemma triple_option:
  assumes "cloud_env_ok env" "triple (at_fd m ms (insert opt opts) fd) rest Q"
    and "\<And>e h. e < 0 \<Longrightarrow> at_fd m ms opts fd h \<Longrightarrow> Q e h"
  shows "triple (at_fd m ms opts fd) (checked env (Setsockopt fd opt) rest) Q"
proof (rule triple_checked[OF assms(1) _ assms(2)])
  fix r h assume "at_fd m ms opts fd h"
  from at_fd_opt[OF this, of opt r] obtain h' where "monitor h (Setsockopt fd opt, r) = Some h'"
    "if r = 0 then at_fd m ms (insert opt opts) fd h' else at_fd m ms opts fd h'" by blast
  then show "\<exists>h'. monitor h (Setsockopt fd opt, r) = Some h' \<and>
      (if r = 0 then at_fd m ms (insert opt opts) fd h' else \<forall>e<0. Q e h')"
    using assms(3) by auto
qed

lemma tls_setup_triple:
  assumes "cloud_env_ok env"
  shows "triple (at_fd m ms {} fd) (tls_setup env fd)
    (\<lambda>r h. r < 0 \<and> at_fd m ms {} fd h \<or> r = 0 \<and> at_fd m ms tls_opts fd h)"
  unfolding tls_setup_def
  by (intro triple_option[OF assms] triple_return) (auto intro: at_fd_mono)

definition connected :: "string option \<Rightarrow> string list \<Rightarrow> int \<Rightarrow> holdings \<Rightarrow> bool" where
  "connected m ms fd h = (0 \<le> fd \<and> (\<exists>os. h = (base m ms)\<lparr>h_addr := True, h_fd := Some fd, h_opts := os, h_conn := True\<rparr>))"

lemma socket_connect_triple:
  assumes "cloud_env_ok env"
  shows "triple (at_fd m ms tls_opts fd) (socket_connect env fd)
    (\<lambda>r h. r < 0 \<and> at_fd m ms {} fd h \<or> 0 \<le> r \<and> connected m ms fd h)" (is "triple _ _ ?Q")
  unfolding socket_connect_def
proof (rule triple_bind, rule triple_call)
  show "\<exists>h'. monitor h (Connect fd, ce_ret env tr (Connect fd)) = Some h' \<and> ?Q (ce_ret env tr (Connect fd)) h'"
    if "at_fd m ms tls_opts fd h" for tr h
    using that by (auto simp: at_fd_def connected_def base_def no_holdings_def)
  show "triple (?Q r) (if r < 0 then do { e \<leftarrow> get_errno env; State_Monad.return (- e) } else State_Monad.return r) ?Q" for r
    by (rule triple_if, rule triple_bind[OF triple_errno[OF assms, where Q = "\<lambda>e h. 0 < e \<and> at_fd m ms {} fd h"]])
      (auto intro: triple_return)
qed

lemma socket_configure_triple:
  assumes "cloud_env_ok env"
  shows "triple (at_fd m ms {} fd) (socket_configure env fd)
    (\<lambda>r h. r < 0 \<and> at_fd m ms {} fd h \<or> 0 \<le> r \<and> connected m ms fd h)" (is "triple _ _ ?Q")
proof -
  have "triple (\<lambda>h. r < 0 \<and> at_fd m ms {} fd h \<or> r = 0 \<and> at_fd m ms tls_opts fd h)
      (if r < 0 then State_Monad.return r else socket_connect env fd) ?Q" for r
    by (rule triple_if) (auto intro: triple_return triple_pre[OF socket_connect_triple[OF assms]])
  note tail = this
  have "triple (at_fd m ms {SO_SNDTIMEO, SO_RCVTIMEO} fd)
      (do { err \<leftarrow> tls_setup env fd; if err < 0 then State_Monad.return err else socket_connect env fd }) ?Q"
    by (rule triple_bind[OF triple_pre[OF tls_setup_triple[OF assms, of m ms]] tail]) (auto intro: at_fd_mono)
  then show ?thesis unfolding socket_configure_def
    by (intro triple_option[OF assms]) (auto intro: at_fd_mono)
qed

lemma socket_open_triple:
  assumes "cloud_env_ok env"
  shows "triple (\<lambda>h. h = (base m ms)\<lparr>h_addr := True\<rparr>) (socket_open env)
    (\<lambda>r h. r < 0 \<and> h = base m ms \<or>
      0 \<le> r \<and> (\<exists>os. h = (base m ms)\<lparr>h_fd := Some r, h_opts := os, h_conn := True\<rparr>))" (is "triple (\<lambda>h. h = ?addr) _ ?Q")
proof -
  have ok: "ce_ret env tr Socket = - 1 \<or> 0 \<le> ce_ret env tr Socket" for tr
    using assms by (auto simp: cloud_env_ok_def dest!: spec[of _ tr])
  have sock: "triple (\<lambda>h. h = ?addr) (lib_call env Socket)
      (\<lambda>fd h. fd = - 1 \<and> h = ?addr \<or> 0 \<le> fd \<and> at_fd m ms {} fd h)"
    by (rule triple_call) (use ok in \<open>auto simp: at_fd_def base_def no_holdings_def\<close>)
  let ?E = "\<lambda>fd r h. fd = - 1 \<and> r < 0 \<and> h = ?addr \<or> 0 \<le> fd \<and> (r < 0 \<and> at_fd m ms {} fd h \<or> 0 \<le> r \<and> connected m ms fd h)"
  let ?F = "\<lambda>fd r h. fd = - 1 \<and> r < 0 \<and> h = base m ms \<or>
     0 \<le> fd \<and> (\<exists>os. h = (base m ms)\<lparr>h_fd := Some fd, h_opts := os, h_conn := (0 \<le> r)\<rparr>)"
  have conf: "triple (\<lambda>h. fd = - 1 \<and> h = ?addr \<or> 0 \<le> fd \<and> at_fd m ms {} fd h)
      (if fd = - 1 then State_Monad.return (- ECONNABORTED) else socket_configure env fd) (?E fd)" for fd
    by (rule triple_if, rule triple_return, simp add: ECONNABORTED_def)
      (rule triple_conseq[OF socket_configure_triple[OF assms, of m ms fd]], auto simp: at_fd_def connected_def)
  have free: "triple (?E fd r) (lib_call env Freeaddrinfo) (\<lambda>_. ?F fd r)" for fd r :: int
    by (rule triple_call) (auto simp: at_fd_def connected_def base_def no_holdings_def)
  have clos: "triple (?F fd r) (lib_call env (Close fd)) (\<lambda>_ h. h = base m ms)" if "fd > - 1" for fd r :: int
    by (rule triple_call) (use that in \<open>auto simp: base_def no_holdings_def\<close>)
  have clean: "triple (?F fd r) (if r < 0 \<and> fd > - 1 then do { _ \<leftarrow> lib_call env (Close fd); State_Monad.return (- 1) }
        else State_Monad.return fd) (\<lambda>fd' h. ?Q (if r < 0 then r else fd') h)" for fd r
  proof (rule triple_if)
    show "triple (?F fd r) (do { _ \<leftarrow> lib_call env (Close fd); State_Monad.return (- 1) })
        (\<lambda>fd' h. ?Q (if r < 0 then r else fd') h)" if "r < 0 \<and> fd > - 1"
      using that by (intro triple_bind[OF clos] triple_return) auto
  qed (auto intro!: triple_return)
  show ?thesis unfolding socket_open_def
    by (rule triple_bind[OF sock], rule triple_bind[OF conf], rule triple_bind[OF free], rule triple_bind[OF clean], rule triple_return)
qed

lemma socket_setup_triple:
  assumes "cloud_env_ok env"
  shows "triple (\<lambda>h. h = base m ms) (socket_setup env)
    (\<lambda>r h. r < 0 \<and> h = base m ms \<or>
      0 \<le> r \<and> (\<exists>os. h = (base m ms)\<lparr>h_fd := Some r, h_opts := os, h_conn := True\<rparr>))" (is "triple _ _ ?Q")
proof -
  have "triple (\<lambda>h. h = base m ms) (lib_call env Getaddrinfo)
      (\<lambda>r h. h = (if r = 0 then (base m ms)\<lparr>h_addr := True\<rparr> else base m ms))"
    by (rule triple_call) (auto simp: base_def no_holdings_def)
  then show ?thesis unfolding socket_setup_def
  proof (rule triple_bind)
    show "triple (\<lambda>h. h = (if r = 0 then (base m ms)\<lparr>h_addr := True\<rparr> else base m ms))
        (if r \<noteq> 0 then State_Monad.return (- EIO) else socket_open env) ?Q" for r
      by (rule triple_if) (auto intro!: triple_return triple_pre[OF socket_open_triple[OF assms]] simp: EIO_def)
  qed
qed

definition open_conn :: "string option \<Rightarrow> string list \<Rightarrow> int \<Rightarrow> holdings \<Rightarrow> bool" where
  "open_conn m ms fd h = (\<exists>os. h = (base m ms)\<lparr>h_fd := Some fd, h_opts := os, h_conn := True\<rparr>)"

lemma deliver_triple: "triple (open_conn m ms fd) (deliver chunks) (\<lambda>_. open_conn m ms fd)"
proof (induction chunks)
  case Nil
  then show ?case by (simp add: triple_return)
next
  case (Cons c cs)
  have "triple (open_conn m ms fd) (response_cb c) (\<lambda>_. open_conn m ms fd)"
    unfolding response_cb_def
  proof (intro triple_if triple_return)
    show "triple (open_conn m ms fd) (State (\<lambda>s. (0, if cl_callback s
        then s\<lparr>cl_trace := cl_trace s @ [(Callback False, 0)]\<rparr> else s))) (\<lambda>_. open_conn m ms fd)"
      unfolding triple_def
    proof (intro allI impI)
      fix s :: cloud_state and h assume "open_conn m ms fd h"
      then show "case run_state (State (\<lambda>s. (0, if cl_callback s
          then s\<lparr>cl_trace := cl_trace s @ [(Callback False, 0)]\<rparr> else s))) s of
        (r, s') \<Rightarrow> \<exists>es h'. s' = s\<lparr>cl_trace := cl_trace s @ es\<rparr> \<and> monitors h es = Some h' \<and> open_conn m ms fd h'"
        by (auto simp: open_conn_def intro!: exI[of _ "if cl_callback s then [(Callback False, 0)] else []"])
    qed
  qed
  then show ?case by (simp add: triple_bind[OF _ Cons.IH])
qed

lemma triple_read: "(\<And>x. triple P (f x) Q) \<Longrightarrow> triple P (State (\<lambda>s. (g s, s)) \<bind> f) Q"
  by (simp add: triple_def)

lemma http_request_triple:
  "triple (open_conn (Some m) ms fd) (http_request env fd m)
    (\<lambda>r. open_conn (Some m) (if 0 \<le> r then ms @ [m] else ms) fd)"
proof -
  have "triple (open_conn (Some m) ms fd) (lib_call env (Http_client_req fd m))
      (\<lambda>r. open_conn (Some m) (if 0 \<le> r then ms @ [m] else ms) fd)"
    by (rule triple_call) (auto simp: open_conn_def base_def no_holdings_def)
  then show ?thesis unfolding http_request_def
    by (auto intro!: triple_read triple_bind[OF _ triple_bind[OF deliver_triple]] triple_return)
qed

lemma print_triple:
  assumes "\<And>msg. triple (\<lambda>h. \<exists>b. h = (base msg ms)\<lparr>h_obj := b\<rparr>) (f msg) Q"
  shows "triple (\<lambda>h. \<exists>b. h = (base None ms)\<lparr>h_obj := b\<rparr>)
    (State (\<lambda>s. (ce_printed env (cl_trace s), s\<lparr>cl_trace := cl_trace s @ [(Json_print (ce_printed env (cl_trace s)), 0)]\<rparr>)) \<bind> f) Q"
proof (rule triple_bind[OF _ assms])
  show "triple (\<lambda>h. \<exists>b. h = (base None ms)\<lparr>h_obj := b\<rparr>)
    (State (\<lambda>s. (ce_printed env (cl_trace s), s\<lparr>cl_trace := cl_trace s @ [(Json_print (ce_printed env (cl_trace s)), 0)]\<rparr>)))
    (\<lambda>msg h. \<exists>b. h = (base msg ms)\<lparr>h_obj := b\<rparr>)"
    unfolding triple_def
    by (auto simp: base_def no_holdings_def intro!: exI[of _ "[(Json_print t, 0)]" for t])
qed

lemma publish_rest_triple:
  assumes "cloud_env_ok env"
  shows "triple (\<lambda>h. h = base (Some m) ms) (do {
         fd \<leftarrow> socket_setup env;
         if fd < 0 then do { _ \<leftarrow> lib_call env Json_free; State_Monad.return fd }
         else do {
           ret \<leftarrow> http_request env fd m;
           _ \<leftarrow> lib_call env (Close fd);
           _ \<leftarrow> lib_call env Json_free;
           State_Monad.return (if ret < 0 then ret else 0)
         }
       }) (\<lambda>r h. r < 0 \<and> h = base None ms \<or> r = 0 \<and> h = base None (ms @ [m]))" (is "triple _ _ ?Q")
proof -
  have free: "triple (\<lambda>h. h = base (Some m) ms) (lib_call env Json_free) (\<lambda>_ h. h = base None ms)" for ms
    by (rule triple_call) (auto simp: base_def no_holdings_def)
  have clos: "triple (open_conn (Some m) ms fd) (lib_call env (Close fd)) (\<lambda>_ h. h = base (Some m) ms)" for ms fd
    by (rule triple_call) (auto simp: open_conn_def base_def no_holdings_def)
  have send: "triple (open_conn (Some m) ms fd) (do {
           ret \<leftarrow> http_request env fd m;
           _ \<leftarrow> lib_call env (Close fd);
           _ \<leftarrow> lib_call env Json_free;
           State_Monad.return (if ret < 0 then ret else 0)
         }) ?Q" for fd
    by (rule triple_bind[OF http_request_triple], rule triple_bind[OF clos], rule triple_bind[OF free])
      (auto intro: triple_return)
  have fail: "triple (\<lambda>h. h = base (Some m) ms) (do { _ \<leftarrow> lib_call env Json_free; State_Monad.return fd }) ?Q" if "fd < 0" for fd
    using that by (intro triple_bind[OF free] triple_return) auto
  show ?thesis
  proof (rule triple_bind[OF socket_setup_triple[OF assms]], rule triple_if)
    fix fd :: int assume "fd < 0"
    then show "triple (\<lambda>h. fd < 0 \<and> h = base (Some m) ms \<or>
        0 \<le> fd \<and> (\<exists>os. h = (base (Some m) ms)\<lparr>h_fd := Some fd, h_opts := os, h_conn := True\<rparr>))
        (do { _ \<leftarrow> lib_call env Json_free; State_Monad.return fd }) ?Q"
      by (intro triple_pre[OF fail]) auto
  next
    fix fd :: int assume "\<not> fd < 0"
    then show "triple (\<lambda>h. fd < 0 \<and> h = base (Some m) ms \<or>
        0 \<le> fd \<and> (\<exists>os. h = (base (Some m) ms)\<lparr>h_fd := Some fd, h_opts := os, h_conn := True\<rparr>))
        (do {
           ret \<leftarrow> http_request env fd m;
           _ \<leftarrow> lib_call env (Close fd);
           _ \<leftarrow> lib_call env Json_free;
           State_Monad.return (if ret < 0 then ret else 0)
         }) ?Q"
      by (intro triple_pre[OF send]) (auto simp: open_conn_def)
  qed
qed

lemma cloud_publish_triple:
  assumes "cloud_env_ok env"
  shows "triple (\<lambda>h. h = no_holdings) (cloud_publish env b)
    (\<lambda>r h. r < 0 \<and> h = no_holdings \<or> r = 0 \<and> (\<exists>m. h = no_holdings\<lparr>h_sent := [m]\<rparr>))" (is "triple _ _ ?Q")
proof -
  have nb: "base None [] = no_holdings" "base None [m] = no_holdings\<lparr>h_sent := [m]\<rparr>" for m
    by (simp_all add: base_def no_holdings_def)
  have create: "triple (\<lambda>h. h = no_holdings) (lib_call env Json_create) (\<lambda>_ h. \<exists>b. h = (base None [])\<lparr>h_obj := b\<rparr>)"
    by (rule triple_call) (auto simp: base_def no_holdings_def)
  have add: "triple P (lib_call env (Json_add b)) (\<lambda>_. P)" for P
    by (rule triple_call) auto
  have del: "triple (\<lambda>h. \<exists>b. h = (base msg [])\<lparr>h_obj := b\<rparr>) (lib_call env Json_delete) (\<lambda>_ h. h = base msg [])" for msg
    by (rule triple_call) (auto simp: base_def no_holdings_def)
  show ?thesis unfolding cloud_publish_def
  proof (rule triple_bind[OF create], rule triple_bind[OF add], rule print_triple, rule triple_bind[OF del])
    fix msg :: "string option"
    show "triple (\<lambda>h. h = base msg []) (case msg of None \<Rightarrow> State_Monad.return (- ENOMEM)
       | Some msg \<Rightarrow> do {
         fd \<leftarrow> socket_setup env;
         if fd < 0 then do { _ \<leftarrow> lib_call env Json_free; State_Monad.return fd }
         else do {
           ret \<leftarrow> http_request env fd msg;
           _ \<leftarrow> lib_call env (Close fd);
           _ \<leftarrow> lib_call env Json_free;
           State_Monad.return (if ret < 0 then ret else 0)
         }
       }) ?Q"
    proof (cases msg)
      case None
      then show ?thesis by (auto intro!: triple_return simp: ENOMEM_def nb)
    next
      case (Some m)
      then show ?thesis
        using triple_conseq[OF publish_rest_triple[OF assms, of m "[]"], of "\<lambda>h. h = base (Some m) []" ?Q] by (auto simp: nb)
    qed
  qed
qed

subsection \<open>Lemmas: provisioning\<close>

text \<open>
  The certificate is written exactly when the check succeeded and no equal certificate is stored; a
  failed deletion of a different one is not an error. Nothing of this reaches the caller of
  \<open>cloud_init\<close>.
\<close>

lemma cert_provision_cases:
  assumes "tr = cl_trace s" "e = ce_ret env tr Key_exists" "tr1 = tr @ [(Key_exists, e)]"
    and "d = ce_ret env tr1 Key_cmp" "tr2 = tr1 @ [(Key_cmp, d)]" "x = ce_ret env tr2 Key_delete"
    and "tr3 = (if ce_exists env tr then tr2 @ [(Key_delete, x)] else tr1)" "w = ce_ret env tr3 Key_write"
  shows "run_state (cert_provision env) s =
    (if e \<noteq> 0 then (e, s\<lparr>cl_trace := tr1\<rparr>)
     else if ce_exists env tr \<and> d = 0 then (0, s\<lparr>cl_trace := tr2\<rparr>)
     else (w, s\<lparr>cl_trace := tr3 @ [(Key_write, w)]\<rparr>))"
  using assms by (simp add: cert_provision_def lib_call_def)

lemma cloud_init_result: "fst (run_state (cloud_init env callback) s) = (if callback then 0 else - EINVAL)"
  by (simp add: cloud_init_def split: prod.splits)

subsection \<open>Properties\<close>

text \<open>
  C38: Publishing, whatever the libraries answer, makes only calls the monitor accepts and gives back all
  it took: the address and the socket once each, the object and the printed text; data goes only
  over a connected socket with peer verification, certificate tag and host name set. It returns 0
  exactly when one request, with the printed text, went through, and a negative error otherwise.
\<close>

theorem cloud_publish_safe:
  assumes "cloud_env_ok env"
  shows "case run_state (cloud_publish env b) s of (r, s') \<Rightarrow>
    \<exists>es sent. s' = s\<lparr>cl_trace := cl_trace s @ es\<rparr> \<and>
      monitors no_holdings es = Some (no_holdings\<lparr>h_sent := sent\<rparr>) \<and>
      (if r = 0 then \<exists>m. sent = [m] else r < 0 \<and> sent = [])"
proof -
  obtain r s' where rs: "run_state (cloud_publish env b) s = (r, s')" by fastforce
  from cloud_publish_triple[OF assms, of b] obtain es h where
    "s' = s\<lparr>cl_trace := cl_trace s @ es\<rparr>" "monitors no_holdings es = Some h"
    "r < 0 \<and> h = no_holdings \<or> r = 0 \<and> (\<exists>m. h = no_holdings\<lparr>h_sent := [m]\<rparr>)"
    unfolding triple_def by (fastforce simp: rs dest!: spec[of _ s])
  then show ?thesis unfolding rs by (cases "r = 0") (auto simp: no_holdings_def)
qed

definition demo_env :: "int \<Rightarrow> cloud_env" where
  \<comment> \<open>everything works, \<open>connect\<close> gives the argument\<close>
  "demo_env conn = \<lparr>ce_ret = (\<lambda>tr c. case c of Socket \<Rightarrow> 3 | Connect fd \<Rightarrow> conn | Http_client_req fd m \<Rightarrow> 17
       | Json_create \<Rightarrow> 1 | _ \<Rightarrow> 0),
     ce_errno = (\<lambda>_. 116), ce_printed = (\<lambda>_. Some ''{true}''), ce_exists = (\<lambda>_. True),
     ce_chunks = (\<lambda>_. [\<lparr>hc_final = True, hc_status = 200, hc_body_found = True\<rparr>])\<rparr>"

lemma demo_env_ok: "cloud_env_ok (demo_env conn)"
  by (simp add: cloud_env_ok_def demo_env_def)

lemmas publish_defs = cloud_publish_def socket_setup_def socket_open_def socket_configure_def socket_connect_def
  tls_setup_def checked_def http_request_def response_cb_def lib_call_def get_errno_def

theorem cloud_publish_safe_witness:
  "\<exists>es sent. run_state (cloud_publish (demo_env 0) True) \<lparr>cl_callback = True, cl_trace = []\<rparr> =
      (0, \<lparr>cl_callback = True, cl_trace = es\<rparr>) \<and> monitors no_holdings es = Some (no_holdings\<lparr>h_sent := [sent]\<rparr>)"
proof -
  have "fst (run_state (cloud_publish (demo_env 0) True) \<lparr>cl_callback = True, cl_trace = []\<rparr>) = 0"
    by (simp add: publish_defs demo_env_def)
  then show ?thesis using cloud_publish_safe[OF demo_env_ok[of 0], of "\<lparr>cl_callback = True, cl_trace = []\<rparr>" True]
    by (auto split: prod.splits if_splits)
qed

text \<open>The state of the loop after some events: whether a request came after the last pass.\<close>

definition awaits :: "nrf_event list \<Rightarrow> bool" where
  "awaits es = (Main_pass \<notin> set es \<or> takeWhile (\<lambda>e. e \<noteq> Main_pass) (rev es) \<noteq> [])"

lemma awaits_simps: "awaits []" "awaits (es @ [Main_pass]) = False" "e \<noteq> Main_pass \<Longrightarrow> awaits (es @ [e])"
  by (auto simp: awaits_def)

lemma nrf_main_snoc: "nrf_main env (es @ [e]) = (case nrf_main env es of Inl x \<Rightarrow> Inl x | Inr s \<Rightarrow> Inr (nrf_step env e s))"
  by (auto simp: nrf_main_def split: prod.splits option.splits)

lemma nrf_main_state:
  assumes "cloud_env_ok env" "nrf_main env es = Inr s"
  shows "nrf_sem s = (if awaits es then 1 else 0) \<and> (\<forall>r\<in>set (nrf_published s). r \<le> 0) \<and>
    length (nrf_published s) + nrf_sem s \<le> 1 + length (filter (\<lambda>e. e \<noteq> Main_pass) es)"
  using assms(2)
proof (induction es arbitrary: s rule: rev_induct)
  case Nil
  then show ?case by (auto simp: nrf_main_def k_sem_give_def awaits_simps split: prod.splits option.splits)
next
  case (snoc e es)
  obtain s0 where s0: "nrf_main env es = Inr s0" "s = nrf_step env e s0"
    using snoc.prems by (auto simp: nrf_main_snoc split: sum.splits)
  obtain r c where rc: "run_state (cloud_publish env True) (nrf_cloud s0) = (r, c)" by fastforce
  have "r \<le> 0" using cloud_publish_triple[OF assms(1), of True] unfolding triple_def
    by (fastforce simp: rc dest!: spec[of _ "nrf_cloud s0"])
  then show ?case using snoc.IH[OF s0(1)] s0(2) rc
    by (cases e) (auto simp: nrf_step_def k_sem_give_def awaits_simps split: if_splits)
qed




end
