(* ===== verification/Siggen.thy ===== *)
theory Siggen
  imports Siot_Prelude
begin

text \<open>
  apps/siggen/src/main.c: the triangle wave written to the converter. One step is one pass of the loop;
  the write and the sleep do not change the state.
\<close>

record triangle =
  tri_up :: bool
  tri_value :: int

definition TRI_MIN :: int where [simp]: "TRI_MIN = 0"
definition TRI_MAX :: int where [simp]: "TRI_MAX = 1241"

definition tri_init :: triangle where
  "tri_init = \<lparr>tri_up = True, tri_value = 0\<rparr>"

definition tri_step :: "triangle \<Rightarrow> triangle" where
  "tri_step s =
     (if tri_up s then
        (let v = tri_value s + 1 in \<lparr>tri_up = \<not> TRI_MAX \<le> v, tri_value = v\<rparr>)
      else
        (let v = tri_value s - 1 in \<lparr>tri_up = v \<le> TRI_MIN, tri_value = v\<rparr>))"

fun gen_triangle :: "nat \<Rightarrow> triangle \<Rightarrow> int list" where
  \<comment> \<open>the values written in \<open>n\<close> passes of the endless loop\<close>
  "gen_triangle 0 s = []"
| "gen_triangle (Suc n) s = tri_value (tri_step s) # gen_triangle n (tri_step s)"

definition triangle_wave :: "nat \<Rightarrow> int" where
  \<comment> \<open>the reference: period 2482, rising and falling by one\<close>
  "triangle_wave t = (let k = int (t mod 2482) in if k \<le> 1241 then k else 2482 - k)"

definition tri_at :: "nat \<Rightarrow> triangle" where
  "tri_at t = \<lparr>tri_up = (t mod 2482 < 1241), tri_value = triangle_wave t\<rparr>"

lemma tri_step_at: "tri_step (tri_at t) = tri_at (Suc t)"
proof -
  define k where "k = t mod 2482"
  have k: "k < 2482" "Suc t mod 2482 = (if k = 2481 then 0 else Suc k)" by (simp_all add: k_def mod_Suc)
  then show ?thesis
    by (auto simp: tri_step_def tri_at_def triangle_wave_def Let_def simp flip: k_def)
qed

lemma gen_triangle_at: "gen_triangle n (tri_at t) = map (\<lambda>i. triangle_wave (t + Suc i)) [0..<n]"
proof (induction n arbitrary: t)
  case (Suc n)
  have "map (\<lambda>i. triangle_wave (t + Suc i)) [0..<Suc n] =
      triangle_wave (Suc t) # map (\<lambda>i. triangle_wave (Suc t + Suc i)) [0..<n]"
    by (simp add: upt_conv_Cons map_Suc_upt[symmetric] del: upt_Suc)
  then show ?case using Suc.IH[of "Suc t"] by (simp add: tri_step_at del: upt_Suc) (simp add: tri_at_def)
qed simp

text \<open>
  The generator follows the triangle wave: pass \<open>t\<close> writes the reference value at \<open>t\<close>, every value
  lies in the range of the converter, and the wave repeats after 2482 passes.
\<close>

lemma gen_triangle_wave:
  "gen_triangle n tri_init = map (\<lambda>i. triangle_wave (Suc i)) [0..<n] \<and>
   (\<forall>v\<in>set (gen_triangle n tri_init). TRI_MIN \<le> v \<and> v \<le> TRI_MAX) \<and>
   triangle_wave (t + 2482) = triangle_wave t"
proof -
  have "tri_init = tri_at 0" by (simp add: tri_init_def tri_at_def triangle_wave_def)
  then have g: "gen_triangle n tri_init = map (\<lambda>i. triangle_wave (Suc i)) [0..<n]"
    using gen_triangle_at[of n 0] by simp
  have b: "0 \<le> triangle_wave t \<and> triangle_wave t \<le> 1241" for t
  proof -
    have "int (t mod 2482) < 2482" by simp
    then show ?thesis by (simp add: triangle_wave_def Let_def del: of_nat_mod)
  qed
  then have "\<forall>v\<in>set (gen_triangle n tri_init). TRI_MIN \<le> v \<and> v \<le> TRI_MAX" unfolding g by auto
  then show ?thesis using g by (simp add: triangle_wave_def)
qed

lemma gen_triangle_wave_witness:
  "gen_triangle 3 tri_init = [1, 2, 3]"
proof -
  have "[0..<3] = [0, 1, 2 :: nat]" by (simp add: upt_rec)
  then show ?thesis using gen_triangle_wave[of 3 0] by (simp add: triangle_wave_def del: gen_triangle.simps)
qed

end
