(* ===== verification/Startup.thy ===== *)
theory Startup
  imports Nvs_Store Siggen
begin

text \<open>
  The start-up code of the applications and boards: apps/siot-net/src/main.c with its SD card test,
  apps/siot-simple/src/main.c, apps/siot-nrf-simple/src/main.c, apps/siggen/src/main.c and the
  board_init.c of the two ESP32 boards. The drivers answer through records of results; what a
  function does is the list of its driver calls.
\<close>

subsection \<open>SD card (apps/siot-net)\<close>

datatype disk_op = DISK_IOCTL_CTRL_INIT | DISK_IOCTL_GET_SECTOR_COUNT | DISK_IOCTL_GET_SECTOR_SIZE | DISK_IOCTL_CTRL_DEINIT

record dir_answer =
  \<comment> \<open>one answer of \<open>fs_readdir\<close>\<close>
  da_ret :: int
  da_name :: string
  da_dir :: bool
  da_size :: nat

record sd_env =
  sd_ioctl :: "disk_op \<Rightarrow> int"
  sd_block_count :: "32 word"
  sd_block_size :: "32 word"
  sd_mount :: int
  sd_opendir :: int
  sd_answers :: "dir_answer list"

datatype sd_action =
  Disk_ioctl disk_op
| Log_memory "32 word"
| Fs_mount
| Fs_opendir
| Fs_readdir
| Log_dir string
| Log_file string nat
| Fs_closedir

definition sd_probe :: "sd_env \<Rightarrow> sd_action list" where
  \<comment> \<open>the block that is left with \<open>break\<close>; the size in MB is computed with 64 bits and logged with 32\<close>
  "sd_probe env =
     Disk_ioctl DISK_IOCTL_CTRL_INIT #
     (if sd_ioctl env DISK_IOCTL_CTRL_INIT \<noteq> 0 then []
      else Disk_ioctl DISK_IOCTL_GET_SECTOR_COUNT #
        (if sd_ioctl env DISK_IOCTL_GET_SECTOR_COUNT \<noteq> 0 then []
         else Disk_ioctl DISK_IOCTL_GET_SECTOR_SIZE #
           (if sd_ioctl env DISK_IOCTL_GET_SECTOR_SIZE \<noteq> 0 then []
            else let memory = (ucast (sd_block_count env) :: 64 word) * ucast (sd_block_size env)
              in [Log_memory (ucast (drop_bit 20 memory)), Disk_ioctl DISK_IOCTL_CTRL_DEINIT])))"

fun sd_list :: "dir_answer list \<Rightarrow> sd_action list option" where
  \<comment> \<open>\<open>None\<close>: the answers given do not end the listing, it goes on\<close>
  "sd_list [] = None"
| "sd_list (a # as) =
     (if da_ret a \<noteq> 0 \<or> da_name a = [] then Some [Fs_readdir]
      else do {
        rest \<leftarrow> sd_list as;
        Some (Fs_readdir # (if da_dir a then Log_dir (da_name a) else Log_file (da_name a) (da_size a)) # rest)
      })"

definition sd_card_init :: "sd_env \<Rightarrow> sd_action list option" where
  "sd_card_init env =
     (if sd_mount env \<noteq> 0 then Some (sd_probe env @ [Fs_mount])
      else if sd_opendir env \<noteq> 0 then Some (sd_probe env @ [Fs_mount, Fs_opendir])
      else do {
        listing \<leftarrow> sd_list (sd_answers env);
        Some (sd_probe env @ [Fs_mount, Fs_opendir] @ listing @ [Fs_closedir])
      })"

subsection \<open>Boards\<close>

definition ENODEV :: int where "ENODEV = 19"

definition board_esp32_ethernet_kit_init :: "bool \<Rightarrow> int \<Rightarrow> int \<times> bool" where
  \<comment> \<open>readiness of the GPIO device and the result of configuring the pin that powers the Ethernet
    PHY; the result, and whether the pin was configured\<close>
  "board_esp32_ethernet_kit_init ready configured =
     (if \<not> ready then (- ENODEV, False) else (configured, True))"

subsection \<open>Applications\<close>

datatype 'z net_action =
  Reg_write "32 word" "32 word"
| Nvs_started int "point list"
| Sd_card "sd_action list"
| Net_event_callback

definition siot_net_main ::
  "'z zreader \<Rightarrow> 'z zwriter \<Rightarrow> flash_env \<Rightarrow> bytes \<Rightarrow> sd_env option \<Rightarrow> bytes \<Rightarrow> 'z nvs_state \<Rightarrow>
   ('z nvs_state \<times> 'z net_action list) option" where
  \<comment> \<open>\<open>sd\<close> is present when the FAT file system is configured, \<open>target\<close> is CONFIG_BOARD_TARGET\<close>
  "siot_net_main zread zwrite env junk sd target st = do {
     wrover \<leftarrow> c_streq target (lit ''esp32_poe_wrover/esp32/procpu'');
     (ret, st, pub) \<leftarrow> nvs_init zread zwrite env junk siot_net_nvs_pts st;
     disk \<leftarrow> (case sd of None \<Rightarrow> Some [] | Some s \<Rightarrow> do { l \<leftarrow> sd_card_init s; Some [Sd_card l] });
     Some (st, (if wrover then [Reg_write 0x3FF49044 0x1900] else []) @ Nvs_started ret pub # disk @ [Net_event_callback])
   }"

definition siot_simple_main ::
  "'z zreader \<Rightarrow> 'z zwriter \<Rightarrow> flash_env \<Rightarrow> bytes \<Rightarrow> 'z nvs_state \<Rightarrow> (int \<times> 'z nvs_state \<times> point list) option" where
  "siot_simple_main zread zwrite env junk st = do {
     (ret, st, pub) \<leftarrow> nvs_init zread zwrite env junk siot_simple_nvs_pts st;
     Some (0, st, pub)
   }"

fun nrf_blink :: "nat \<Rightarrow> bool list" where
  \<comment> \<open>the LED after each call in \<open>n\<close> passes of the endless loop\<close>
  "nrf_blink 0 = []"
| "nrf_blink (Suc n) = True # False # nrf_blink n"

definition nrf_simple_main :: "int \<Rightarrow> int \<Rightarrow> nat \<Rightarrow> int + bool list" where
  \<comment> \<open>the results of the modem library's start and of the connection\<close>
  "nrf_simple_main modem_init lte_connect n =
     (if modem_init < 0 then Inl modem_init
      else if lte_connect < 0 then Inl lte_connect
      else Inr (nrf_blink n))"

definition siggen_main :: "bool \<Rightarrow> int \<Rightarrow> nat \<Rightarrow> int list" where
  \<comment> \<open>a converter that is not ready, or a channel that cannot be set up, is only logged\<close>
  "siggen_main ready channel_setup n = gen_triangle n tri_init"

subsection \<open>Lemmas\<close>

text \<open>The directory is closed exactly when it was opened, and then last.\<close>

lemma sd_list_no_close: "sd_list as = Some l \<Longrightarrow> set l \<inter> {Fs_opendir, Fs_closedir, Fs_mount} = {}"
  by (induction as arbitrary: l) (auto split: if_splits Option.bind_splits)

lemma sd_probe_no_fs: "set (sd_probe env) \<inter> {Fs_opendir, Fs_closedir, Fs_mount} = {}"
  by (auto simp: sd_probe_def Let_def)

lemma sd_card_closes:
  assumes "sd_card_init env = Some l"
  shows "count_list l Fs_closedir = (if sd_mount env = 0 \<and> sd_opendir env = 0 then 1 else 0)"
    and "Fs_closedir \<in> set l \<longrightarrow> last l = Fs_closedir"
  using assms sd_probe_no_fs[of env]
  by (auto simp: sd_card_init_def count_list_0_iff split: if_splits Option.bind_splits dest: sd_list_no_close)

text \<open>The size logged is exact up to four pebibytes: the product of two 32 bit counts fits 64 bits.\<close>

lemma sd_memory:
  assumes "Log_memory mb \<in> set (sd_probe env)"
  shows "unat mb = (unat (sd_block_count env) * unat (sd_block_size env) div 2 ^ 20) mod 2 ^ 32"
proof -
  let ?c = "unat (sd_block_count env)" and ?s = "unat (sd_block_size env)"
  have "?c * ?s < 4294967296 * 4294967296"
    using unat32_less[of "sd_block_count env"] unat32_less[of "sd_block_size env"] by (intro mult_strict_mono) auto
  then have lt: "?c * ?s < 2 ^ 64" by simp
  have u: "unat (ucast w :: 64 word) = unat w" for w :: "32 word"
    using unat32_less[of w] by (simp add: unsigned_ucast_eq take_bit_nat_eq_self)
  have "unat ((ucast (sd_block_count env) :: 64 word) * ucast (sd_block_size env)) = ?c * ?s"
    using lt by (simp add: unat_word_ariths u)
  moreover have "mb = ucast (drop_bit 20 ((ucast (sd_block_count env) :: 64 word) * ucast (sd_block_size env)))"
    using assms by (auto simp: sd_probe_def Let_def split: if_splits)
  ultimately show ?thesis by (simp add: unat_drop_bit_eq drop_bit_eq_div unsigned_ucast_eq take_bit_eq_mod unat_div)
qed

end
