(* ===== verification/Spec2Isabelle.thy ===== *)
theory Spec2Isabelle
  imports Firmware Html_Form Cloud Startup
begin

text \<open>
  Verification library of the Simple IoT firmware for Zephyr (the C code under src/lib, src/apps,
  src/include and src/boards).

  \<^bold>\<open>The program.\<close> Everything the firmware knows is a \<^emph>\<open>point\<close>: a time, a type, a key and up to 20 bytes of
  data that are an int, a float, a string or JSON text. Points travel on one zbus channel,
  \<open>point_chan\<close>. Producers are the boot report (lib/zbus.c), the metrics thread (lib/metrics.c), the
  restore of persisted points at boot (lib/nvs.c), the shell command (lib/point.c,
  \<open>handle_sendpoint\<close>) and a POST to the web server (apps/siot-net/src/web.c). Consumers, each with
  its own copy of every message, are the point cache (lib/point-cache.c), the web server's array
  and the NVS store thread. The nRF application is separate: it posts device data to a
  cloud server over HTTPS.

  \<^bold>\<open>Theories.\<close>
    \<^item> Siot_Prelude: undefined behaviour as \<open>None\<close>, checked buffer accesses, decimal digits.
    \<^item> C_Strings: the functions of string.h the code uses; the locale \<open>text_codec\<close>, the contract of a
      printer and a parser.
    \<^item> Float32: C's float as IEEE binary32, executable.
    \<^item> Siot_String: lib/siot-string.c (\<open>ftoa\<close>, \<open>itoa\<close>, \<open>utoa64\<close>, \<open>atoi\<close>, \<open>atof\<close>, \<open>atou64\<close>).
    \<^item> Timeconv: lib/timeconv.c (RFC 3339 printing and parsing, the civil calendar).
    \<^item> Point: include/point.h and lib/point.c up to the JSON section (setters, getters, dumps,
      \<open>points_merge\<close>); the locale \<open>point_store\<close>, the contract of a store fed with points.
    \<^item> Point_Json: the JSON section of lib/point.c and the send command.
    \<^item> Point_Cache: lib/point-cache.c (cache, iteration, shell reports, streaming, the thread).
    \<^item> Web: apps/siot-net/src/web.c (the handler of /v1 and the thread).
    \<^item> Nvs_Store: lib/nvs.c and the tables of apps/siot-net and apps/siot-simple.
    \<^item> Html_Form: lib/html.c.
    \<^item> Telemetry: lib/zbus.c (the boot report and the ticker) and lib/metrics.c.
    \<^item> Firmware: the firmware of apps/siot-net as one system on the bus, from power-on: every producer, the
      queue of every observer, and the steps of all threads in any order; the locale \<open>observer\<close>, the
      contract of a thread that follows the bus, interpreted by the cache, the web server and the
      store.
    \<^item> Cloud: apps/siot-nrf/src/cloud/cloud.c and the main loop of apps/siot-nrf.
    \<^item> Siggen, Startup: apps/siggen, and the start-up code of the other applications and boards.
    \<^item> this theory: the property that spans the web server, the store, a reset and the cache.

  \<^bold>\<open>Correspondence.\<close> A definition has the name of the C function it translates; a loop is a recursive
  function named after the function, with the suffix \<open>_loop\<close>. A C function is a function into
  \<open>'a option\<close> where it touches memory or can overflow: \<open>None\<close> is undefined behaviour, never an error
  code, so a theorem that a call is \<open>Some\<close> says that it is memory safe and returns. Objects
  behind pointers are passed in and returned; static variables are fields of a state record
  (\<open>cache_state\<close>, \<open>web_state\<close>, \<open>nvs_state\<close>). Publishing on a channel is the list of points a function
  returns. A thread is a function over the list of messages it receives, with a flag for the
  channel each came on; in Firmware a thread takes one message at a time from the queue the bus
  keeps for it, so that the steps of all threads interleave. Operations that the code runs under a
  lock are single steps. Cloud runs in a state monad over the trace of library calls.

  \<^bold>\<open>Parameters.\<close> Code that is not part of the repository is an argument of the definitions that use
  it, with its documented behaviour as a named hypothesis: \<open>timeutil_timegm64\<close> (\<open>timegm_ok\<close>), the JSON library (\<open>arr_encoder\<close>,
  \<open>arr_parser\<close>; \<open>encoder_ok\<close>, \<open>parsed_ok\<close>), the flash file system (\<open>zms_ok\<close>, \<open>writes_ok\<close>), the flash
  driver (\<open>flash_env\<close>), the kernel heap (\<open>malloc_ok\<close>), the kernel's statistics (\<open>sample_ok\<close>), and the
  socket, HTTP and modem libraries (\<open>cloud_env_ok\<close>). Every such hypothesis is met by a concrete
  function in a witness.

  \<^bold>\<open>What is shown.\<close> Numbers and times survive printing and parsing and every routine stays in its
  buffers (Siot_String, Timeconv). Merging refines the update of a map from names to points; a
  store fed with a stream shows the last accepted point of every name (Point; interpreted by
  the plain array, the cache and the web server's array). Points survive the conversion to
  JSON, decoding is safe on every mirror of C strings, encoding and decoding of arrays stay in
  bounds (Point_Json). The reachable states of the cache and of the web server keep their
  invariants under every order of events, reports can be replayed, chunked bodies are handled
  like whole ones (Point_Cache, Web). The store refines a map from ids to records, persisted
  points and the boot counter survive a reset (Nvs_Store). The form parser inverts the encoding
  a browser uses (Html_Form). The firmware's own reports reach the cache with a load
  between 0 and 100 (Telemetry). From power-on, no order of metrics, commands, requests and
  deliveries makes the firmware take an undefined step; when the queues are empty, the cache and the
  web server show the same points, the last published under every name, and the store holds the
  last record of every persisted name, provided that the arrays have a slot for every name in use
  (Firmware). Publishing to the cloud keeps to a monitor of library calls that
  tracks every resource and every precondition for sending data, and no request to publish is
  lost (Cloud). Where the code is wrong the theorems say so: the findings of the manifest name
  them.

  \<^bold>\<open>Bounds.\<close> No definition uses fuel: loops recurse on a list or with a measure, and the endless loops of
  the threads run over the finite list of messages, samples or passes considered. The listing
  of a directory (Startup) is \<open>None\<close> as long as the answers given do not end it. Machine integers
  are words where the code relies on their width (64 bit times, 32 bit data, 8 bit data types);
  int results that may overflow go through \<open>c_int\<close>. The cache has at most 47 slots, the
  number the JSON array holds and the build configuration allows.

  \<^bold>\<open>Not modelled.\<close> The declarations of channels, observers, threads, shell commands and HTTP resources
  (macros of Zephyr that generate objects; their effect, a queue per observer, is part of
  Firmware); log output, except for the buffers it is formatted into; the JSON
  descriptors; apps/siot-serial and apps/siot-can-node, which only log a line; the tests; the
  front end (Elm), the generated assets and the build files. Preemption inside an
  operation that takes no lock is not modelled: the static buffers of the web handler are used by the
  one thread of the HTTP server. Firmware starts when \<open>nvs_init\<close> has returned: the messages of
  the boot are then queued, and those that the store thread misses or ignores before it has its table
  are a number of the power-on state. A publication that times out because the pool of
  message buffers is empty is not modelled; the code ignores its result.
\<close>

subsection \<open>Property\<close>

text \<open>
  C40: Settings posted to the web server survive a reset: if the last point of a persisted name that the
  store thread sees comes from a POST and has the data type of its table entry, then, whatever was
  on the bus before and after, the next boot publishes a point with that name and value, and the
  new cache shows it.
\<close>

theorem posted_config_survives_reset:
  assumes "web_ok st" "posts arr_parse rq st (pre @ p # post)"
    and "zms_ok zread zwrite content" "writes_ok zwrite" "nv_pts nst = siot_net_nvs_pts"
    and "env_ok env" "length junk = 20" "6 \<le> n" "n \<le> 47"
    and "e \<in> set siot_net_nvs_pts" "point_name (normal_key p) = entry_name e"
    and "uint (p_data_type p) = pd_data_type (np_def e)"
    and "\<forall>q\<in>set post. point_name (normal_key q) \<noteq> entry_name e"
    and "\<forall>(on, q)\<in>set (before @ later). point_wf q \<and> text_wf q"
    and "\<forall>q\<in>set (map snd (filter fst later)). point_name q \<noteq> entry_name e"
  shows "\<exists>st' resp pub nst1 nst2 boot cst.
    v1_handler enc arr_parse board rq st = Some (0, st', Some resp, pub) \<and>
    nvs_store_thread zwrite nst (before @ map (Pair True) pub @ later) = Some nst1 \<and>
    nvs_init zread zwrite env junk siot_net_nvs_pts \<lparr>nv_fs = nv_fs nst1, nv_pts = []\<rparr> = Some (0, nst2, boot) \<and>
    point_cache_thread True (cache_init n) (map (Pair True) boot) = Some (cst, []) \<and>
    (\<exists>q. cache_view cst (entry_name e) = Some q \<and> same_value p q)"
proof -
  let ?tbl = siot_net_nvs_pts
  let ?pub = "map normal_key (pre @ p # post)"
  let ?msgs = "before @ map (Pair True) ?pub @ later"
  have tbl: "table_ok ?tbl" "\<forall>e\<in>set ?tbl. entry_ok e" using tables_ok(1) by (auto simp: table_ok_def)
  have wf: "\<forall>q\<in>set (pre @ p # post). point_wf q \<and> text_wf q" by (rule posts_published(2)[OF assms(1,2)])
  have nk: "point_wf (normal_key q) \<and> text_wf (normal_key q)" if "point_wf q \<and> text_wf q" for q
    using that normal_key_wf[of q] by (simp add: text_wf_def)
  obtain st' resp where h: "v1_handler enc arr_parse board rq st = Some (0, st', Some resp, ?pub)"
    using posts_published(1)[OF assms(1,2)] by blast
  have "\<forall>(on, q)\<in>set ?msgs. point_wf q \<and> text_wf q" using assms(14) wf nk by auto
  note msgs = this
  have on: "map snd (filter fst ?msgs) =
      (map snd (filter fst before) @ map normal_key pre) @ normal_key p # map normal_key post @ map snd (filter fst later)"
    by (simp add: filter_map comp_def)
  have post: "\<forall>q\<in>set (map normal_key post @ map snd (filter fst later)). point_name q \<noteq> entry_name e"
    using assms(13,15) by auto
  have nst: "table_ok (nv_pts nst)" "e \<in> set (nv_pts nst)" using tbl(1) assms(5,10) by simp_all
  have r: "record_of (normal_key p) = record_of p" by (simp add: record_of_def)
  obtain nst1 where s: "nvs_store_thread zwrite nst ?msgs = Some nst1"
    and c: "content (nv_fs nst1) (unat (np_id e)) = record_of p"
    using persisted_record[OF assms(3,4) nst(1) msgs nst(2) on assms(11) post] unfolding r by blast
  obtain z' boot where i: "nvs_init zread zwrite env junk ?tbl \<lparr>nv_fs = nv_fs nst1, nv_pts = []\<rparr> =
      Some (0, \<lparr>nv_fs = z', nv_pts = ?tbl\<rparr>, boot)"
    "list_all2 (\<lambda>e q. restored e (content (nv_fs nst1) (unat (np_id e))) q) ?tbl boot"
    using nvs_init_spec[OF assms(3) tbl(1) assms(6,7), of "\<lparr>nv_fs = nv_fs nst1, nv_pts = []\<rparr>"] by auto
  obtain cst q where "point_cache_thread True (cache_init n) (map (Pair True) boot) = Some (cst, [])"
    "cache_view cst (entry_name e) = Some q" "restored e (record_of p) q"
    using boot_shown[OF tbl(1) i(2) _ assms(9), of True] assms(8,10) c net_names by force
  moreover from this(3) have "same_value p q"
    using restored_record[OF _ _ assms(12)] tbl(2) assms(10) wf by auto
  ultimately show ?thesis using h s i(1) by blast
qed

theorem posted_config_survives_reset_witness:
  "\<exists>st' resp pub nst1 nst2 boot cst q.
    v1_handler null_encoder (named_parser ''staticIP'') (lit ''board'') (sample_request HTTP_POST ''x'') web_init =
      Some (0, st', Some resp, pub) \<and>
    nvs_store_thread map_write \<lparr>nv_fs = Map.empty, nv_pts = siot_net_nvs_pts\<rparr> ([] @ map (Pair True) pub @ []) = Some nst1 \<and>
    nvs_init map_read map_write sample_env (replicate 20 NUL) siot_net_nvs_pts \<lparr>nv_fs = nv_fs nst1, nv_pts = []\<rparr> =
      Some (0, nst2, boot) \<and>
    point_cache_thread True (cache_init 6) (map (Pair True) boot) = Some (cst, []) \<and>
    cache_view cst (''staticIP'', ''0'') = Some q \<and> point_get_int q = 42"
proof -
  let ?p = "sample_point ''staticIP'' ''0'' 42" and ?rq = "sample_request HTTP_POST ''x''"
  let ?nst = "\<lparr>nv_fs = Map.empty, nv_pts = siot_net_nvs_pts\<rparr> :: (nat \<rightharpoonup> bytes) nvs_state"
  let ?e = "\<lparr>np_id = 3, np_def = point_def_staticip, np_key = lit ''0''\<rparr>"
  have n: "entry_name ?e = (''staticIP'', ''0'')" "point_key ?p = ''0''" "point_type ?p = ''staticIP''"
    by (simp_all add: entry_name_def point_def_staticip_def sample_point_def point_put_int_def point_key_def
      point_type_def field_of_cstr)
  have p1: "posts (named_parser ''staticIP'') ?rq web_init ([] @ ?p # [])"
    using named_parser_posted(2)[of "''staticIP''"] named_body_ok[of "''staticIP''"]
    by (simp add: posts_def sample_request_def v1_store_chunk_spec web_init_def)
  have "?e \<in> set siot_net_nvs_pts" "point_name (normal_key ?p) = entry_name ?e"
    "uint (p_data_type ?p) = pd_data_type (np_def ?e)"
    using n by (simp_all add: siot_net_nvs_pts_def point_name_def normal_key_key point_def_staticip_def)
  then have "\<exists>st' resp pub nst1 nst2 boot cst.
    v1_handler null_encoder (named_parser ''staticIP'') (lit ''board'') ?rq web_init = Some (0, st', Some resp, pub) \<and>
    nvs_store_thread map_write ?nst ([] @ map (Pair True) pub @ []) = Some nst1 \<and>
    nvs_init map_read map_write sample_env (replicate 20 NUL) siot_net_nvs_pts \<lparr>nv_fs = nv_fs nst1, nv_pts = []\<rparr> =
      Some (0, nst2, boot) \<and>
    point_cache_thread True (cache_init 6) (map (Pair True) boot) = Some (cst, []) \<and>
    (\<exists>q. cache_view cst (entry_name ?e) = Some q \<and> same_value ?p q)"
    by (intro posted_config_survives_reset[OF web_init_ok p1 map_zms_ok map_writes_ok _ sample_env_ok]) simp_all
  then show ?thesis unfolding n(1) by (fastforce simp: same_value_def INT_MIN_def INT_MAX_def)
qed

end
